(* ===== verification/Prelude.thy ===== *)
theory Prelude
  imports Main "HOL-Library.Sublist" "HOL-Library.AList" "HOL-Library.Char_ord"
    "HOL-Library.List_Lexorder"
begin

text \<open>
  Shared vocabulary of the development.

  A Go error value is its message, a string: the program compares and searches error texts
  (\<open>isPortConflict\<close>, \<open>startupError\<close>), so the text is what matters. A Go function with
  results \<open>(T, error)\<close> returns a sum, \<open>Inl\<close> the error and \<open>Inr\<close> the value; one that
  also acts on a state takes the state last and returns it updated, an \<open>('s, 'a) action\<close>.

  \<open>stays R m\<close> says that running the action \<open>m\<close> relates the state before to the state
  after by \<open>R\<close>. The locale \<open>frame\<close> proves, for every reflexive and transitive \<open>R\<close>,
  that the combinators keep \<open>stays\<close>; the component theories interpret it once per frame
  (files outside a directory, a lock that is held, a process that is alive).
\<close>

named_theorems stays_intros \<open>rules that prove that an action stays within a frame\<close>

type_synonym go_error = string
type_synonym 'a result = "go_error + 'a"
type_synonym ('s, 'a) action = "'s \<Rightarrow> 'a result \<times> 's"

subsection \<open>Actions\<close>

text \<open>\<open>if err != nil { return err }\<close> after a call, and continuing with its value otherwise.\<close>

definition seqE :: "('s, 'a) action \<Rightarrow> ('a \<Rightarrow> ('s, 'b) action) \<Rightarrow> ('s, 'b) action" where
  "seqE m f s = (case m s of (Inl e, s') \<Rightarrow> (Inl e, s') | (Inr a, s') \<Rightarrow> f a s')"

definition returnE :: "'a \<Rightarrow> ('s, 'a) action" where
  "returnE a s = (Inr a, s)"

definition failE :: "go_error \<Rightarrow> ('s, 'a) action" where
  "failE e s = (Inl e, s)"

text \<open>\<open>fmt.Errorf("...: %w", err)\<close>: the same call with its error text rewritten.\<close>

definition wrapE :: "(go_error \<Rightarrow> go_error) \<Rightarrow> ('s, 'a) action \<Rightarrow> ('s, 'a) action" where
  "wrapE g m s = (case m s of (Inl e, s') \<Rightarrow> (Inl (g e), s') | (Inr a, s') \<Rightarrow> (Inr a, s'))"

text \<open>A call whose error the code discards.\<close>

definition ignoreE :: "('s, 'a) action \<Rightarrow> ('s, unit) action" where
  "ignoreE m s = (Inr (), snd (m s))"

text \<open>A loop over a list whose body may return early with an error.\<close>

fun forE :: "'a list \<Rightarrow> ('a \<Rightarrow> ('s, unit) action) \<Rightarrow> ('s, unit) action" where
  "forE [] f s = (Inr (), s)"
| "forE (x # xs) f s = seqE (f x) (\<lambda>_. forE xs f) s"

text \<open>A loop over a list whose body only changes the state.\<close>

definition forS :: "'a list \<Rightarrow> ('a \<Rightarrow> 's \<Rightarrow> 's) \<Rightarrow> 's \<Rightarrow> 's" where
  "forS xs f s = fold f xs s"

lemma seqE_Inl: "m s = (Inl e, s') \<Longrightarrow> seqE m f s = (Inl e, s')"
  by (simp add: seqE_def)

lemma seqE_Inr: "m s = (Inr a, s') \<Longrightarrow> seqE m f s = f a s'"
  by (simp add: seqE_def)

lemma seqE_case: "m s = (r, s') \<Longrightarrow> seqE m f s = (case r of Inl e \<Rightarrow> (Inl e, s') | Inr a \<Rightarrow> f a s')"
  by (simp add: seqE_def split: sum.split)

lemma seqE_eq_Inr:
  "seqE m f s = (Inr b, t) \<longleftrightarrow> (\<exists>a s'. m s = (Inr a, s') \<and> f a s' = (Inr b, t))"
  by (auto simp: seqE_def split: prod.splits sum.splits)

lemma seqE_eq_Inl:
  "seqE m f s = (Inl e, t) \<longleftrightarrow>
    m s = (Inl e, t) \<or> (\<exists>a s'. m s = (Inr a, s') \<and> f a s' = (Inl e, t))"
  by (auto simp: seqE_def split: prod.splits sum.splits)

lemma wrapE_eq_Inr [simp]: "wrapE g m s = (Inr a, t) \<longleftrightarrow> m s = (Inr a, t)"
  by (auto simp: wrapE_def split: prod.splits sum.splits)

lemma wrapE_eq_Inl: "wrapE g m s = (Inl e, t) \<longleftrightarrow> (\<exists>e'. m s = (Inl e', t) \<and> e = g e')"
  by (auto simp: wrapE_def split: prod.splits sum.splits)

lemma snd_wrapE [simp]: "snd (wrapE g m s) = snd (m s)"
  by (auto simp: wrapE_def split: prod.splits sum.splits)

lemma returnE_eq [simp]: "returnE a s = (r, t) \<longleftrightarrow> r = Inr a \<and> t = s"
  by (auto simp: returnE_def)

lemma failE_eq [simp]: "failE e s = (r, t) \<longleftrightarrow> r = Inl e \<and> t = s"
  by (auto simp: failE_def)

lemma forS_Nil [simp]: "forS [] f s = s"
  by (simp add: forS_def)

lemma forS_Cons [simp]: "forS (x # xs) f s = forS xs f (f x s)"
  by (simp add: forS_def)

text \<open>A property kept by every body is kept by the loop.\<close>

lemma forS_invariant:
  "I s \<Longrightarrow> (\<And>x t. x \<in> set xs \<Longrightarrow> I t \<Longrightarrow> I (f x t)) \<Longrightarrow> I (forS xs f s)"
  by (induction xs arbitrary: s) auto

subsection \<open>Frames\<close>

definition stays :: "('s \<Rightarrow> 's \<Rightarrow> bool) \<Rightarrow> ('s \<Rightarrow> 'r \<times> 's) \<Rightarrow> bool" where
  "stays R m \<longleftrightarrow> (\<forall>s. R s (snd (m s)))"

lemma staysI: "(\<And>s. R s (snd (m s))) \<Longrightarrow> stays R m"
  by (simp add: stays_def)

lemma staysD: "stays R m \<Longrightarrow> R s (snd (m s))"
  by (simp add: stays_def)

lemma staysE: "stays R m \<Longrightarrow> m s = (r, t) \<Longrightarrow> R s t"
  using staysD [of R m s] by simp

locale frame =
  fixes R :: "'s \<Rightarrow> 's \<Rightarrow> bool"
  assumes frame_refl: "R s s"
    and frame_trans: "R s t \<Longrightarrow> R t u \<Longrightarrow> R s u"
begin

lemma stays_seqE: "stays R m \<Longrightarrow> (\<And>a. stays R (f a)) \<Longrightarrow> stays R (seqE m f)"
  by (auto simp: stays_def seqE_def split: prod.splits sum.splits)
    (metis frame_trans snd_conv)+

lemma stays_returnE: "stays R (returnE a)"
  by (simp add: stays_def returnE_def frame_refl)

lemma stays_failE: "stays R (failE e)"
  by (simp add: stays_def failE_def frame_refl)

lemma stays_wrapE: "stays R m \<Longrightarrow> stays R (wrapE g m)"
  by (simp add: stays_def)

lemma stays_ignoreE: "stays R m \<Longrightarrow> stays R (ignoreE m)"
  by (simp add: stays_def ignoreE_def)

lemma stays_forE: "(\<And>x. x \<in> set xs \<Longrightarrow> stays R (f x)) \<Longrightarrow> stays R (forE xs f)"
proof (induction xs)
  case Nil
  then show ?case by (simp add: stays_def frame_refl)
next
  case (Cons x xs)
  then have "stays R (seqE (f x) (\<lambda>_. forE xs f))" by (intro stays_seqE) auto
  then show ?case by (simp add: stays_def)
qed

lemma forS_stays: "(\<And>x t. x \<in> set xs \<Longrightarrow> R t (f x t)) \<Longrightarrow> R s (forS xs f s)"
proof (induction xs arbitrary: s)
  case Nil
  then show ?case by (simp add: frame_refl)
next
  case (Cons x xs)
  then have "R s (f x s)" "R (f x s) (forS xs f (f x s))" by auto
  then show ?case using frame_trans by simp
qed

text \<open>The same for bodies that stay within the frame only in the states the loop reaches.\<close>

lemma forS_from:
  "R s t \<Longrightarrow> (\<And>x u. x \<in> set xs \<Longrightarrow> R s u \<Longrightarrow> R u (f x u)) \<Longrightarrow> R s (forS xs f t)"
proof (induction xs arbitrary: t)
  case Nil
  then show ?case by simp
next
  case (Cons x xs)
  then have "R s (f x t)" using frame_trans by (meson list.set_intros(1))
  with Cons show ?case by simp
qed

lemmas stays_combinators =
  stays_seqE stays_returnE stays_failE stays_wrapE stays_ignoreE stays_forE

end

subsection \<open>Lists and maps\<close>

lemma map_of_filter_keys:
  "map_of (filter (\<lambda>(k, _). P k) xs) k = (if P k then map_of xs k else None)"
  by (induction xs) auto

lemma distinct_filter_keys: "distinct (map fst xs) \<Longrightarrow> distinct (map fst (filter P xs))"
  by (induction xs) auto

lemma suffix_take_drop: "suffix (drop n xs) xs"
  by (rule suffix_drop)

lemma sorted_drop: "sorted xs \<Longrightarrow> sorted (drop n xs)"
  by (rule sorted_wrt_drop)

lemma in_set_update: "x \<in> set (AList.update k v xs) \<Longrightarrow> x = (k, v) \<or> x \<in> set xs"
  by (induction xs) (auto split: if_splits)

end
