(* ===== verification/Go_Strings.thy ===== *)
theory Go_Strings
  imports Prelude
begin

text \<open>
  What the program uses of Go's packages \<^verbatim>\<open>strings\<close>, \<^verbatim>\<open>strconv\<close>, \<^verbatim>\<open>path/filepath\<close> and
  \<^verbatim>\<open>net\<close>, on byte strings (a Go string is a sequence of bytes; \<^typ>\<open>char\<close> is a byte).
  The second half proves the facts about substrings, splitting and paths that the
  components share.
\<close>

subsection \<open>strings\<close>

definition hasPrefix :: "string \<Rightarrow> string \<Rightarrow> bool" where
  "hasPrefix s p \<longleftrightarrow> length p \<le> length s \<and> take (length p) s = p"

definition hasSuffix :: "string \<Rightarrow> string \<Rightarrow> bool" where
  "hasSuffix s p \<longleftrightarrow> length p \<le> length s \<and> drop (length s - length p) s = p"

definition trimPrefix :: "string \<Rightarrow> string \<Rightarrow> string" where
  "trimPrefix s p = (if hasPrefix s p then drop (length p) s else s)"

definition trimSuffix :: "string \<Rightarrow> string \<Rightarrow> string" where
  "trimSuffix s p = (if hasSuffix s p then take (length s - length p) s else s)"

fun contains :: "string \<Rightarrow> string \<Rightarrow> bool" where
  "contains [] p = (p = [])"
| "contains (c # s) p = (hasPrefix (c # s) p \<or> contains s p)"

definition containsAny :: "string \<Rightarrow> string \<Rightarrow> bool" where
  "containsAny s cs \<longleftrightarrow> list_ex (\<lambda>c. c \<in> set cs) s"

text \<open>\<open>strings.Split\<close> with a one-byte separator: never empty.\<close>

fun split_on :: "char \<Rightarrow> string \<Rightarrow> string list" where
  "split_on c [] = [[]]"
| "split_on c (x # xs) =
    (if x = c then [] # split_on c xs
     else case split_on c xs of [] \<Rightarrow> [[x]] | w # ws \<Rightarrow> (x # w) # ws)"

fun join :: "string \<Rightarrow> string list \<Rightarrow> string" where
  "join sep [] = []"
| "join sep [w] = w"
| "join sep (w # v # ws) = w @ sep @ join sep (v # ws)"

text \<open>\<open>strings.Cut\<close> at the first occurrence of a byte.\<close>

fun cut_at :: "char \<Rightarrow> string \<Rightarrow> (string \<times> string) option" where
  "cut_at c [] = None"
| "cut_at c (x # xs) =
    (if x = c then Some ([], xs) else map_option (\<lambda>(a, b). (x # a, b)) (cut_at c xs))"

definition lower_char :: "char \<Rightarrow> char" where
  "lower_char c =
    (if 65 \<le> (of_char c :: nat) \<and> (of_char c :: nat) \<le> 90 then char_of ((of_char c :: nat) + 32) else c)"

definition toLower :: "string \<Rightarrow> string" where
  "toLower s = map lower_char s"

definition is_space :: "char \<Rightarrow> bool" where
  "is_space c \<longleftrightarrow> c \<in> set [CHR '' '', CHR 0x09, CHR 0x0A, CHR 0x0B, CHR 0x0C, CHR 0x0D]"

definition trim_right :: "(char \<Rightarrow> bool) \<Rightarrow> string \<Rightarrow> string" where
  "trim_right f s = rev (dropWhile f (rev s))"

definition trimSpace :: "string \<Rightarrow> string" where
  "trimSpace s = trim_right is_space (dropWhile is_space s)"

definition replace_char :: "char \<Rightarrow> char \<Rightarrow> string \<Rightarrow> string" where
  "replace_char a b s = map (\<lambda>c. if c = a then b else c) s"

text \<open>The verb \<open>%q\<close> of \<open>fmt\<close>, for printable strings.\<close>

definition quote :: "string \<Rightarrow> string" where
  "quote s = ''\"'' @ concat (map (\<lambda>c. if c \<in> set [CHR ''\"'', CHR 0x5C] then [CHR 0x5C, c] else [c]) s)
    @ ''\"''"

subsection \<open>strconv\<close>

definition digit_char :: "nat \<Rightarrow> char" where
  "digit_char d = char_of (48 + d)"

definition is_digit :: "char \<Rightarrow> bool" where
  "is_digit c \<longleftrightarrow> 48 \<le> (of_char c :: nat) \<and> (of_char c :: nat) \<le> 57"

definition digit_val :: "char \<Rightarrow> nat" where
  "digit_val c = of_char c - 48"

fun show_nat :: "nat \<Rightarrow> string" where
  "show_nat n = (if n < 10 then [digit_char n] else show_nat (n div 10) @ [digit_char (n mod 10)])"

declare show_nat.simps [simp del]

definition itoa :: "int \<Rightarrow> string" where
  "itoa i = (if i < 0 then ''-'' @ show_nat (nat (- i)) else show_nat (nat i))"

definition read_nat :: "string \<Rightarrow> nat" where
  "read_nat s = foldl (\<lambda>n c. 10 * n + digit_val c) 0 s"

text \<open>\<open>strconv.Atoi\<close>: an optional sign, then digits only, within the range of a 64-bit \<open>int\<close>.\<close>

definition atoi :: "string \<Rightarrow> int option" where
  "atoi s =
    (let (neg, ds) = (case s of [] \<Rightarrow> (False, [])
        | c # cs \<Rightarrow> if c = CHR ''-'' then (True, cs) else if c = CHR ''+'' then (False, cs)
                    else (False, s));
         i = (if neg then - int (read_nat ds) else int (read_nat ds))
     in if ds \<noteq> [] \<and> list_all is_digit ds \<and> - (2 ^ 63) \<le> i \<and> i < 2 ^ 63 then Some i else None)"

subsection \<open>path/filepath (Unix) and net\<close>

definition clean_step :: "bool \<Rightarrow> string list \<Rightarrow> string \<Rightarrow> string list" where
  "clean_step rooted stack elem =
    (if elem = [] \<or> elem = ''.'' then stack
     else if elem = ''..'' then
       (if stack \<noteq> [] \<and> hd stack \<noteq> ''..'' then tl stack
        else if rooted then stack else elem # stack)
     else elem # stack)"

definition is_rooted :: "string \<Rightarrow> bool" where
  "is_rooted p \<longleftrightarrow> hasPrefix p ''/''"

definition clean :: "string \<Rightarrow> string" where
  "clean p =
    (let rooted = is_rooted p;
         body = join ''/'' (rev (foldl (clean_step rooted) [] (split_on (CHR ''/'') p)))
     in if rooted then ''/'' @ body else if body = [] then ''.'' else body)"

definition path_join :: "string list \<Rightarrow> string" where
  "path_join es =
    (case dropWhile (\<lambda>e. e = []) es of [] \<Rightarrow> [] | ds \<Rightarrow> clean (join ''/'' ds))"

definition base :: "string \<Rightarrow> string" where
  "base p =
    (if p = [] then ''.''
     else let q = trim_right (\<lambda>c. c = CHR ''/'') p
          in if q = [] then ''/'' else last (split_on (CHR ''/'') q))"

definition dir_of :: "string \<Rightarrow> string" where
  "dir_of p = clean (concat (map (\<lambda>w. w @ ''/'') (butlast (split_on (CHR ''/'') p))))"

definition joinHostPort :: "string \<Rightarrow> string \<Rightarrow> string" where
  "joinHostPort h p =
    (if contains h '':'' then ''['' @ h @ '']:'' @ p else h @ '':'' @ p)"

subsection \<open>Prefixes, suffixes and substrings\<close>

lemma hasPrefix_iff: "hasPrefix s p \<longleftrightarrow> prefix p s"
  by (metis append_eq_conv_conj append_take_drop_id hasPrefix_def prefix_def prefix_length_le)

lemma hasSuffix_iff: "hasSuffix s p \<longleftrightarrow> suffix p s"
proof
  show "hasSuffix s p \<Longrightarrow> suffix p s"
    unfolding hasSuffix_def by (metis suffix_drop)
  show "suffix p s \<Longrightarrow> hasSuffix s p"
    by (auto simp: hasSuffix_def suffix_def)
qed

lemma hasPrefix_append [simp]: "hasPrefix (p @ s) p"
  by (simp add: hasPrefix_def)

lemma hasSuffix_append [simp]: "hasSuffix (s @ p) p"
  by (simp add: hasSuffix_def)

lemma trimPrefix_append [simp]: "trimPrefix (p @ s) p = s"
  by (simp add: trimPrefix_def)

lemma trimSuffix_append [simp]: "trimSuffix (s @ p) p = s"
  by (simp add: trimSuffix_def)

lemma contains_iff: "contains s p \<longleftrightarrow> (\<exists>a b. s = a @ p @ b)"
proof (induction s)
  case Nil
  then show ?case by auto
next
  case (Cons c s)
  have "(\<exists>a b. c # s = a @ p @ b) \<longleftrightarrow> prefix p (c # s) \<or> (\<exists>a b. s = a @ p @ b)"
    by (metis append_Cons append_eq_Cons_conv prefix_def self_append_conv2)
  then show ?case using Cons.IH by (simp add: hasPrefix_iff)
qed

lemma contains_appendI: "contains (a @ p @ b) p"
  using contains_iff by blast

lemma contains_mono: "contains s p \<Longrightarrow> contains (a @ s @ b) p"
  unfolding contains_iff by (metis append.assoc)

lemma contains_trans: "contains s t \<Longrightarrow> contains t u \<Longrightarrow> contains s u"
  unfolding contains_iff by (metis append.assoc)

subsection \<open>Splitting and joining\<close>

lemma split_on_nonempty [simp]: "split_on c s \<noteq> []"
  by (induction s) (auto split: list.splits)

lemma split_on_no_sep: "c \<notin> set s \<Longrightarrow> split_on c s = [s]"
  by (induction s) auto

lemma split_on_append_sep: "split_on c (a @ c # b) = split_on c a @ split_on c b"
  by (induction a) (auto split: list.splits)

lemma split_on_pieces: "w \<in> set (split_on c s) \<Longrightarrow> c \<notin> set w"
proof (induction s arbitrary: w)
  case Nil
  then show ?case by simp
next
  case (Cons x xs)
  then show ?case by (auto split: list.splits if_splits)
qed

lemma join_Cons: "ws \<noteq> [] \<Longrightarrow> join sep (w # ws) = w @ sep @ join sep ws"
  by (cases ws) auto

lemma join_append:
  "us \<noteq> [] \<Longrightarrow> vs \<noteq> [] \<Longrightarrow> join sep (us @ vs) = join sep us @ sep @ join sep vs"
proof (induction us)
  case Nil
  then show ?case by simp
next
  case (Cons u us)
  then show ?case by (cases "us = []") (simp_all add: join_Cons)
qed

lemma join_Cons_head: "join sep ((x # w) # ws) = x # join sep (w # ws)"
  by (cases ws) auto

lemma join_split [simp]: "join [c] (split_on c s) = s"
  by (induction s) (auto simp: join_Cons join_Cons_head split: list.splits)

lemma split_join: "ws \<noteq> [] \<Longrightarrow> (\<And>w. w \<in> set ws \<Longrightarrow> c \<notin> set w) \<Longrightarrow> split_on c (join [c] ws) = ws"
proof (induction ws)
  case Nil
  then show ?case by simp
next
  case (Cons w ws)
  show ?case
  proof (cases "ws = []")
    case True
    with Cons.prems show ?thesis by (simp add: split_on_no_sep)
  next
    case False
    with Cons have "split_on c (join [c] ws) = ws" by auto
    with False Cons.prems show ?thesis
      by (simp add: join_Cons split_on_append_sep split_on_no_sep)
  qed
qed

lemma cut_at_append: "c \<notin> set a \<Longrightarrow> cut_at c (a @ c # b) = Some (a, b)"
  by (induction a) auto

subsection \<open>Decimal numerals\<close>

lemma of_char_of_nat: "n < 256 \<Longrightarrow> (of_char (char_of n :: char) :: nat) = n"
  by (simp add: of_char_of)

lemma digit_val_char [simp]: "d < 10 \<Longrightarrow> digit_val (digit_char d) = d"
  by (simp add: digit_val_def digit_char_def of_char_of_nat)

lemma is_digit_char [simp]: "d < 10 \<Longrightarrow> is_digit (digit_char d)"
  by (simp add: is_digit_def digit_char_def of_char_of_nat)

lemma read_nat_snoc: "read_nat (s @ [c]) = 10 * read_nat s + digit_val c"
  by (simp add: read_nat_def)

lemma show_nat_nonempty [simp]: "show_nat n \<noteq> []"
  by (subst show_nat.simps) simp

lemma show_nat_digits: "list_all is_digit (show_nat n)"
proof (induction n rule: show_nat.induct)
  case (1 n)
  then show ?case by (cases "n < 10") (auto simp: show_nat.simps [of n])
qed

lemma read_show_nat [simp]: "read_nat (show_nat n) = n"
proof (induction n rule: show_nat.induct)
  case (1 n)
  then show ?case
    by (cases "n < 10") (auto simp: show_nat.simps [of n] read_nat_snoc, simp add: read_nat_def)
qed

lemma show_nat_inject [simp]: "show_nat m = show_nat n \<longleftrightarrow> m = n"
  by (metis read_show_nat)

lemma is_digit_not:
  "is_digit c \<Longrightarrow> c \<noteq> CHR ''-''" "is_digit c \<Longrightarrow> c \<noteq> CHR ''+''" "is_digit c \<Longrightarrow> c \<noteq> CHR ''/''"
  "is_digit c \<Longrightarrow> c \<noteq> CHR '':''" "is_digit c \<Longrightarrow> c \<noteq> CHR '' ''" "is_digit c \<Longrightarrow> c \<noteq> CHR ''.''"
  by (auto simp: is_digit_def)

lemma is_digit_show_nat: "c \<in> set (show_nat n) \<Longrightarrow> is_digit c"
  using show_nat_digits by (auto simp: list_all_iff)

lemma itoa_inject [simp]: "itoa i = itoa j \<longleftrightarrow> i = j"
proof
  assume eq: "itoa i = itoa j"
  have minus: "''-'' @ s \<noteq> show_nat n" for s n
    using is_digit_show_nat [of "CHR ''-''" n] is_digit_not(1) by (metis append_Cons list.set_intros(1))
  from eq minus show "i = j"
    by (auto simp: itoa_def split: if_splits) (metis minus append_Cons append_Nil)+
qed simp

lemma itoa_nonneg: "0 \<le> i \<Longrightarrow> itoa i = show_nat (nat i)"
  by (simp add: itoa_def)

lemma atoi_itoa:
  assumes "- (2 ^ 63) \<le> i" "i < 2 ^ 63"
  shows "atoi (itoa i) = Some i"
proof (cases "i < 0")
  case True
  then show ?thesis using assms by (simp add: atoi_def itoa_def show_nat_digits)
next
  case False
  obtain c cs where s: "show_nat (nat i) = c # cs" by (meson show_nat_nonempty neq_Nil_conv)
  then have "is_digit c" using show_nat_digits [of "nat i"] by simp
  with s have "case_list (False, []) (\<lambda>c cs. if c = CHR ''-'' then (True, cs)
      else if c = CHR ''+'' then (False, cs) else (False, show_nat (nat i))) (show_nat (nat i))
      = (False, show_nat (nat i))"
    using is_digit_not(1,2) by auto
  with False assms show ?thesis
    unfolding atoi_def itoa_def by (simp add: show_nat_digits Let_def)
qed

lemma itoa_nonempty [simp]: "itoa i \<noteq> []"
  by (simp add: itoa_def)

lemma itoa_chars: "c \<in> set (itoa i) \<Longrightarrow> is_digit c \<or> c = CHR ''-''"
  using is_digit_show_nat by (auto simp: itoa_def split: if_splits)

subsection \<open>Clean absolute paths\<close>

text \<open>
  A path the program builds with \<open>filepath.Join\<close> from an absolute directory: a slash, then
  components that are not empty, \<open>.\<close> or \<open>..\<close>. Joining a component to one appends it.
\<close>

definition component :: "string \<Rightarrow> bool" where
  "component n \<longleftrightarrow> n \<noteq> [] \<and> n \<noteq> ''.'' \<and> n \<noteq> ''..'' \<and> CHR ''/'' \<notin> set n"

definition abs_dir :: "string \<Rightarrow> bool" where
  "abs_dir d \<longleftrightarrow>
    (case split_on (CHR ''/'') d of r # cs \<Rightarrow> r = [] \<and> cs \<noteq> [] \<and> list_all component cs | [] \<Rightarrow> False)"

lemma abs_dirE:
  assumes "abs_dir d"
  obtains cs where "split_on (CHR ''/'') d = [] # cs" "cs \<noteq> []" "list_all component cs"
    "d = ''/'' @ join ''/'' cs"
proof -
  from assms obtain cs where cs: "split_on (CHR ''/'') d = [] # cs" "cs \<noteq> []" "list_all component cs"
    by (auto simp: abs_dir_def split: list.splits)
  have "d = join ''/'' (split_on (CHR ''/'') d)" by simp
  also have "\<dots> = ''/'' @ join ''/'' cs" using cs by (simp add: join_Cons)
  finally show thesis using cs that by blast
qed

lemma abs_dir_not_root: "abs_dir d \<Longrightarrow> d \<noteq> ''/''"
  by (auto simp: abs_dir_def component_def)

lemma abs_dir_nonempty: "abs_dir d \<Longrightarrow> d \<noteq> []"
  by (auto simp: abs_dir_def)

lemma abs_dir_rooted: "abs_dir d \<Longrightarrow> is_rooted d"
  by (elim abs_dirE) (simp add: is_rooted_def hasPrefix_def)

lemma abs_dir_append: "abs_dir d \<Longrightarrow> component n \<Longrightarrow> abs_dir (d @ ''/'' @ n)"
  by (erule abs_dirE)
    (simp add: abs_dir_def split_on_append_sep split_on_no_sep component_def)

lemma foldl_clean_components:
  "list_all component cs \<Longrightarrow> foldl (clean_step r) st cs = rev cs @ st"
  by (induction cs arbitrary: st) (auto simp: clean_step_def component_def)

lemma clean_abs_dir: "abs_dir d \<Longrightarrow> clean d = d"
  by (frule abs_dir_rooted, erule abs_dirE)
    (simp add: clean_def clean_step_def foldl_clean_components)

lemma path_join_abs:
  assumes "abs_dir d" "component n"
  shows "path_join [d, n] = d @ ''/'' @ n"
proof -
  have "d \<noteq> []" "n \<noteq> []" using assms abs_dir_nonempty by (auto simp: component_def)
  then show ?thesis
    using clean_abs_dir [OF abs_dir_append [OF assms]] by (simp add: path_join_def)
qed

lemma split_last_component:
  "component n \<Longrightarrow> split_on (CHR ''/'') (d @ ''/'' @ n) = split_on (CHR ''/'') d @ [n]"
  by (simp add: split_on_append_sep split_on_no_sep component_def)

lemma base_append:
  assumes "component n"
  shows "base (d @ ''/'' @ n) = n"
proof -
  from assms obtain m c where n: "n = m @ [c]" "c \<noteq> CHR ''/''"
    by (cases n rule: rev_cases) (auto simp: component_def)
  then have "trim_right (\<lambda>c. c = CHR ''/'') (d @ ''/'' @ n) = d @ ''/'' @ n"
    by (simp add: trim_right_def)
  then show ?thesis using split_last_component [OF assms] by (simp add: base_def)
qed

lemma concat_with_sep:
  "ws \<noteq> [] \<Longrightarrow> concat (map (\<lambda>w. w @ [c]) ws) = join [c] ws @ [c]"
proof (induction ws)
  case Nil
  then show ?case by simp
next
  case (Cons w ws)
  then show ?case by (cases "ws = []") (simp_all add: join_Cons)
qed

lemma dir_of_append:
  assumes "abs_dir d" "component n"
  shows "dir_of (d @ ''/'' @ n) = d"
proof -
  have "dir_of (d @ ''/'' @ n) = clean (d @ ''/'')"
    using split_last_component [OF assms(2), of d]
    by (simp add: dir_of_def concat_with_sep del: append.simps)
  also have "\<dots> = d"
    using assms(1) abs_dir_rooted [OF assms(1)]
    by (elim abs_dirE)
      (simp add: clean_def split_on_append_sep clean_step_def foldl_clean_components is_rooted_def
        hasPrefix_def)
  finally show ?thesis .
qed

text \<open>Where one of two paths lies below the other.\<close>

definition under :: "string \<Rightarrow> string \<Rightarrow> bool" where
  "under d p \<longleftrightarrow> p = d \<or> hasPrefix p (d @ ''/'')"

lemma under_refl [simp]: "under d d"
  by (simp add: under_def)

lemma under_child [simp]: "under d (d @ CHR ''/'' # n)"
  using hasPrefix_append [of "d @ ''/''" n] by (simp add: under_def)

lemma under_iff: "under d p \<longleftrightarrow> p = d \<or> (\<exists>s. p = d @ ''/'' @ s)"
  by (auto simp: under_def hasPrefix_iff prefix_def)

lemma under_trans: "under a b \<Longrightarrow> under b c \<Longrightarrow> under a c"
  unfolding under_iff by (metis append.assoc)

text \<open>Two sibling directories with distinct names share nothing.\<close>

lemma under_siblings:
  assumes "CHR ''/'' \<notin> set m" "CHR ''/'' \<notin> set n" "under (d @ ''/'' @ m) p" "under (d @ ''/'' @ n) p"
  shows "m = n"
proof -
  have cut: "cut_at (CHR ''/'') (w @ ''/'' @ s) = Some (w, s)" if "CHR ''/'' \<notin> set w" for w s
    using that cut_at_append by simp
  have ext: "\<exists>s. p @ ''/'' = d @ ''/'' @ w @ ''/'' @ s" if "under (d @ ''/'' @ w) p" for w
    using that unfolding under_iff by (elim disjE exE) simp_all
  have "\<exists>s. p @ ''/'' = d @ ''/'' @ m @ ''/'' @ s" "\<exists>s. p @ ''/'' = d @ ''/'' @ n @ ''/'' @ s"
    using ext assms(3,4) by blast+
  then obtain s t where "m @ ''/'' @ s = n @ ''/'' @ t" by (metis append_same_eq same_append_eq)
  then have "Some (m, s) = Some (n, t)" using cut assms(1,2) by metis
  then show ?thesis by simp
qed

end
