(* ===== verification/Host.thy ===== *)
theory Host
  imports Go_Strings
begin

text \<open>
  The host as the program sees it through Go's packages \<^verbatim>\<open>os\<close>, \<^verbatim>\<open>os/exec\<close>, \<^verbatim>\<open>syscall\<close> and
  \<^verbatim>\<open>time\<close>, together with the package-level variables of the program.

  \<open>world\<close> is what changes: the file tree (paths to directories and files; a file has an
  inode number, which is what an advisory lock is held on), the locks, the processes, the
  clock in nanoseconds, and counters for fresh names. \<open>host\<close> is what the program cannot
  change: environment variables, which system calls fail (\<open>io_fault\<close>), the random part of
  temporary names, and the behaviour of the third-party servers, one \<open>behaviour\<close> per
  process id. Every definition of the development takes the host as its first argument, so
  a theorem about it holds for every pattern of failures and every behaviour of the servers.
\<close>

subsection \<open>Error numbers\<close>

datatype errno = ENOENT | EEXIST | ENOTDIR | EISDIR | ENOTEMPTY | EINVAL | EACCES | EPERM | ESRCH
  | EWOULDBLOCK | EOTHER string

fun errno_text :: "errno \<Rightarrow> string" where
  "errno_text ENOENT = ''no such file or directory''"
| "errno_text EEXIST = ''file exists''"
| "errno_text ENOTDIR = ''not a directory''"
| "errno_text EISDIR = ''is a directory''"
| "errno_text ENOTEMPTY = ''directory not empty''"
| "errno_text EINVAL = ''invalid argument''"
| "errno_text EACCES = ''permission denied''"
| "errno_text EPERM = ''operation not permitted''"
| "errno_text ESRCH = ''no such process''"
| "errno_text EWOULDBLOCK = ''resource temporarily unavailable''"
| "errno_text (EOTHER s) = s"

text \<open>\<open>fs.PathError\<close> and its text.\<close>

definition path_error :: "string \<Rightarrow> string \<Rightarrow> errno \<Rightarrow> go_error" where
  "path_error op p e = op @ '' '' @ p @ '': '' @ errno_text e"

datatype io_op = OpStat | OpMkdir | OpOpen | OpCreate | OpRead | OpWrite | OpClose | OpChmod
  | OpRename | OpRemove | OpRemoveAll | OpReadDir | OpFlock | OpPipe | OpStart | OpListen | OpInfo

subsection \<open>The world\<close>

datatype node =
    Directory (mtime: int)
  | Regular (inode: nat) (content: string) (exec_bit: bool)

record os_process =
  proc_pid :: int
  proc_group :: int
  argv :: "string list"
  alive :: bool
  exit_at :: "int option"

text \<open>The parent-death pipe of a server: what was written, and whether the write end is open.\<close>

record pipe =
  pipe_data :: string
  pipe_open :: bool

record world =
  files :: "(string \<times> node) list"
  locks :: "nat \<Rightarrow> nat option"
  procs :: "os_process list"
  pipes :: "nat \<Rightarrow> pipe"
  now :: int
  next_ino :: nat
  next_fd :: nat
  next_pid :: int
  next_pipe :: nat
  draws :: nat
  binds :: nat
  written :: "nat \<Rightarrow> string"
  std_log :: "string list"
  portReserved :: "(int \<times> int) list"
  shellAvailable :: "bool option"
  haveProcfs :: "bool option"
  warned :: bool

record behaviour =
  lifetime :: "int option"
  exit_error :: "go_error option"
  output_text :: string
  term_delay :: "int option"
  unkillable :: bool

datatype http_outcome = HttpError go_error | HttpResponse nat string string

record host =
  tmp_dir :: string
  home_dir :: "string option"
  getenv :: "string \<Rightarrow> string"
  goos :: string
  goarch :: string
  self_pid :: int
  procfs_mounted :: bool
  proc_entries :: "string list"
  ps_works :: bool
  io_fault :: "io_op \<Rightarrow> string \<Rightarrow> errno option"
  random_name :: "nat \<Rightarrow> string"
  kernel_port :: "nat \<Rightarrow> int"
  may_signal :: "int \<Rightarrow> bool"
  server :: "int \<Rightarrow> behaviour"
  http_get :: "string \<Rightarrow> int \<Rightarrow> http_outcome"
  lock_wait :: "string \<Rightarrow> world \<Rightarrow> world"

type_synonym 'a io = "(world, 'a) action"

subsection \<open>Looking at the file tree\<close>

definition lookup :: "world \<Rightarrow> string \<Rightarrow> node option" where
  "lookup w p = map_of (files w) p"

definition is_dir :: "world \<Rightarrow> string \<Rightarrow> bool" where
  "is_dir w p \<longleftrightarrow>
    p = ''/'' \<or> (case lookup w p of Some (Directory _) \<Rightarrow> True | _ \<Rightarrow> False)"

definition exists_at :: "world \<Rightarrow> string \<Rightarrow> bool" where
  "exists_at w p \<longleftrightarrow> lookup w p \<noteq> None"

text \<open>The directory a path is an entry of, as the kernel resolves it.\<close>

definition parent :: "string \<Rightarrow> string" where
  "parent p =
    (let ws = butlast (split_on (CHR ''/'') p)
     in if ws = [] then ''.'' else if ws = [[]] then ''/'' else join ''/'' ws)"

definition leaf :: "string \<Rightarrow> string" where
  "leaf p = last (split_on (CHR ''/'') p)"

definition stat :: "host \<Rightarrow> string \<Rightarrow> world \<Rightarrow> errno + node" where
  "stat h p w =
    (case io_fault h OpStat p of Some e \<Rightarrow> Inl e
     | None \<Rightarrow> (case lookup w p of None \<Rightarrow> Inl ENOENT | Some n \<Rightarrow> Inr n))"

text \<open>A file that exists, is no directory and has an execute bit.\<close>

definition executable_file :: "host \<Rightarrow> string \<Rightarrow> world \<Rightarrow> bool" where
  "executable_file h p w \<longleftrightarrow> (case stat h p w of Inr (Regular _ _ x) \<Rightarrow> x | _ \<Rightarrow> False)"

text \<open>\<open>os.ReadDir\<close>: the entries of a directory in the order of their names.\<close>

definition child_names :: "world \<Rightarrow> string \<Rightarrow> string list" where
  "child_names w d =
    map leaf (filter (\<lambda>p. hasPrefix p (d @ ''/'') \<and> CHR ''/'' \<notin> set (drop (Suc (length d)) p))
      (map fst (files w)))"

definition readDir :: "host \<Rightarrow> string \<Rightarrow> world \<Rightarrow> errno + string list" where
  "readDir h d w =
    (case io_fault h OpReadDir d of Some e \<Rightarrow> Inl e
     | None \<Rightarrow> if is_dir w d then Inr (sort (remdups (child_names w d)))
               else if exists_at w d then Inl ENOTDIR else Inl ENOENT)"

definition readFile :: "host \<Rightarrow> string \<Rightarrow> world \<Rightarrow> errno + string" where
  "readFile h p w =
    (case io_fault h OpRead p of Some e \<Rightarrow> Inl e
     | None \<Rightarrow> (case lookup w p of None \<Rightarrow> Inl ENOENT | Some (Directory _) \<Rightarrow> Inl EISDIR
               | Some (Regular _ s _) \<Rightarrow> Inr s))"

subsection \<open>Changing the file tree\<close>

text \<open>Adding or removing an entry sets the modification time of its directory.\<close>

definition touch :: "string \<Rightarrow> world \<Rightarrow> world" where
  "touch d w =
    (case lookup w d of Some (Directory _) \<Rightarrow> w\<lparr>files := AList.update d (Directory (now w)) (files w)\<rparr>
     | _ \<Rightarrow> w)"

definition put_node :: "string \<Rightarrow> node \<Rightarrow> world \<Rightarrow> world" where
  "put_node p n w = w\<lparr>files := AList.update p n (files w)\<rparr>"

definition add_entry :: "string \<Rightarrow> node \<Rightarrow> world \<Rightarrow> world" where
  "add_entry p n w = touch (parent p) (put_node p n w)"

definition drop_entries :: "(string \<Rightarrow> bool) \<Rightarrow> world \<Rightarrow> world" where
  "drop_entries P w = w\<lparr>files := filter (\<lambda>(p, _). \<not> P p) (files w)\<rparr>"

definition dir_chain :: "string \<Rightarrow> string list" where
  "dir_chain p =
    (let cs = split_on (CHR ''/'') p
     in filter (\<lambda>a. a \<noteq> []) (map (\<lambda>k. join ''/'' (take k cs)) [1..<Suc (length cs)]))"

definition mkdir_one :: "string \<Rightarrow> unit io" where
  "mkdir_one d w =
    (if is_dir w d then (Inr (), w)
     else if exists_at w d then (Inl (path_error ''mkdir'' d ENOTDIR), w)
     else (Inr (), add_entry d (Directory (now w)) w))"

definition mkdirAll :: "host \<Rightarrow> string \<Rightarrow> unit io" where
  "mkdirAll h p w =
    (if is_dir w (clean p) then (Inr (), w)
     else case io_fault h OpMkdir p of
       Some e \<Rightarrow> (Inl (path_error ''mkdir'' p e), w)
     | None \<Rightarrow> forE (dir_chain (clean p)) mkdir_one w)"

definition new_file :: "string \<Rightarrow> string \<Rightarrow> bool \<Rightarrow> world \<Rightarrow> world" where
  "new_file p s x w = (add_entry p (Regular (next_ino w) s x) w)\<lparr>next_ino := Suc (next_ino w)\<rparr>"

text \<open>\<open>open(p, O_CREAT|O_EXCL)\<close>.\<close>

definition create_excl :: "host \<Rightarrow> string \<Rightarrow> world \<Rightarrow> (errno + unit) \<times> world" where
  "create_excl h p w =
    (case io_fault h OpCreate p of Some e \<Rightarrow> (Inl e, w)
     | None \<Rightarrow>
       if exists_at w p then (Inl EEXIST, w)
       else if \<not> is_dir w (parent p) then (Inl ENOENT, w)
       else (Inr (), new_file p [] False w))"

text \<open>
  \<open>os.CreateTemp(dir, pre*suf)\<close>: names with a random part are tried until one is free,
  10000 times at most.
\<close>

fun create_temp :: "host \<Rightarrow> string \<Rightarrow> string \<Rightarrow> string \<Rightarrow> nat \<Rightarrow> string io" where
  "create_temp h dir pre suf tries w =
    (let p = dir @ ''/'' @ pre @ random_name h (draws w) @ suf;
         w1 = w\<lparr>draws := Suc (draws w)\<rparr>
     in case create_excl h p w1 of
       (Inr _, w2) \<Rightarrow> (Inr p, w2)
     | (Inl e, w2) \<Rightarrow>
         if e = EEXIST \<and> 1 < tries then create_temp h dir pre suf (tries - 1) w2
         else (Inl (path_error ''open'' p e), w2))"

declare create_temp.simps [simp del]

definition createTemp :: "host \<Rightarrow> string \<Rightarrow> string \<Rightarrow> string \<Rightarrow> string io" where
  "createTemp h dir pre suf = create_temp h dir pre suf 10000"

text \<open>For evaluation, the first try apart, so that the limit is not written out in unary.\<close>

lemma createTemp_code [code]:
  "createTemp h dir pre suf w =
    (let p = dir @ ''/'' @ pre @ random_name h (draws w) @ suf
     in case create_excl h p (w\<lparr>draws := Suc (draws w)\<rparr>) of
       (Inr _, w2) \<Rightarrow> (Inr p, w2)
     | (Inl e, w2) \<Rightarrow>
         if e = EEXIST then create_temp h dir pre suf 9999 w2 else (Inl (path_error ''open'' p e), w2))"
  by (simp add: createTemp_def create_temp.simps [of h dir pre suf 10000 w] Let_def split: prod.split sum.split)

text \<open>\<open>os.Create\<close>: an existing file is truncated and keeps its inode.\<close>

definition createFile :: "host \<Rightarrow> string \<Rightarrow> unit io" where
  "createFile h p w =
    (case io_fault h OpCreate p of Some e \<Rightarrow> (Inl (path_error ''open'' p e), w)
     | None \<Rightarrow>
       (case lookup w p of
         Some (Directory _) \<Rightarrow> (Inl (path_error ''open'' p EISDIR), w)
       | Some (Regular i _ x) \<Rightarrow> (Inr (), put_node p (Regular i [] x) w)
       | None \<Rightarrow>
           if \<not> is_dir w (parent p) then (Inl (path_error ''open'' p ENOENT), w)
           else (Inr (), new_file p [] False w)))"

definition append_text :: "string \<Rightarrow> string \<Rightarrow> world \<Rightarrow> world" where
  "append_text p s w =
    (case lookup w p of Some (Regular i t x) \<Rightarrow> put_node p (Regular i (t @ s) x) w | _ \<Rightarrow> w)"

definition writeFd :: "host \<Rightarrow> string \<Rightarrow> string \<Rightarrow> unit io" where
  "writeFd h p s w =
    (case io_fault h OpWrite p of Some e \<Rightarrow> (Inl (path_error ''write'' p e), w)
     | None \<Rightarrow> (Inr (), append_text p s w))"

definition closeFd :: "host \<Rightarrow> string \<Rightarrow> unit io" where
  "closeFd h p w =
    (case io_fault h OpClose p of Some e \<Rightarrow> (Inl (path_error ''close'' p e), w)
     | None \<Rightarrow> (Inr (), w))"

definition chmodExec :: "host \<Rightarrow> string \<Rightarrow> unit io" where
  "chmodExec h p w =
    (case io_fault h OpChmod p of Some e \<Rightarrow> (Inl (path_error ''chmod'' p e), w)
     | None \<Rightarrow>
       (case lookup w p of Some (Regular i s _) \<Rightarrow> (Inr (), put_node p (Regular i s True) w)
        | _ \<Rightarrow> (Inl (path_error ''chmod'' p ENOENT), w)))"

text \<open>\<open>os.Rename\<close> of a file: atomic, and the file keeps its inode.\<close>

definition rename :: "host \<Rightarrow> string \<Rightarrow> string \<Rightarrow> unit io" where
  "rename h src dst w =
    (let err = (\<lambda>e. (Inl (''rename '' @ src @ '' '' @ dst @ '': '' @ errno_text e), w))
     in case io_fault h OpRename dst of Some e \<Rightarrow> err e
     | None \<Rightarrow>
       (case lookup w src of
         Some (Regular i s x) \<Rightarrow>
           if is_dir w dst then err EEXIST
           else if \<not> is_dir w (parent dst) then err ENOENT
           else (Inr (), touch (parent src)
                  (drop_entries (\<lambda>p. p = src \<and> src \<noteq> dst) (add_entry dst (Regular i s x) w)))
       | _ \<Rightarrow> err ENOENT))"

definition has_children :: "world \<Rightarrow> string \<Rightarrow> bool" where
  "has_children w d \<longleftrightarrow> list_ex (\<lambda>p. hasPrefix p (d @ ''/'')) (map fst (files w))"

definition remove :: "host \<Rightarrow> string \<Rightarrow> unit io" where
  "remove h p w =
    (case io_fault h OpRemove p of Some e \<Rightarrow> (Inl (path_error ''remove'' p e), w)
     | None \<Rightarrow>
       (case lookup w p of
         None \<Rightarrow> (Inl (path_error ''remove'' p ENOENT), w)
       | Some (Directory _) \<Rightarrow>
           if has_children w p then (Inl (path_error ''remove'' p ENOTEMPTY), w)
           else (Inr (), touch (parent p) (drop_entries (\<lambda>q. q = p) w))
       | Some (Regular _ _ _) \<Rightarrow> (Inr (), touch (parent p) (drop_entries (\<lambda>q. q = p) w))))"

text \<open>\<open>os.RemoveAll\<close>: a path that does not exist is no error, and neither is an empty one.\<close>

definition removeAll :: "host \<Rightarrow> string \<Rightarrow> unit io" where
  "removeAll h p w =
    (if p = [] then (Inr (), w)
     else if leaf p = ''.'' then (Inl (path_error ''RemoveAll'' p EINVAL), w)
     else case io_fault h OpRemoveAll p of
       Some e \<Rightarrow> (Inl (path_error ''unlinkat'' p e), w)
     | None \<Rightarrow> (Inr (), if exists_at w p then touch (parent p) (drop_entries (under p) w) else w))"

subsection \<open>An example host\<close>

text \<open>
  A Linux machine on which nothing fails, with \<open>/tmp\<close>, a shell and a home directory, no processes but
  the program itself (process 100), and servers that run until they are asked to stop. The
  worked examples of the development start here.
\<close>

definition example_behaviour :: behaviour where
  "example_behaviour = \<lparr>lifetime = None, exit_error = None, output_text = [], term_delay = Some 0,
     unkillable = False\<rparr>"

definition example_host :: host where
  "example_host = \<lparr>tmp_dir = ''/tmp'', home_dir = Some ''/home/u'', getenv = (\<lambda>_. []), goos = ''linux'',
     goarch = ''amd64'', self_pid = 100, procfs_mounted = True, proc_entries = [], ps_works = True,
     io_fault = (\<lambda>_ _. None), random_name = show_nat, kernel_port = (\<lambda>k. 40000 + int k),
     may_signal = (\<lambda>_. True), server = (\<lambda>_. example_behaviour),
     http_get = (\<lambda>_ _. HttpError ''connection refused''), lock_wait = (\<lambda>_ w. w)\<rparr>"

definition example_world :: world where
  "example_world = \<lparr>files = [(''/tmp'', Directory 0), (''/home'', Directory 0), (''/home/u'', Directory 0),
       (''/bin'', Directory 0), (''/bin/sh'', Regular 0 [] True)],
     locks = Map.empty, procs = [\<lparr>proc_pid = 100, proc_group = 100, argv = [''test''], alive = True,
       exit_at = None\<rparr>],
     pipes = (\<lambda>_. \<lparr>pipe_data = [], pipe_open = False\<rparr>), now = 0, next_ino = 1, next_fd = 3,
     next_pid = 101, next_pipe = 0, draws = 0, binds = 0, written = (\<lambda>_. []), std_log = [],
     portReserved = [], shellAvailable = None, haveProcfs = None, warned = False\<rparr>"

end
