(* ===== verification/Kernel.thy ===== *)
theory Kernel
  imports Host
begin

text \<open>
  Processes, signals and time: the calls \<open>kill\<close>, \<open>fork\<close>/\<open>exec\<close>, and waiting. A process has an
  id, a process group, its argument vector and, once it is known, the time at which it
  exits. The second half states how the file operations and the process operations frame
  each other, with one interpretation of \<open>frame\<close> per frame.
\<close>

datatype signal = SIGTERM | SIGKILL

definition find_proc :: "world \<Rightarrow> int \<Rightarrow> os_process option" where
  "find_proc w p = find (\<lambda>q. proc_pid q = p) (procs w)"

definition is_alive :: "world \<Rightarrow> int \<Rightarrow> bool" where
  "is_alive w p \<longleftrightarrow> list_ex (\<lambda>q. proc_pid q = p \<and> alive q) (procs w)"

definition sooner :: "int option \<Rightarrow> int \<Rightarrow> int option" where
  "sooner e t = (case e of None \<Rightarrow> Some t | Some s \<Rightarrow> Some (min s t))"

text \<open>
  What a signal does to one process: \<open>SIGKILL\<close> ends it unless it is stuck in the kernel;
  \<open>SIGTERM\<close> makes it exit after a delay that depends on the program, or never.
\<close>

definition deliver :: "host \<Rightarrow> signal \<Rightarrow> int \<Rightarrow> os_process \<Rightarrow> os_process" where
  "deliver h sig t q =
    (case sig of
      SIGKILL \<Rightarrow> if unkillable (server h (proc_pid q)) then q else q\<lparr>alive := False\<rparr>
    | SIGTERM \<Rightarrow>
        (case term_delay (server h (proc_pid q)) of
          None \<Rightarrow> q
        | Some d \<Rightarrow> q\<lparr>exit_at := sooner (exit_at q) (t + max 0 d)\<rparr>))"

text \<open>
  The processes \<open>kill(target, _)\<close> addresses: one process, the caller's group (0), a group
  (below -1), or every process but the first and the caller (-1).
\<close>

definition addressed :: "host \<Rightarrow> int \<Rightarrow> os_process \<Rightarrow> bool" where
  "addressed h target q \<longleftrightarrow>
    alive q \<and>
    (if 0 < target then proc_pid q = target
     else if target = 0 then proc_pid q = self_pid h \<or> proc_group q = self_pid h
     else if target = - 1 then proc_pid q \<noteq> 1 \<and> proc_pid q \<noteq> self_pid h
     else proc_group q = - target)"

definition kill :: "host \<Rightarrow> int \<Rightarrow> signal \<Rightarrow> world \<Rightarrow> (errno + unit) \<times> world" where
  "kill h target sig w =
    (if \<not> list_ex (addressed h target) (procs w) then (Inl ESRCH, w)
     else if \<not> list_ex (\<lambda>q. addressed h target q \<and> may_signal h (proc_pid q)) (procs w) then (Inl EPERM, w)
     else (Inr (), w\<lparr>procs := map (\<lambda>q. if addressed h target q \<and> may_signal h (proc_pid q)
                                        then deliver h sig (now w) q else q) (procs w)\<rparr>))"

text \<open>The clock moves to \<open>t\<close>; processes whose time has come exit.\<close>

definition expire :: "int \<Rightarrow> os_process \<Rightarrow> os_process" where
  "expire t q = (case exit_at q of Some e \<Rightarrow> if e \<le> t then q\<lparr>alive := False\<rparr> else q | None \<Rightarrow> q)"

definition advance :: "int \<Rightarrow> world \<Rightarrow> world" where
  "advance t w = w\<lparr>now := max (now w) t, procs := map (expire (max (now w) t)) (procs w)\<rparr>"

text \<open>A new process in group \<open>g\<close> (its own group when \<open>g\<close> is 0); the result is its id.\<close>

definition spawn :: "host \<Rightarrow> string list \<Rightarrow> int \<Rightarrow> world \<Rightarrow> int \<times> world" where
  "spawn h args g w =
    (let p = next_pid w;
         q = \<lparr>proc_pid = p, proc_group = (if g = 0 then p else g), argv = args, alive = True,
              exit_at = map_option (\<lambda>d. now w + max 0 d) (lifetime (server h p))\<rparr>
     in (p, w\<lparr>procs := procs w @ [q], next_pid := p + 1\<rparr>))"

subsection \<open>The file tree after each operation\<close>

lemma lookup_put_node: "lookup (put_node p n w) q = (if q = p then Some n else lookup w q)"
  by (simp add: lookup_def put_node_def update_conv')

lemma lookup_touch:
  "lookup (touch d w) q =
    (case lookup w q of
       Some (Directory t) \<Rightarrow> Some (Directory (if q = d then now w else t)) | x \<Rightarrow> x)"
  by (auto simp: touch_def lookup_def update_conv' split: option.splits node.splits)

lemma lookup_drop_entries: "lookup (drop_entries P w) q = (if P q then None else lookup w q)"
  using map_of_filter_keys [of "\<lambda>q. \<not> P q" "files w" q] by (simp add: lookup_def drop_entries_def)

lemma lookup_touch_other: "q \<noteq> d \<Longrightarrow> lookup (touch d w) q = lookup w q"
  by (auto simp: lookup_touch split: option.splits node.splits)

lemma lookup_touch_None [simp]: "lookup (touch d w) q = None \<longleftrightarrow> lookup w q = None"
  by (auto simp: lookup_touch split: option.splits node.splits)

lemma lookup_touch_Regular [simp]:
  "lookup (touch d w) q = Some (Regular i s x) \<longleftrightarrow> lookup w q = Some (Regular i s x)"
  by (auto simp: lookup_touch split: option.splits node.splits)

lemma is_dir_touch [simp]: "is_dir (touch d w) q \<longleftrightarrow> is_dir w q"
  by (auto simp: is_dir_def lookup_touch split: option.splits node.splits)

lemma exists_at_touch [simp]: "exists_at (touch d w) q \<longleftrightarrow> exists_at w q"
  by (simp add: exists_at_def)

lemma exists_at_drop [simp]: "exists_at (drop_entries P w) q \<longleftrightarrow> \<not> P q \<and> exists_at w q"
  by (simp add: exists_at_def lookup_drop_entries)

subsection \<open>Frames\<close>

text \<open>Everything but the file tree and the counters of fresh names.\<close>

definition rest_of :: "world \<Rightarrow> world" where
  "rest_of w = w\<lparr>files := [], next_ino := 0, draws := 0\<rparr>"

definition same_rest :: "world \<Rightarrow> world \<Rightarrow> bool" where
  "same_rest w w' \<longleftrightarrow> rest_of w = rest_of w'"

definition same_files :: "(string \<Rightarrow> bool) \<Rightarrow> world \<Rightarrow> world \<Rightarrow> bool" where
  "same_files S w w' \<longleftrightarrow> (\<forall>p. S p \<longrightarrow> lookup w' p = lookup w p)"

interpretation rest: frame same_rest
  by unfold_locales (auto simp: same_rest_def)

interpretation tree: frame "same_files S" for S
  by unfold_locales (auto simp: same_files_def)

lemma rest_of_select [simp]:
  "procs (rest_of w) = procs w" "locks (rest_of w) = locks w" "pipes (rest_of w) = pipes w"
  "now (rest_of w) = now w" "next_fd (rest_of w) = next_fd w" "next_pid (rest_of w) = next_pid w"
  "portReserved (rest_of w) = portReserved w" "haveProcfs (rest_of w) = haveProcfs w"
  "shellAvailable (rest_of w) = shellAvailable w"
  by (simp_all add: rest_of_def)

lemma same_restD:
  assumes "same_rest w w'"
  shows "procs w' = procs w" "locks w' = locks w" "pipes w' = pipes w" "now w' = now w"
    "next_fd w' = next_fd w" "next_pid w' = next_pid w" "portReserved w' = portReserved w"
    "haveProcfs w' = haveProcfs w" "shellAvailable w' = shellAvailable w"
  using assms unfolding same_rest_def by (metis rest_of_select)+

lemma same_filesD: "same_files S w w' \<Longrightarrow> S p \<Longrightarrow> lookup w' p = lookup w p"
  by (simp add: same_files_def)

lemma rest_of_update [simp]:
  "rest_of (touch d w) = rest_of w"
  "rest_of (put_node p n w) = rest_of w"
  "rest_of (add_entry p n w) = rest_of w"
  "rest_of (drop_entries P w) = rest_of w"
  "rest_of (new_file p s x w) = rest_of w"
  "rest_of (append_text p s w) = rest_of w"
  by (auto simp: rest_of_def touch_def put_node_def add_entry_def drop_entries_def new_file_def
      append_text_def split: option.splits node.splits)

lemma same_rest_ops [stays_intros]:
  "stays same_rest (mkdir_one d)" "stays same_rest (createFile h p)" "stays same_rest (writeFd h p s)"
  "stays same_rest (closeFd h p)" "stays same_rest (chmodExec h p)" "stays same_rest (rename h p q)"
  "stays same_rest (remove h p)" "stays same_rest (removeAll h p)"
  by (auto simp: stays_def same_rest_def mkdir_one_def createFile_def writeFd_def closeFd_def
      chmodExec_def rename_def remove_def removeAll_def Let_def split: option.splits node.splits)

lemma same_rest_mkdirAll [stays_intros]: "stays same_rest (mkdirAll h p)"
proof (rule staysI)
  fix w
  have "stays same_rest (forE (dir_chain (clean p)) mkdir_one)"
    by (intro rest.stays_forE same_rest_ops)
  then show "same_rest w (snd (mkdirAll h p w))"
    by (auto simp: mkdirAll_def rest.frame_refl split: option.splits dest: staysD)
qed

text \<open>
  What \<open>create_temp\<close> does: it fails and has changed nothing but the supply of random names, or
  it has made a new empty file, with a name that was free, in a directory that exists.
\<close>

lemma create_temp_cases:
  "(\<exists>e k. create_temp h dir pre suf n w = (Inl e, w\<lparr>draws := k\<rparr>)) \<or>
   (\<exists>r k. let p = dir @ ''/'' @ pre @ r @ suf in
      create_temp h dir pre suf n w = (Inr p, new_file p [] False (w\<lparr>draws := k\<rparr>)) \<and>
      \<not> exists_at w p \<and> is_dir w (parent p))"
proof (induction h dir pre suf n w rule: create_temp.induct)
  case (1 h dir pre suf n w)
  define p where "p = dir @ ''/'' @ pre @ random_name h (draws w) @ suf"
  define w1 where "w1 = w\<lparr>draws := Suc (draws w)\<rparr>"
  have simps: "create_temp h dir pre suf n w = (case create_excl h p w1 of
      (Inr _, w2) \<Rightarrow> (Inr p, w2)
    | (Inl e, w2) \<Rightarrow> if e = EEXIST \<and> 1 < n then create_temp h dir pre suf (n - 1) w2
                     else (Inl (path_error ''open'' p e), w2))"
    unfolding p_def w1_def by (subst create_temp.simps) (simp only: Let_def)
  have view: "exists_at w1 q = exists_at w q" "is_dir w1 q = is_dir w q" for q
    by (simp_all add: w1_def exists_at_def is_dir_def lookup_def)
  consider (new) "create_excl h p w1 = (Inr (), new_file p [] False w1)" "\<not> exists_at w p"
      "is_dir w (parent p)"
    | (old) e where "create_excl h p w1 = (Inl e, w1)"
    unfolding create_excl_def view
    by (cases "io_fault h OpCreate p"; cases "exists_at w p"; cases "is_dir w (parent p)") auto
  then show ?case
  proof cases
    case new
    have "create_temp h dir pre suf n w = (Inr p, new_file p [] False w1)"
      by (simp add: simps new(1))
    with new(2,3) show ?thesis unfolding p_def w1_def Let_def by blast
  next
    case (old e)
    show ?thesis
    proof (cases "e = EEXIST \<and> 1 < n")
      case True
      with old have "create_temp h dir pre suf n w = create_temp h dir pre suf (n - 1) w1"
        by (simp add: simps)
      moreover have "w1\<lparr>draws := k\<rparr> = w\<lparr>draws := k\<rparr>" for k by (simp add: w1_def)
      ultimately show ?thesis
        using "1" [OF p_def w1_def old [symmetric]] old True view by (simp only: Let_def)
    next
      case False
      with old have "create_temp h dir pre suf n w = (Inl (path_error ''open'' p e), w1)"
        by (simp only: simps old prod.case sum.case False if_False)
      then show ?thesis unfolding w1_def by blast
    qed
  qed
qed

lemma createTemp_Inr:
  assumes "createTemp h dir pre suf w = (Inr p, w')"
  obtains r k where "p = dir @ ''/'' @ pre @ r @ suf" "w' = new_file p [] False (w\<lparr>draws := k\<rparr>)"
    "\<not> exists_at w p" "is_dir w (parent p)"
  using create_temp_cases [of h dir pre suf 10000 w] assms that
  by (auto simp: createTemp_def Let_def)

lemma createTemp_Inl:
  assumes "createTemp h dir pre suf w = (Inl e, w')"
  obtains k where "w' = w\<lparr>draws := k\<rparr>"
  using create_temp_cases [of h dir pre suf 10000 w] assms that
  by (auto simp: createTemp_def Let_def)

lemma rest_of_draws [simp]: "rest_of (w\<lparr>draws := k\<rparr>) = rest_of w"
  by (simp add: rest_of_def)

lemma same_rest_createTemp [stays_intros]: "stays same_rest (createTemp h dir pre suf)"
proof (rule staysI)
  fix w
  show "same_rest w (snd (createTemp h dir pre suf w))"
  proof (cases "createTemp h dir pre suf w")
    case (Pair r w')
    then show ?thesis
      by (cases r) (auto simp: same_rest_def elim: createTemp_Inr createTemp_Inl)
  qed
qed

subsection \<open>Which entries an operation can change\<close>

lemma same_files_touch: "\<not> S d \<Longrightarrow> same_files S w (touch d w)"
  unfolding same_files_def by (metis lookup_touch_other)

lemma same_files_put: "\<not> S p \<Longrightarrow> same_files S w (put_node p n w)"
  by (auto simp: same_files_def lookup_put_node)

lemma same_files_add: "\<not> S p \<Longrightarrow> \<not> S (parent p) \<Longrightarrow> same_files S w (add_entry p n w)"
  unfolding add_entry_def by (rule tree.frame_trans [OF same_files_put same_files_touch])

lemma same_files_drop: "(\<And>p. P p \<Longrightarrow> \<not> S p) \<Longrightarrow> same_files S w (drop_entries P w)"
  by (auto simp: same_files_def lookup_drop_entries)

lemma lookup_update [simp]:
  "lookup (w\<lparr>draws := k\<rparr>) p = lookup w p" "lookup (w\<lparr>next_ino := i\<rparr>) p = lookup w p"
  "lookup (w\<lparr>locks := ls\<rparr>) p = lookup w p" "lookup (w\<lparr>procs := ps\<rparr>) p = lookup w p"
  "lookup (w\<lparr>now := t\<rparr>) p = lookup w p" "lookup (w\<lparr>next_fd := f\<rparr>) p = lookup w p"
  "lookup (w\<lparr>next_pid := d\<rparr>) p = lookup w p" "lookup (w\<lparr>pipes := pp\<rparr>) p = lookup w p"
  "lookup (w\<lparr>portReserved := rv\<rparr>) p = lookup w p" "lookup (w\<lparr>haveProcfs := b\<rparr>) p = lookup w p"
  "lookup (w\<lparr>shellAvailable := b\<rparr>) p = lookup w p"
  by (simp_all add: lookup_def)

lemma same_files_new:
  "\<not> S p \<Longrightarrow> \<not> S (parent p) \<Longrightarrow> same_files S w (new_file p s x (w\<lparr>draws := k\<rparr>))"
  using same_files_add [of S p "w\<lparr>draws := k\<rparr>"] by (simp add: new_file_def same_files_def)

lemma same_files_removeAll:
  "(\<And>q. under p q \<Longrightarrow> \<not> S q) \<Longrightarrow> \<not> S (parent p) \<Longrightarrow> stays (same_files S) (removeAll h p)"
  by (auto simp: stays_def removeAll_def tree.frame_refl split: option.splits
      intro!: tree.frame_trans [OF same_files_drop same_files_touch])

lemma same_files_remove:
  "\<not> S p \<Longrightarrow> \<not> S (parent p) \<Longrightarrow> stays (same_files S) (remove h p)"
  by (auto simp: stays_def remove_def tree.frame_refl split: option.splits node.splits
      intro!: tree.frame_trans [OF same_files_drop same_files_touch])

lemma same_files_createFile:
  "\<not> S p \<Longrightarrow> \<not> S (parent p) \<Longrightarrow> stays (same_files S) (createFile h p)"
  using same_files_new [of S p _ "[]" False] same_files_put [of S p]
  by (auto simp: stays_def createFile_def tree.frame_refl split: option.splits node.splits)
    (metis world.surjective world.update_convs(10))

lemma same_files_writeFd: "\<not> S p \<Longrightarrow> stays (same_files S) (writeFd h p s)"
  by (auto simp: stays_def writeFd_def append_text_def tree.frame_refl same_files_put
      split: option.splits node.splits)

lemma same_files_closeFd: "stays (same_files S) (closeFd h p)"
  by (auto simp: stays_def closeFd_def tree.frame_refl split: option.splits)

lemma same_files_rename:
  assumes "\<not> S p" "\<not> S (parent p)" "\<not> S q" "\<not> S (parent q)"
  shows "stays (same_files S) (rename h p q)"
proof (rule staysI)
  fix w
  have "same_files S w (touch (parent p) (drop_entries (\<lambda>r. r = p \<and> p \<noteq> q) (add_entry q n w)))" for n
    using assms by (intro tree.frame_trans [OF same_files_add tree.frame_trans
          [OF same_files_drop same_files_touch]]) auto
  then show "same_files S w (snd (rename h p q w))"
    by (auto simp: rename_def Let_def tree.frame_refl split: option.splits node.splits)
qed

lemma same_files_mkdir_one:
  "\<not> S d \<Longrightarrow> \<not> S (parent d) \<Longrightarrow> stays (same_files S) (mkdir_one d)"
  by (auto simp: stays_def mkdir_one_def tree.frame_refl same_files_add)

end
