(* ===== verification/Lock.thy ===== *)
theory Lock
  imports Kernel
begin

text \<open>
  \<^verbatim>\<open>lock.go\<close>: advisory locks on open file descriptors. A lock is held on an inode, not on a
  path: a file that is unlinked and created again is a different lock. \<open>fileLock\<close> holds the
  descriptor and the inode it refers to; \<open>None\<close> is the \<open>nil\<close> a release leaves.

  A blocking acquisition returns once the lock is granted. What the rest of the machine does
  while the caller waits is \<open>lock_wait\<close> of the host, a change of the world.

  The locale \<open>liveness_lock\<close> is what the registry relies on: probing a lock never changes
  what is locked or the file tree unless it succeeds, and succeeds only on a lock that nobody
  holds. It is interpreted on \<open>tryLock\<close> at the end.
\<close>

record fileLock =
  lock_file :: "(nat \<times> nat) option"

definition open_rdwr :: "host \<Rightarrow> string \<Rightarrow> bool \<Rightarrow> world \<Rightarrow> (errno + nat \<times> nat) \<times> world" where
  "open_rdwr h path create w =
    (case io_fault h OpOpen path of Some e \<Rightarrow> (Inl e, w)
     | None \<Rightarrow>
       (case lookup w path of
         Some (Directory _) \<Rightarrow> (Inl EISDIR, w)
       | Some (Regular i _ _) \<Rightarrow> (Inr (next_fd w, i), w\<lparr>next_fd := Suc (next_fd w)\<rparr>)
       | None \<Rightarrow>
           if \<not> create then (Inl ENOENT, w)
           else if \<not> is_dir w (parent path) then (Inl ENOENT, w)
           else (Inr (next_fd w, next_ino w),
                 (new_file path [] False w)\<lparr>next_fd := Suc (next_fd w)\<rparr>)))"

definition flock_ex :: "host \<Rightarrow> string \<Rightarrow> bool \<Rightarrow> nat \<Rightarrow> nat \<Rightarrow> world \<Rightarrow> (errno + unit) \<times> world" where
  "flock_ex h path block fd ino w =
    (case io_fault h OpFlock path of Some e \<Rightarrow> (Inl e, w)
     | None \<Rightarrow>
       if locks w ino = None then (Inr (), w\<lparr>locks := (locks w)(ino \<mapsto> fd)\<rparr>)
       else if \<not> block then (Inl EWOULDBLOCK, w)
       else (let w1 = lock_wait h path w in (Inr (), w1\<lparr>locks := (locks w1)(ino \<mapsto> fd)\<rparr>)))"

definition acquireFileLock :: "host \<Rightarrow> string \<Rightarrow> bool \<Rightarrow> bool \<Rightarrow> (fileLock option) io" where
  "acquireFileLock h path block create w =
    (case open_rdwr h path create w of
      (Inl e, w1) \<Rightarrow>
        if \<not> create \<and> e = ENOENT then (Inr None, w1)
        else (Inl (''embedded-tikv: unable to open lock file '' @ path @ '': '' @ path_error ''open'' path e), w1)
    | (Inr (fd, ino), w1) \<Rightarrow>
        (case flock_ex h path block fd ino w1 of
          (Inl e, w2) \<Rightarrow>
            if \<not> block then (Inr None, w2)
            else (Inl (''embedded-tikv: unable to lock '' @ path @ '': '' @ errno_text e), w2)
        | (Inr _, w2) \<Rightarrow> (Inr (Some \<lparr>lock_file = Some (fd, ino)\<rparr>), w2)))"

text \<open>\<open>LOCK_UN\<close> on a descriptor frees the lock if this descriptor holds it.\<close>

definition release :: "fileLock option \<Rightarrow> world \<Rightarrow> fileLock option \<times> world" where
  "release l w =
    (case l of None \<Rightarrow> (l, w)
     | Some fl \<Rightarrow>
       (case lock_file fl of None \<Rightarrow> (l, w)
        | Some (fd, ino) \<Rightarrow>
            (Some (fl\<lparr>lock_file := None\<rparr>),
             if locks w ino = Some fd then w\<lparr>locks := (locks w)(ino := None)\<rparr> else w)))"

definition withFileLock :: "host \<Rightarrow> string \<Rightarrow> 'a io \<Rightarrow> 'a io" where
  "withFileLock h path fn =
    seqE (acquireFileLock h path True True)
      (\<lambda>lock w. case fn w of (r, w') \<Rightarrow> (r, snd (release lock w')))"

text \<open>
  \<open>if err != nil || lock == nil\<close>: every sweep treats a failed probe and a lock that is held
  alike, so what matters of a probe is whether it returned a lock.
\<close>

definition tryLock :: "host \<Rightarrow> string \<Rightarrow> world \<Rightarrow> fileLock option \<times> world" where
  "tryLock h path w =
    (case acquireFileLock h path False False w of
      (Inl e, w') \<Rightarrow> (None, w') | (Inr l, w') \<Rightarrow> (l, w'))"

subsection \<open>What a lock file says\<close>

definition lock_held :: "world \<Rightarrow> string \<Rightarrow> bool" where
  "lock_held w path \<longleftrightarrow>
    (case lookup w path of Some (Regular i _ _) \<Rightarrow> locks w i \<noteq> None | _ \<Rightarrow> False)"

definition holds_lock :: "world \<Rightarrow> string \<Rightarrow> fileLock \<Rightarrow> bool" where
  "holds_lock w path l \<longleftrightarrow>
    (case lock_file l of None \<Rightarrow> False
     | Some (fd, i) \<Rightarrow>
       (case lookup w path of Some (Regular j _ _) \<Rightarrow> i = j \<and> locks w i = Some fd | _ \<Rightarrow> False))"

lemma holds_lock_held: "holds_lock w path l \<Longrightarrow> lock_held w path"
  by (cases "lock_file l"; cases "lookup w path"; cases "the (lookup w path)")
    (auto simp: holds_lock_def lock_held_def)

text \<open>Descriptors and inodes are allocated upwards, so a fresh inode is nobody's lock.\<close>

definition fresh_ok :: "world \<Rightarrow> bool" where
  "fresh_ok w \<longleftrightarrow>
    (\<forall>i. next_ino w \<le> i \<longrightarrow> locks w i = None) \<and>
    (\<forall>p i s x. lookup w p = Some (Regular i s x) \<longrightarrow> i < next_ino w)"

text \<open>The locks that are held stay held by the same descriptors.\<close>

definition same_locks :: "world \<Rightarrow> world \<Rightarrow> bool" where
  "same_locks w w' \<longleftrightarrow> locks w' = locks w"

interpretation locks: frame same_locks
  by unfold_locales (auto simp: same_locks_def)

lemma tryLock_None:
  assumes "tryLock h path w = (None, w')"
  obtains k where "w' = w\<lparr>next_fd := k\<rparr>"
proof -
  have "\<exists>k. w' = w\<lparr>next_fd := k\<rparr>"
    using assms
    by (auto simp: tryLock_def acquireFileLock_def open_rdwr_def flock_ex_def
        split: option.splits node.splits if_splits)
      (metis (mono_tags) world.surjective world.update_convs(7))+
  then show thesis using that by blast
qed

lemma tryLock_Some:
  assumes "tryLock h path w = (Some l, w')"
  obtains i s x where "lookup w path = Some (Regular i s x)" "locks w i = None"
    "l = \<lparr>lock_file = Some (next_fd w, i)\<rparr>"
    "w' = w\<lparr>next_fd := Suc (next_fd w), locks := (locks w)(i \<mapsto> next_fd w)\<rparr>"
  using assms
  by (auto simp: tryLock_def acquireFileLock_def open_rdwr_def flock_ex_def
      split: option.splits node.splits if_splits)

lemma tryLock_held: "lock_held w path \<Longrightarrow> fst (tryLock h path w) = None"
  by (cases "tryLock h path w"; cases "fst (tryLock h path w)")
    (auto simp: lock_held_def elim!: tryLock_Some)

lemma tryLock_same_files: "same_files S w (snd (tryLock h path w))"
proof (cases "tryLock h path w")
  case (Pair r w')
  then show ?thesis
    by (cases r) (auto simp: same_files_def elim!: tryLock_None tryLock_Some)
qed

text \<open>A probe that succeeds, followed by a release, leaves the locks as they were.\<close>

lemma tryLock_release:
  assumes "tryLock h path w = (Some l, w1)" "locks w2 = locks w1"
  shows "locks (snd (release (Some l) w2)) = locks w"
  using assms(1)
proof (rule tryLock_Some)
  fix i s x
  assume "locks w i = None" "l = \<lparr>lock_file = Some (next_fd w, i)\<rparr>"
    "w1 = w\<lparr>next_fd := Suc (next_fd w), locks := (locks w)(i \<mapsto> next_fd w)\<rparr>"
  then show ?thesis using assms(2) by (auto simp: release_def)
qed

lemma release_lookup [simp]: "lookup (snd (release l w)) p = lookup w p"
  by (auto simp: release_def split: option.splits)

lemma release_procs [simp]: "procs (snd (release l w)) = procs w"
  by (auto simp: release_def split: option.splits)

subsection \<open>The interface\<close>

text \<open>A body that runs only when a probe returned a lock, as in all three sweeps.\<close>

definition guarded ::
  "('s \<Rightarrow> 'l option \<times> 's) \<Rightarrow> ('l \<Rightarrow> 's \<Rightarrow> bool \<times> 's) \<Rightarrow> 's \<Rightarrow> bool \<times> 's" where
  "guarded probe body s =
    (case probe s of (None, s') \<Rightarrow> (False, s') | (Some l, s') \<Rightarrow> body l s')"

locale liveness_lock =
  fixes probe :: "string \<Rightarrow> 's \<Rightarrow> 'l option \<times> 's"
    and free :: "'l \<Rightarrow> 's \<Rightarrow> 's"
    and held :: "'s \<Rightarrow> string \<Rightarrow> bool"
    and calm :: "'s \<Rightarrow> 's \<Rightarrow> bool"
  assumes probe_held: "held s p \<Longrightarrow> fst (probe p s) = None"
    and probe_fails: "probe p s = (None, t) \<Longrightarrow> calm s t \<and> held t = held s"
    and probe_succeeds: "probe p s = (Some l, t) \<Longrightarrow>
      calm s t \<and> held t p \<and> (\<forall>q. held s q \<longrightarrow> held t q) \<and> \<not> held s p"
    and free_calm: "calm s (free l s)"
    and probe_free: "probe p s = (Some l, t) \<Longrightarrow> held (free l t) = held s"
begin

text \<open>A held lock stops the body: nothing runs, and nothing but descriptors changes.\<close>

lemma guarded_held:
  assumes "held s p"
  shows "\<not> fst (guarded (probe p) body s)" "calm s (snd (guarded (probe p) body s))"
    "held (snd (guarded (probe p) body s)) = held s"
proof -
  obtain t where "probe p s = (None, t)" using probe_held [OF assms] by (cases "probe p s") auto
  with probe_fails [OF this] show "\<not> fst (guarded (probe p) body s)"
    "calm s (snd (guarded (probe p) body s))" "held (snd (guarded (probe p) body s)) = held s"
    by (simp_all add: guarded_def)
qed

lemma guarded_true:
  assumes "fst (guarded (probe p) body s)"
  shows "\<not> held s p"
  using assms guarded_held(1) by blast

text \<open>A frame that holds of the body holds of the guarded body, if it allows for descriptors.\<close>

lemma guarded_frame:
  assumes "frame R" "\<And>s t. calm s t \<Longrightarrow> R s t"
    "\<And>l t. probe p s = (Some l, t) \<Longrightarrow> R t (snd (body l t))"
  shows "R s (snd (guarded (probe p) body s))"
proof (cases "probe p s")
  case (Pair r t)
  then have "R s t" using probe_fails probe_succeeds assms(2) by (cases r) blast+
  then show ?thesis
    using Pair assms(3) frame.frame_trans [OF assms(1)] by (cases r) (auto simp: guarded_def)
qed

end

text \<open>Nothing but the lock table and the descriptor counter changes.\<close>

definition only_locks :: "world \<Rightarrow> world \<Rightarrow> bool" where
  "only_locks w w' \<longleftrightarrow>
    w\<lparr>locks := Map.empty, next_fd := 0\<rparr> = w'\<lparr>locks := Map.empty, next_fd := 0\<rparr>"

interpretation only_locks: frame only_locks
  by unfold_locales (auto simp: only_locks_def)

definition unlock :: "fileLock \<Rightarrow> world \<Rightarrow> world" where
  "unlock l w = snd (release (Some l) w)"

lemma lock_held_lookup:
  "lookup w' p = lookup w p \<Longrightarrow> locks w' = locks w \<Longrightarrow> lock_held w' p = lock_held w p"
  by (simp add: lock_held_def split: option.split node.split)

lemma lock_held_next_fd [simp]: "lock_held (w\<lparr>next_fd := k\<rparr>) = lock_held w"
  by (rule ext, rule lock_held_lookup) simp_all

interpretation registry_lock: liveness_lock "tryLock h" unlock lock_held only_locks for h
proof
  fix s t :: world and p l
  show "lock_held s p \<Longrightarrow> fst (tryLock h p s) = None" by (rule tryLock_held)
  show "tryLock h p s = (None, t) \<Longrightarrow> only_locks s t \<and> lock_held t = lock_held s"
    by (elim tryLock_None) (simp add: only_locks_def)
  show "tryLock h p s = (Some l, t) \<Longrightarrow>
      only_locks s t \<and> lock_held t p \<and> (\<forall>q. lock_held s q \<longrightarrow> lock_held t q) \<and> \<not> lock_held s p"
    by (elim tryLock_Some) (auto simp: only_locks_def lock_held_def split: option.splits node.splits)
  show "only_locks s (unlock l s)"
    by (auto simp: only_locks_def unlock_def release_def split: option.splits)
  show "lock_held (unlock l t) = lock_held s" if "tryLock h p s = (Some l, t)"
  proof (rule ext, rule lock_held_lookup)
    show "lookup (unlock l t) q = lookup s q" for q
      using tryLock_same_files [of "\<lambda>_. True" s h p] that by (simp add: unlock_def same_files_def)
    show "locks (unlock l t) = locks s"
      using tryLock_release [OF that refl] by (simp add: unlock_def)
  qed
qed

end
