(* ===== verification/Proc_Info.thy ===== *)
theory Proc_Info
  imports Kernel
begin

text \<open>
  \<^verbatim>\<open>signal.go\<close>, \<^verbatim>\<open>proc_attr.go\<close> and \<^verbatim>\<open>procinfo.go\<close>: signalling a server's process group, and
  reading the command lines of the processes of the machine, from \<open>/proc\<close> where it is mounted
  and from \<open>ps\<close> elsewhere.
\<close>

subsection \<open>Signals\<close>

definition signalGroup :: "host \<Rightarrow> int \<Rightarrow> signal \<Rightarrow> world \<Rightarrow> (errno + unit) \<times> world" where
  "signalGroup h pid sig w =
    (case kill h (- pid) sig w of
      (Inr _, w') \<Rightarrow> (Inr (), w')
    | (Inl _, w') \<Rightarrow> kill h pid sig w')"

text \<open>\<open>sysProcAttr\<close>: \<open>Setpgid\<close>, so a server starts in a group of its own (group 0 of \<open>spawn\<close>).\<close>

definition sysProcAttr :: int where
  "sysProcAttr = 0"

subsection \<open>Command lines\<close>

definition haveProcfsCached :: "host \<Rightarrow> world \<Rightarrow> bool \<times> world" where
  "haveProcfsCached h w =
    (case haveProcfs w of
      Some b \<Rightarrow> (b, w)
    | None \<Rightarrow> (procfs_mounted h, w\<lparr>haveProcfs := Some (procfs_mounted h)\<rparr>))"

text \<open>The contents of \<open>/proc/<pid>/cmdline\<close>: every argument followed by a NUL byte.\<close>

definition raw_cmdline :: "os_process \<Rightarrow> string" where
  "raw_cmdline q = concat (map (\<lambda>a. a @ [CHR 0x00]) (argv q))"

definition live_proc :: "world \<Rightarrow> int \<Rightarrow> os_process option" where
  "live_proc w pid = find (\<lambda>q. proc_pid q = pid \<and> alive q) (procs w)"

text \<open>The arguments as \<open>ps\<close> prints them: on one line, with control characters shown as \<open>?\<close>.\<close>

definition ps_args :: "os_process \<Rightarrow> string" where
  "ps_args q = map (\<lambda>c. if (of_char c :: nat) < 32 \<or> of_char c = (127 :: nat) then CHR ''?'' else c)
     (join '' '' (argv q))"

definition processCommandLine :: "host \<Rightarrow> int \<Rightarrow> world \<Rightarrow> string option \<times> world" where
  "processCommandLine h pid w =
    (case haveProcfsCached h w of (procfs, w1) \<Rightarrow>
      if procfs then
        (case live_proc w1 pid of
          None \<Rightarrow> (None, w1)
        | Some q \<Rightarrow>
            if io_fault h OpRead (''/proc/'' @ itoa pid @ ''/cmdline'') \<noteq> None then (None, w1)
            else (Some (replace_char (CHR 0x00) (CHR '' '')
                    (trim_right (\<lambda>c. c = CHR 0x00) (raw_cmdline q))), w1))
      else
        (case live_proc w1 pid of
          None \<Rightarrow> (None, w1)
        | Some q \<Rightarrow>
            if \<not> ps_works h then (None, w1)
            else let line = trimSpace (ps_args q @ [CHR 0x0A])
                 in (if line = [] then None else Some line, w1)))"

record processEntry =
  pe_pid :: int
  pe_cmdline :: string

text \<open>The directory \<open>/proc\<close> lists the live processes by number, and other names.\<close>

definition proc_dir :: "host \<Rightarrow> world \<Rightarrow> string list" where
  "proc_dir h w = sort (proc_entries h @ map (\<lambda>q. itoa (proc_pid q)) (filter alive (procs w)))"

fun entries_of :: "host \<Rightarrow> string list \<Rightarrow> world \<Rightarrow> processEntry list \<times> world" where
  "entries_of h [] w = ([], w)"
| "entries_of h (name # names) w =
    (case atoi name of
      None \<Rightarrow> entries_of h names w
    | Some pid \<Rightarrow>
        (case processCommandLine h pid w of
          (None, w1) \<Rightarrow> entries_of h names w1
        | (Some cmdline, w1) \<Rightarrow>
            (case entries_of h names w1 of
              (es, w2) \<Rightarrow> (\<lparr>pe_pid = pid, pe_cmdline = cmdline\<rparr> # es, w2))))"

definition enumerateViaProcfs :: "host \<Rightarrow> world \<Rightarrow> processEntry list \<times> world" where
  "enumerateViaProcfs h w =
    (if io_fault h OpReadDir ''/proc'' \<noteq> None then ([], w) else entries_of h (proc_dir h w) w)"

text \<open>What \<open>ps -A -o pid=,args=\<close> prints: a line per process, the id padded on the left.\<close>

definition ps_output :: "world \<Rightarrow> string" where
  "ps_output w =
    concat (map (\<lambda>q. ''  '' @ itoa (proc_pid q) @ '' '' @ ps_args q @ [CHR 0x0A])
      (filter alive (procs w)))"

fun ps_entries :: "string list \<Rightarrow> processEntry list" where
  "ps_entries [] = []"
| "ps_entries (line # ls) =
    (case cut_at (CHR '' '') (trimSpace line) of
      None \<Rightarrow> ps_entries ls
    | Some (pidText, cmdline) \<Rightarrow>
        (case atoi pidText of
          None \<Rightarrow> ps_entries ls
        | Some pid \<Rightarrow> \<lparr>pe_pid = pid, pe_cmdline = trimSpace cmdline\<rparr> # ps_entries ls))"

definition enumerateViaPS :: "host \<Rightarrow> world \<Rightarrow> processEntry list \<times> world" where
  "enumerateViaPS h w =
    (if \<not> ps_works h then ([], w) else (ps_entries (split_on (CHR 0x0A) (ps_output w)), w))"

definition enumerateProcesses :: "host \<Rightarrow> world \<Rightarrow> processEntry list \<times> world" where
  "enumerateProcesses h w =
    (case haveProcfsCached h w of (procfs, w1) \<Rightarrow>
      if procfs then enumerateViaProcfs h w1 else enumerateViaPS h w1)"

subsection \<open>What the two sources show of a process\<close>

definition procfs_seen :: "host \<Rightarrow> world \<Rightarrow> bool" where
  "procfs_seen h w = (case haveProcfs w of Some b \<Rightarrow> b | None \<Rightarrow> procfs_mounted h)"

definition shown :: "bool \<Rightarrow> os_process \<Rightarrow> string" where
  "shown procfs q =
    (if procfs then replace_char (CHR 0x00) (CHR '' '') (trim_right (\<lambda>c. c = CHR 0x00) (raw_cmdline q))
     else trimSpace (ps_args q))"

text \<open>Looking at processes changes nothing but the cached answer of \<open>haveProcfsCached\<close>.\<close>

definition looked :: "host \<Rightarrow> world \<Rightarrow> world \<Rightarrow> bool" where
  "looked h w w' \<longleftrightarrow> w' = w \<or> w' = w\<lparr>haveProcfs := Some (procfs_seen h w)\<rparr>"

lemma haveProcfsCached_eq:
  "haveProcfsCached h w = (procfs_seen h w, w\<lparr>haveProcfs := Some (procfs_seen h w)\<rparr>)"
  by (cases "haveProcfs w") (auto simp: haveProcfsCached_def procfs_seen_def)

lemma procfs_seen_cached [simp]: "procfs_seen h (w\<lparr>haveProcfs := Some b\<rparr>) = b"
  by (simp add: procfs_seen_def)

lemma live_proc_update [simp]: "live_proc (w\<lparr>haveProcfs := b\<rparr>) p = live_proc w p"
  by (simp add: live_proc_def)

lemma live_proc_Some:
  "live_proc w p = Some q \<Longrightarrow> q \<in> set (procs w) \<and> alive q \<and> proc_pid q = p"
  by (auto simp: live_proc_def find_Some_iff)

lemma is_space_newline [simp]: "is_space (CHR 0x0A)" "is_space (CHR '' '')"
  by (simp_all add: is_space_def)

lemma trimSpace_snoc: "is_space c \<Longrightarrow> trimSpace (s @ [c]) = trimSpace s"
proof (induction s)
  case Nil
  then show ?case by (simp add: trimSpace_def trim_right_def)
next
  case (Cons x s)
  then show ?case by (cases "is_space x") (simp_all add: trimSpace_def trim_right_def)
qed

lemma processCommandLine_Some:
  assumes "processCommandLine h p w = (Some c, w')"
  obtains q where "q \<in> set (procs w)" "alive q" "proc_pid q = p" "c = shown (procfs_seen h w) q"
  using assms live_proc_Some [of w p]
  by (auto simp: processCommandLine_def haveProcfsCached_eq shown_def Let_def trimSpace_snoc
      split: if_splits option.splits)

lemma processCommandLine_looked: "processCommandLine h p w = (r, w') \<Longrightarrow> looked h w w'"
  by (auto simp: processCommandLine_def haveProcfsCached_eq looked_def Let_def
      split: if_splits option.splits)

lemma looked_refl [simp]: "looked h w w"
  by (simp add: looked_def)

lemma looked_trans: "looked h w w' \<Longrightarrow> looked h w' w'' \<Longrightarrow> looked h w w''"
  by (auto simp: looked_def)

lemma lookedD:
  assumes "looked h w w'"
  shows "procs w' = procs w" "files w' = files w" "locks w' = locks w" "now w' = now w"
    "procfs_seen h w' = procfs_seen h w" "lookup w' p = lookup w p"
  using assms by (auto simp: looked_def lookup_def)

definition shows_process :: "bool \<Rightarrow> world \<Rightarrow> processEntry \<Rightarrow> bool" where
  "shows_process b w e \<longleftrightarrow>
    (\<exists>q \<in> set (procs w). alive q \<and> proc_pid q = pe_pid e \<and> pe_cmdline e = shown b q)"

lemma shows_process_update [simp]:
  "shows_process b (w\<lparr>haveProcfs := x\<rparr>) e \<longleftrightarrow> shows_process b w e"
  by (simp add: shows_process_def)

lemma ps_output_update [simp]: "ps_output (w\<lparr>haveProcfs := x\<rparr>) = ps_output w"
  by (simp add: ps_output_def)

lemma entries_of_sound:
  "entries_of h names w = (es, w') \<Longrightarrow>
    looked h w w' \<and> (\<forall>e \<in> set es. shows_process (procfs_seen h w) w e)"
proof (induction names arbitrary: w es w')
  case Nil
  then show ?case by simp
next
  case (Cons name names)
  show ?case
  proof (cases "atoi name")
    case None
    with Cons show ?thesis by simp
  next
    case (Some p)
    obtain r w1 where c: "processCommandLine h p w = (r, w1)" by (cases "processCommandLine h p w")
    obtain es1 w2 where e: "entries_of h names w1 = (es1, w2)" by (cases "entries_of h names w1")
    note l = processCommandLine_looked [OF c]
    have IH: "looked h w1 w2" "\<forall>e \<in> set es1. shows_process (procfs_seen h w) w e"
      using Cons.IH [OF e] lookedD [OF l] by (auto simp: shows_process_def)
    show ?thesis
    proof (cases r)
      case None
      with Cons.prems Some c e IH l looked_trans [OF l] show ?thesis by auto
    next
      case (Some cl)
      then obtain q where "q \<in> set (procs w)" "alive q" "proc_pid q = p" "cl = shown (procfs_seen h w) q"
        using processCommandLine_Some c by blast
      then have "shows_process (procfs_seen h w) w \<lparr>pe_pid = p, pe_cmdline = cl\<rparr>"
        by (auto simp: shows_process_def)
      with Cons.prems Some \<open>atoi name = Some p\<close> c e IH l looked_trans [OF l] show ?thesis by auto
    qed
  qed
qed

subsection \<open>Parsing the output of ps\<close>

lemma trim_right_append:
  "trim_right P (s @ t) = (if trim_right P t = [] then trim_right P s else s @ trim_right P t)"
proof -
  have "dropWhile P (rev t @ rev s) =
      (if dropWhile P (rev t) = [] then dropWhile P (rev s) else dropWhile P (rev t) @ rev s)"
  proof (cases "\<forall>x \<in> set (rev t). P x")
    case True
    then have "dropWhile P (rev t) = []" by (simp add: dropWhile_eq_Nil_conv)
    with True show ?thesis using dropWhile_append2 [of "rev t" P "rev s"] by auto
  next
    case False
    then obtain x where "x \<in> set (rev t)" "\<not> P x" by auto
    then show ?thesis using dropWhile_append1 [of x "rev t" P "rev s"]
      by (auto simp: dropWhile_eq_Nil_conv)
  qed
  then show ?thesis by (simp add: trim_right_def)
qed

lemma trim_right_idem: "trim_right P (trim_right P s) = trim_right P s"
  by (simp add: trim_right_def)

lemma trim_right_dropWhile: "trim_right P (dropWhile P s) = dropWhile P (trim_right P s)"
proof (induction s)
  case Nil
  then show ?case by (simp add: trim_right_def)
next
  case (Cons c s)
  have c: "trim_right P (c # s) = (if trim_right P s = [] then trim_right P [c] else c # trim_right P s)"
    using trim_right_append [of P "[c]" s] by simp
  show ?case
  proof (cases "P c")
    case True
    then have "trim_right P [c] = []" by (simp add: trim_right_def)
    with True Cons c show ?thesis by auto
  next
    case False
    then have "trim_right P [c] = [c]" by (simp add: trim_right_def)
    with False c show ?thesis by auto
  qed
qed

lemma trimSpace_trim_right: "trimSpace (trim_right is_space s) = trimSpace s"
  by (simp add: trimSpace_def trim_right_dropWhile trim_right_idem)

lemma is_digit_not_space: "is_digit c \<Longrightarrow> \<not> is_space c"
  by (auto simp: is_digit_def is_space_def)

lemma itoa_not_space: "c \<in> set (itoa i) \<Longrightarrow> \<not> is_space c"
  using itoa_chars is_digit_not_space by (fastforce simp: is_space_def)

lemma dropWhile_itoa: "dropWhile is_space (itoa i @ s) = itoa i @ s"
  using itoa_not_space [of "hd (itoa i)" i] by (cases "itoa i") auto

lemma trim_right_itoa: "trim_right is_space (itoa i) = itoa i"
  using itoa_not_space [of "last (itoa i)" i]
  by (cases "itoa i" rule: rev_cases) (auto simp: trim_right_def)

lemma trimSpace_ps_line:
  "trimSpace (''  '' @ itoa p @ '' '' @ a) =
    (if trim_right is_space a = [] then itoa p else itoa p @ '' '' @ trim_right is_space a)"
proof -
  have sp: "trim_right is_space '' '' = []" by (simp add: trim_right_def)
  have "trim_right is_space ('' '' @ a) =
      (if trim_right is_space a = [] then [] else '' '' @ trim_right is_space a)"
    by (simp only: trim_right_append sp)
  then show ?thesis
    by (simp add: trimSpace_def dropWhile_itoa trim_right_append trim_right_itoa)
qed

lemma cut_at_None: "c \<notin> set s \<Longrightarrow> cut_at c s = None"
  by (induction s) auto

lemma atoi_itoa_Some: "atoi (itoa p) = Some i \<Longrightarrow> i = p"
proof -
  assume a: "atoi (itoa p) = Some i"
  show "i = p"
  proof (cases "- (2 ^ 63) \<le> p \<and> p < 2 ^ 63")
    case True
    with atoi_itoa [of p] a show ?thesis by simp
  next
    case out: False
    show ?thesis
    proof (cases "p < 0")
      case True
      with a out show ?thesis by (auto simp: atoi_def itoa_def show_nat_digits split: if_splits)
    next
      case False
      obtain c cs where s: "show_nat (nat p) = c # cs" by (meson show_nat_nonempty neq_Nil_conv)
      then have "is_digit c" using show_nat_digits [of "nat p"] by simp
      then have "c \<noteq> CHR ''-''" "c \<noteq> CHR ''+''" using is_digit_not by auto
      moreover have "int (read_nat (c # cs)) = p" using read_show_nat [of "nat p"] s False by simp
      ultimately show ?thesis using a out s False by (auto simp: atoi_def itoa_def split: if_splits)
    qed
  qed
qed

lemma ps_entry_sound:
  assumes "ps_entries [''  '' @ itoa (proc_pid q) @ '' '' @ ps_args q] = es" "e \<in> set es"
  shows "pe_pid e = proc_pid q \<and> pe_cmdline e = shown False q"
proof -
  have nospace: "CHR '' '' \<notin> set (itoa (proc_pid q))"
    using itoa_not_space [of "CHR '' ''" "proc_pid q"] by (auto simp: is_space_def)
  show ?thesis
  proof (cases "trim_right is_space (ps_args q) = []")
    case True
    then have "trimSpace (''  '' @ itoa (proc_pid q) @ '' '' @ ps_args q) = itoa (proc_pid q)"
      using trimSpace_ps_line [of "proc_pid q" "ps_args q"] by presburger
    with assms cut_at_None [OF nospace] show ?thesis by simp
  next
    case False
    then have t: "trimSpace (''  '' @ itoa (proc_pid q) @ '' '' @ ps_args q) =
        itoa (proc_pid q) @ '' '' @ trim_right is_space (ps_args q)"
      using trimSpace_ps_line [of "proc_pid q" "ps_args q"] by presburger
    have "cut_at (CHR '' '') (itoa (proc_pid q) @ '' '' @ trim_right is_space (ps_args q)) =
        Some (itoa (proc_pid q), trim_right is_space (ps_args q))"
      using cut_at_append [OF nospace] by simp
    with assms t show ?thesis
      by (auto simp: trimSpace_trim_right shown_def dest: atoi_itoa_Some split: option.splits)
  qed
qed

lemma ps_entries_append: "ps_entries (xs @ ys) = ps_entries xs @ ps_entries ys"
  by (induction xs) (auto split: option.splits)

lemma ps_entries_map:
  "e \<in> set (ps_entries (map f qs)) \<Longrightarrow> \<exists>q \<in> set qs. e \<in> set (ps_entries [f q])"
proof (induction qs)
  case (Cons q qs)
  have "ps_entries (map f (q # qs)) = ps_entries [f q] @ ps_entries (map f qs)"
    using ps_entries_append [of "[f q]" "map f qs"] by (simp only: list.map append.simps)
  with Cons.prems have "e \<in> set (ps_entries [f q]) \<or> e \<in> set (ps_entries (map f qs))"
    by (simp only: set_append Un_iff)
  then show ?case using Cons.IH by (meson list.set_intros)
qed simp

lemma split_on_lines:
  "(\<And>l. l \<in> set ls \<Longrightarrow> c \<notin> set l) \<Longrightarrow> split_on c (concat (map (\<lambda>l. l @ [c]) ls)) = ls @ [[]]"
  by (induction ls) (simp_all add: split_on_append_sep split_on_no_sep)

lemma ps_line_no_newline: "CHR 0x0A \<notin> set (''  '' @ itoa (proc_pid q) @ '' '' @ ps_args q)"
proof -
  have "CHR 0x0A \<notin> set (itoa (proc_pid q))" using itoa_not_space [of "CHR 0x0A"] by auto
  then show ?thesis by (auto simp: ps_args_def split: if_splits)
qed

lemma ps_entries_sound:
  assumes "e \<in> set (ps_entries (split_on (CHR 0x0A) (ps_output w)))"
  shows "shows_process False w e"
proof -
  let ?line = "\<lambda>q. ''  '' @ itoa (proc_pid q) @ '' '' @ ps_args q"
  let ?ls = "map ?line (filter alive (procs w))"
  have "ps_output w = concat (map (\<lambda>l. l @ [CHR 0x0A]) ?ls)" by (simp add: ps_output_def comp_def)
  then have "split_on (CHR 0x0A) (ps_output w) = ?ls @ [[]]"
    using split_on_lines [of ?ls "CHR 0x0A"] ps_line_no_newline by force
  moreover have "ps_entries [[]] = []" by (simp add: trimSpace_def trim_right_def)
  ultimately have e: "e \<in> set (ps_entries ?ls)" using assms by (simp add: ps_entries_append)
  from ps_entries_map [OF e] obtain q where "q \<in> set (procs w)" "alive q" "e \<in> set (ps_entries [?line q])"
    by auto
  with ps_entry_sound [OF refl this(3)] show ?thesis by (auto simp: shows_process_def)
qed
text \<open>Both sources list only processes that are alive, each with its own command line.\<close>

lemma enumerateProcesses_sound:
  assumes "enumerateProcesses h w = (es, w')"
  shows "looked h w w'" "e \<in> set es \<Longrightarrow> shows_process (procfs_seen h w) w e"
proof -
  let ?w1 = "w\<lparr>haveProcfs := Some (procfs_seen h w)\<rparr>"
  have l1: "looked h w ?w1" by (simp add: looked_def)
  have "looked h w w' \<and> (\<forall>e \<in> set es. shows_process (procfs_seen h w) w e)"
  proof (cases "procfs_seen h w")
    case True
    then show ?thesis
      using assms entries_of_sound [of h "proc_dir h ?w1" ?w1 es w'] looked_trans [OF l1] l1
      by (auto simp: enumerateProcesses_def haveProcfsCached_eq enumerateViaProcfs_def split: if_splits)
  next
    case False
    then show ?thesis
      using assms l1 ps_entries_sound
      by (auto simp: enumerateProcesses_def haveProcfsCached_eq enumerateViaPS_def split: if_splits)
  qed
  then show "looked h w w'" "e \<in> set es \<Longrightarrow> shows_process (procfs_seen h w) w e" by auto
qed

subsection \<open>What a kill can reach\<close>

text \<open>Processes only die; those whose id satisfies \<open>S\<close> are untouched.\<close>

definition fewer_alive :: "world \<Rightarrow> world \<Rightarrow> bool" where
  "fewer_alive w w' \<longleftrightarrow>
    list_all2 (\<lambda>q q'. q' = q \<or> q' = q\<lparr>alive := False\<rparr>) (procs w) (procs w')"

definition same_procs :: "(int \<Rightarrow> bool) \<Rightarrow> world \<Rightarrow> world \<Rightarrow> bool" where
  "same_procs S w w' \<longleftrightarrow>
    filter (\<lambda>q. S (proc_pid q)) (procs w') = filter (\<lambda>q. S (proc_pid q)) (procs w)"

lemma fewer_alive_origin:
  assumes "fewer_alive w w'" "q' \<in> set (procs w')"
  obtains q where "q \<in> set (procs w)" "q' = q \<or> q' = q\<lparr>alive := False\<rparr>"
proof -
  from assms(2) obtain n where n: "n < length (procs w')" "q' = procs w' ! n"
    by (auto simp: in_set_conv_nth)
  from assms(1) n(1) have "procs w' ! n = procs w ! n \<or> procs w' ! n = (procs w ! n)\<lparr>alive := False\<rparr>"
    "n < length (procs w)"
    unfolding fewer_alive_def by (auto simp: list_all2_conv_all_nth)
  with n(2) that [of "procs w ! n"] show thesis by simp
qed

interpretation deaths: frame fewer_alive
proof
  fix s t u
  show "fewer_alive s s" by (auto simp: fewer_alive_def list_all2_same)
  assume "fewer_alive s t" "fewer_alive t u"
  then show "fewer_alive s u"
    unfolding fewer_alive_def by (rule list_all2_trans [rotated]) auto
qed

interpretation spared: frame "same_procs S" for S
  by unfold_locales (auto simp: same_procs_def)

lemma deliver_SIGKILL:
  "deliver h SIGKILL t q = q \<or> deliver h SIGKILL t q = q\<lparr>alive := False\<rparr>"
  by (simp add: deliver_def)

lemma proc_pid_deliver [simp]: "proc_pid (deliver h sig t q) = proc_pid q"
  by (auto simp: deliver_def split: signal.split option.split)

lemma kill_world: "\<exists>ps. snd (kill h target sig w) = w\<lparr>procs := ps\<rparr>"
  by (auto simp: kill_def intro: exI [of _ "procs w"])

lemma kill_fewer_alive: "fewer_alive w (snd (kill h target SIGKILL w))"
  using deliver_SIGKILL
  by (auto simp: kill_def deaths.frame_refl) (auto simp: fewer_alive_def list_all2_map2 list_all2_same)

lemma filter_map_pids:
  "(\<And>q. proc_pid (f q) = proc_pid q) \<Longrightarrow> (\<And>q. q \<in> set qs \<Longrightarrow> S (proc_pid q) \<Longrightarrow> f q = q) \<Longrightarrow>
    filter (\<lambda>q. S (proc_pid q)) (map f qs) = filter (\<lambda>q. S (proc_pid q)) qs"
  by (induction qs) auto

lemma kill_same_procs:
  "(\<And>q. q \<in> set (procs w) \<Longrightarrow> addressed h target q \<Longrightarrow> \<not> S (proc_pid q)) \<Longrightarrow>
    same_procs S w (snd (kill h target sig w))"
  by (auto simp: kill_def spared.frame_refl) (auto simp: same_procs_def intro!: filter_map_pids)

text \<open>
  \<open>signalGroup\<close> reaches the members of the group and the process itself, for an id above 1.
  (\<open>kill(-1)\<close> is a broadcast: the id 1 would reach every process.)
\<close>

lemma signalGroup_same_procs:
  assumes "1 < p" "\<not> S p" "\<And>q. q \<in> set (procs w) \<Longrightarrow> S (proc_pid q) \<Longrightarrow> S (proc_group q)"
  shows "same_procs S w (snd (signalGroup h p sig w))"
proof -
  have group: "same_procs S w (snd (kill h (- p) sig w))"
    using assms by (intro kill_same_procs) (auto simp: addressed_def split: if_splits)
  have single: "same_procs S w (snd (kill h p sig w))"
    using assms by (intro kill_same_procs) (auto simp: addressed_def split: if_splits)
  obtain r w1 where k: "kill h (- p) sig w = (r, w1)" by (cases "kill h (- p) sig w")
  then have "r = Inl e \<Longrightarrow> w1 = w" for e by (auto simp: kill_def split: if_splits)
  with k group single show ?thesis by (cases r) (auto simp: signalGroup_def)
qed

lemma signalGroup_fewer_alive: "fewer_alive w (snd (signalGroup h p SIGKILL w))"
proof -
  obtain r w1 where k: "kill h (- p) SIGKILL w = (r, w1)" by (cases "kill h (- p) SIGKILL w")
  then have "fewer_alive w w1" using kill_fewer_alive [of w h "- p"] by simp
  then show ?thesis
    using k kill_fewer_alive [of w1 h p] deaths.frame_trans
    by (cases r) (auto simp: signalGroup_def)
qed

lemma signalGroup_world: "\<exists>ps. snd (signalGroup h p sig w) = w\<lparr>procs := ps\<rparr>"
proof -
  obtain r w1 where k: "kill h (- p) sig w = (r, w1)" by (cases "kill h (- p) sig w")
  with kill_world [of h "- p" sig w] obtain ps where "w1 = w\<lparr>procs := ps\<rparr>" by auto
  with k kill_world [of h p sig w1] show ?thesis by (cases r) (auto simp: signalGroup_def)
qed

end
