(* ===== verification/Json.thy ===== *)
theory Json
  imports Go_Strings
begin

text \<open>
  What the program uses of \<^verbatim>\<open>encoding/json\<close>: \<open>MarshalIndent\<close> with an indentation of two
  spaces, and the reading of a document into a tree of values.

  Strings are byte strings. Bytes from 128 on pass through unchanged, which is what Go does
  with valid UTF-8 but for the separators U+2028 and U+2029. The lexer is one pass over the
  bytes with an explicit mode, the parser one pass over the tokens with an explicit stack; the
  last part proves that reading a rendered value gives it back.
\<close>

datatype json =
    JNull
  | JBool bool
  | JNumber string
  | JString string
  | JArray "json list"
  | JObject "(string \<times> json) list"

subsection \<open>Rendering\<close>

definition hex_digit :: "nat \<Rightarrow> char" where
  "hex_digit d = (if d < 10 then char_of (48 + d) else char_of (87 + d))"

definition escape_char :: "char \<Rightarrow> string" where
  "escape_char c =
    (if c = CHR ''\"'' \<or> c = CHR 0x5C then [CHR 0x5C, c]
     else if c = CHR 0x08 then [CHR 0x5C, CHR ''b'']
     else if c = CHR 0x0C then [CHR 0x5C, CHR ''f'']
     else if c = CHR 0x0A then [CHR 0x5C, CHR ''n'']
     else if c = CHR 0x0D then [CHR 0x5C, CHR ''r'']
     else if c = CHR 0x09 then [CHR 0x5C, CHR ''t'']
     else if (of_char c :: nat) < 32 \<or> c = CHR ''<'' \<or> c = CHR ''>'' \<or> c = CHR ''&'' then
       [CHR 0x5C, CHR ''u'', CHR ''0'', CHR ''0'',
        hex_digit (of_char c div 16), hex_digit (of_char c mod 16)]
     else [c])"

definition json_quote :: "string \<Rightarrow> string" where
  "json_quote s = CHR ''\"'' # concat (map escape_char s) @ [CHR ''\"'']"

definition newline :: "nat \<Rightarrow> string" where
  "newline depth = CHR 0x0A # replicate (2 * depth) (CHR '' '')"

fun render :: "nat \<Rightarrow> json \<Rightarrow> string"
  and render_items :: "nat \<Rightarrow> json list \<Rightarrow> string"
  and render_fields :: "nat \<Rightarrow> (string \<times> json) list \<Rightarrow> string" where
  "render d JNull = ''null''"
| "render d (JBool b) = (if b then ''true'' else ''false'')"
| "render d (JNumber s) = s"
| "render d (JString s) = json_quote s"
| "render d (JArray []) = ''[]''"
| "render d (JArray (v # vs)) =
    CHR ''['' # newline (Suc d) @ render (Suc d) v @ render_items (Suc d) vs @ newline d @ '']''"
| "render d (JObject []) = ''{}''"
| "render d (JObject ((k, v) # kvs)) =
    CHR ''{'' # newline (Suc d) @ json_quote k @ '': '' @ render (Suc d) v @
      render_fields (Suc d) kvs @ newline d @ ''}''"
| "render_items d [] = []"
| "render_items d (v # vs) = CHR '','' # newline d @ render d v @ render_items d vs"
| "render_fields d [] = []"
| "render_fields d ((k, v) # kvs) =
    CHR '','' # newline d @ json_quote k @ '': '' @ render d v @ render_fields d kvs"

definition marshalIndent :: "json \<Rightarrow> string" where
  "marshalIndent v = render 0 v"

subsection \<open>Tokens\<close>

datatype token = TLBrace | TRBrace | TLBrack | TRBrack | TColon | TComma | TStr string | TLit string

datatype lex_mode = Start | InStr string | InEsc string | InHex string nat nat | InLit string

definition is_ws :: "char \<Rightarrow> bool" where
  "is_ws c \<longleftrightarrow> c \<in> set [CHR '' '', CHR 0x09, CHR 0x0A, CHR 0x0D]"

definition is_lit :: "char \<Rightarrow> bool" where
  "is_lit c \<longleftrightarrow> (let n = (of_char c :: nat) in
     48 \<le> n \<and> n \<le> 57 \<or> 65 \<le> n \<and> n \<le> 90 \<or> 97 \<le> n \<and> n \<le> 122 \<or> n = 43 \<or> n = 45 \<or> n = 46)"

definition hex_val :: "char \<Rightarrow> nat option" where
  "hex_val c = (let n = (of_char c :: nat) in
     if 48 \<le> n \<and> n \<le> 57 then Some (n - 48)
     else if 97 \<le> n \<and> n \<le> 102 then Some (n - 87)
     else if 65 \<le> n \<and> n \<le> 70 then Some (n - 55) else None)"

text \<open>A code point of the basic plane in UTF-8; a lone surrogate is the replacement character.\<close>

definition utf8 :: "nat \<Rightarrow> string" where
  "utf8 n =
    (if n < 128 then [char_of n]
     else if n < 2048 then [char_of (192 + n div 64), char_of (128 + n mod 64)]
     else if 55296 \<le> n \<and> n < 57344 then [CHR 0xEF, CHR 0xBF, CHR 0xBD]
     else [char_of (224 + n div 4096), char_of (128 + n div 64 mod 64), char_of (128 + n mod 64)])"

definition unescape :: "char \<Rightarrow> char option" where
  "unescape c =
    (if c = CHR ''\"'' \<or> c = CHR 0x5C \<or> c = CHR ''/'' then Some c
     else if c = CHR ''b'' then Some (CHR 0x08) else if c = CHR ''f'' then Some (CHR 0x0C)
     else if c = CHR ''n'' then Some (CHR 0x0A) else if c = CHR ''r'' then Some (CHR 0x0D)
     else if c = CHR ''t'' then Some (CHR 0x09) else None)"

text \<open>One byte outside strings: the tokens it completes, and the mode after it.\<close>

definition lex_start :: "char \<Rightarrow> (token list \<times> lex_mode) option" where
  "lex_start c =
    (if is_ws c then Some ([], Start)
     else if c = CHR ''{'' then Some ([TLBrace], Start)
     else if c = CHR ''}'' then Some ([TRBrace], Start)
     else if c = CHR ''['' then Some ([TLBrack], Start)
     else if c = CHR '']'' then Some ([TRBrack], Start)
     else if c = CHR '':'' then Some ([TColon], Start)
     else if c = CHR '','' then Some ([TComma], Start)
     else if c = CHR ''\"'' then Some ([], InStr [])
     else if is_lit c then Some ([], InLit [c]) else None)"

text \<open>The bytes of a string collect in reverse.\<close>

fun lex_step :: "lex_mode \<Rightarrow> char \<Rightarrow> (token list \<times> lex_mode) option" where
  "lex_step Start c = lex_start c"
| "lex_step (InStr acc) c =
    (if c = CHR ''\"'' then Some ([TStr (rev acc)], Start)
     else if c = CHR 0x5C then Some ([], InEsc acc)
     else if (of_char c :: nat) < 32 then None
     else Some ([], InStr (c # acc)))"
| "lex_step (InEsc acc) c =
    (if c = CHR ''u'' then Some ([], InHex acc 4 0)
     else map_option (\<lambda>d. ([], InStr (d # acc))) (unescape c))"
| "lex_step (InHex acc k n) c =
    (case hex_val c of None \<Rightarrow> None
     | Some d \<Rightarrow> if k \<le> 1 then Some ([], InStr (rev (utf8 (16 * n + d)) @ acc))
                else Some ([], InHex acc (k - 1) (16 * n + d)))"
| "lex_step (InLit acc) c =
    (if is_lit c then Some ([], InLit (c # acc))
     else map_option (\<lambda>(ts, m). (TLit (rev acc) # ts, m)) (lex_start c))"

definition emit :: "token list \<Rightarrow> token list option \<Rightarrow> token list option" where
  "emit ts r = map_option (append ts) r"

fun lex :: "lex_mode \<Rightarrow> string \<Rightarrow> token list option" where
  "lex Start [] = Some []"
| "lex (InLit acc) [] = Some [TLit (rev acc)]"
| "lex m [] = None"
| "lex m (c # cs) =
    (case lex_step m c of None \<Rightarrow> None
     | Some (ts, m') \<Rightarrow> emit ts (lex m' cs))"

declare lex.simps [simp del]

subsection \<open>Values\<close>

datatype stack_frame = AFrame "json list" | OFrame "(string \<times> json) list" string

datatype expect = Value | ValueOrEnd | KeyOrEnd "(string \<times> json) list" | Key "(string \<times> json) list"
  | Colon "(string \<times> json) list" string | Next | Done json

type_synonym parser_state = "stack_frame list \<times> expect"

definition literal :: "string \<Rightarrow> json option" where
  "literal s =
    (if s = ''null'' then Some JNull else if s = ''true'' then Some (JBool True)
     else if s = ''false'' then Some (JBool False)
     else if s \<noteq> [] \<and> (is_digit (hd s) \<or> hd s = CHR ''-'') then Some (JNumber s) else None)"

text \<open>A value is complete: it goes into the innermost open array or object.\<close>

fun deliver_value :: "json \<Rightarrow> stack_frame list \<Rightarrow> parser_state" where
  "deliver_value v [] = ([], Done v)"
| "deliver_value v (AFrame vs # st) = (AFrame (v # vs) # st, Next)"
| "deliver_value v (OFrame kvs k # st) = (OFrame ((k, v) # kvs) k # st, Next)"

fun parse_value :: "token \<Rightarrow> stack_frame list \<Rightarrow> parser_state option" where
  "parse_value (TStr s) st = Some (deliver_value (JString s) st)"
| "parse_value (TLit s) st = map_option (\<lambda>v. deliver_value v st) (literal s)"
| "parse_value TLBrack st = Some (AFrame [] # st, ValueOrEnd)"
| "parse_value TLBrace st = Some (st, KeyOrEnd [])"
| "parse_value _ st = None"

fun parse_step :: "parser_state \<Rightarrow> token \<Rightarrow> parser_state option" where
  "parse_step (st, Value) t = parse_value t st"
| "parse_step (AFrame [] # st, ValueOrEnd) TRBrack = Some (deliver_value (JArray []) st)"
| "parse_step (st, ValueOrEnd) t = parse_value t st"
| "parse_step (st, KeyOrEnd kvs) TRBrace = Some (deliver_value (JObject (rev kvs)) st)"
| "parse_step (st, KeyOrEnd kvs) (TStr k) = Some (st, Colon kvs k)"
| "parse_step (st, Key kvs) (TStr k) = Some (st, Colon kvs k)"
| "parse_step (st, Colon kvs k) TColon = Some (OFrame kvs k # st, Value)"
| "parse_step (AFrame vs # st, Next) TComma = Some (AFrame vs # st, Value)"
| "parse_step (AFrame vs # st, Next) TRBrack = Some (deliver_value (JArray (rev vs)) st)"
| "parse_step (OFrame kvs k # st, Next) TComma = Some (st, Key kvs)"
| "parse_step (OFrame kvs k # st, Next) TRBrace = Some (deliver_value (JObject (rev kvs)) st)"
| "parse_step _ _ = None"

fun parse_tokens :: "parser_state \<Rightarrow> token list \<Rightarrow> parser_state option" where
  "parse_tokens s [] = Some s"
| "parse_tokens s (t # ts) = (case parse_step s t of None \<Rightarrow> None | Some s' \<Rightarrow> parse_tokens s' ts)"

definition unmarshal :: "string \<Rightarrow> json option" where
  "unmarshal s =
    (case lex Start s of None \<Rightarrow> None
     | Some ts \<Rightarrow> (case parse_tokens ([], Value) ts of Some ([], Done v) \<Rightarrow> Some v | _ \<Rightarrow> None))"

subsection \<open>Decoding into structs\<close>

text \<open>The fields of an object in their order, each changing the struct or failing on a wrong type.\<close>

fun fold_fields :: "(string \<times> json \<Rightarrow> 'r \<Rightarrow> 'r option) \<Rightarrow> (string \<times> json) list \<Rightarrow> 'r \<Rightarrow> 'r option" where
  "fold_fields f [] r = Some r"
| "fold_fields f (kv # kvs) r = (case f kv r of None \<Rightarrow> None | Some r' \<Rightarrow> fold_fields f kvs r')"

fun decode_all :: "('a \<Rightarrow> 'b option) \<Rightarrow> 'a list \<Rightarrow> 'b list option" where
  "decode_all f [] = Some []"
| "decode_all f (x # xs) =
    (case f x of None \<Rightarrow> None | Some y \<Rightarrow> map_option (Cons y) (decode_all f xs))"

text \<open>\<open>strconv.ParseUint\<close> to 64 bits, for a field of type \<open>uint64\<close>.\<close>

definition parse_uint64 :: "string \<Rightarrow> nat option" where
  "parse_uint64 s =
    (if s \<noteq> [] \<and> list_all is_digit s \<and> int (read_nat s) < 2 ^ 64 then Some (read_nat s) else None)"

lemma parse_uint64_itoa: "0 \<le> i \<Longrightarrow> i < 2 ^ 64 \<Longrightarrow> parse_uint64 (itoa i) = Some (nat i)"
  by (simp add: parse_uint64_def itoa_nonneg show_nat_digits)

subsection \<open>Reading a rendered value\<close>

fun tokens_of :: "json \<Rightarrow> token list"
  and item_tokens :: "json list \<Rightarrow> token list"
  and field_tokens :: "(string \<times> json) list \<Rightarrow> token list" where
  "tokens_of JNull = [TLit ''null'']"
| "tokens_of (JBool b) = [TLit (if b then ''true'' else ''false'')]"
| "tokens_of (JNumber s) = [TLit s]"
| "tokens_of (JString s) = [TStr s]"
| "tokens_of (JArray []) = [TLBrack, TRBrack]"
| "tokens_of (JArray (v # vs)) = TLBrack # tokens_of v @ item_tokens vs @ [TRBrack]"
| "tokens_of (JObject []) = [TLBrace, TRBrace]"
| "tokens_of (JObject ((k, v) # kvs)) =
    TLBrace # TStr k # TColon # tokens_of v @ field_tokens kvs @ [TRBrace]"
| "item_tokens [] = []"
| "item_tokens (v # vs) = TComma # tokens_of v @ item_tokens vs"
| "field_tokens [] = []"
| "field_tokens ((k, v) # kvs) = TComma # TStr k # TColon # tokens_of v @ field_tokens kvs"

text \<open>Numbers are written as literals that a reader takes for numbers.\<close>

definition number_ok :: "string \<Rightarrow> bool" where
  "number_ok s \<longleftrightarrow> literal s = Some (JNumber s) \<and> list_all is_lit s"

fun json_ok :: "json \<Rightarrow> bool" where
  "json_ok (JNumber s) \<longleftrightarrow> number_ok s"
| "json_ok (JArray vs) \<longleftrightarrow> (\<forall>v \<in> set vs. json_ok v)"
| "json_ok (JObject kvs) \<longleftrightarrow> (\<forall>kv \<in> set kvs. json_ok (snd kv))"
| "json_ok _ \<longleftrightarrow> True"

lemma emit_Nil [simp]: "emit [] r = r"
  by (cases r) (auto simp: emit_def)

lemma emit_Some [simp]: "emit ts (Some us) = Some (ts @ us)"
  by (simp add: emit_def)

lemma emit_None [simp]: "emit ts None = None"
  by (simp add: emit_def)

lemma emit_emit [simp]: "emit a (emit b r) = emit (a @ b) r"
  by (cases r) (auto simp: emit_def)

lemma lex_nil [simp]: "lex Start [] = Some []" "lex (InLit acc) [] = Some [TLit (rev acc)]"
  by (simp_all add: lex.simps)

lemma hex_val_digit: "d < 16 \<Longrightarrow> hex_val (hex_digit d) = Some d"
  by (auto simp: hex_val_def hex_digit_def of_char_of_nat Let_def)

lemma lex_Cons: "lex m (c # cs) =
    (case lex_step m c of None \<Rightarrow> None | Some (ts, m') \<Rightarrow> emit ts (lex m' cs))"
  by (cases m) (simp_all add: lex.simps)

lemma lex_quiet: "lex_step m c = Some ([], m') \<Longrightarrow> lex m (c # cs) = lex m' cs"
  by (simp add: lex_Cons )


lemma lex_escape: "lex (InStr acc) (escape_char c @ r) = lex (InStr (c # acc)) r"
proof -
  let ?n = "of_char c :: nat"
  have n: "?n < 256" by simp
  consider (special) "c \<in> set [CHR ''\"'', CHR 0x5C, CHR 0x08, CHR 0x0C, CHR 0x0A, CHR 0x0D, CHR 0x09]"
    | (hex) "c \<notin> set [CHR ''\"'', CHR 0x5C, CHR 0x08, CHR 0x0C, CHR 0x0A, CHR 0x0D, CHR 0x09]"
        "?n < 32 \<or> c = CHR ''<'' \<or> c = CHR ''>'' \<or> c = CHR ''&''"
    | (plain) "c \<notin> set [CHR ''\"'', CHR 0x5C, CHR 0x08, CHR 0x0C, CHR 0x0A, CHR 0x0D, CHR 0x09]"
        "32 \<le> ?n" "c \<noteq> CHR ''<''" "c \<noteq> CHR ''>''" "c \<noteq> CHR ''&''"
    by force
  then show ?thesis
  proof cases
    case special
    then show ?thesis by (auto simp: escape_char_def lex_Cons unescape_def )
  next
    case hex
    have less: "?n < 128" using hex(2) by auto
    have "16 * (?n div 16) + ?n mod 16 = ?n" by simp
    then have byte: "rev (utf8 (16 * (?n div 16) + ?n mod 16)) = [c]" "rev (utf8 ?n) = [c]"
      using less by (simp_all add: utf8_def)
    have "?n div 16 < 16" "?n mod 16 < 16" using n by (simp_all add: less_mult_imp_div_less)
    then have h: "hex_val (hex_digit (?n div 16)) = Some (?n div 16)"
      "hex_val (hex_digit (?n mod 16)) = Some (?n mod 16)" by (simp_all only: hex_val_digit)
    have zero: "hex_val (CHR ''0'') = Some 0" by (simp add: hex_val_def)
    have e: "escape_char c = [CHR 0x5C, CHR ''u'', CHR ''0'', CHR ''0'',
        hex_digit (?n div 16), hex_digit (?n mod 16)]"
      using hex by (simp add: escape_char_def)
    show ?thesis unfolding e
      by (simp add: lex_Cons zero h byte )
  next
    case plain
    then show ?thesis by (simp add: escape_char_def lex_Cons )
  qed
qed

lemma lex_string_body:
  "lex (InStr acc) (concat (map escape_char s) @ CHR ''\"'' # rest) =
    emit [TStr (rev acc @ s)] (lex Start rest)"
  by (induction s arbitrary: acc) (simp_all add: lex_escape lex_Cons)

lemma lex_json_quote:
  "lex Start (json_quote s @ rest) = emit [TStr s] (lex Start rest)"
proof -
  have "lex_step Start (CHR ''\"'') = Some ([], InStr [])"
    by (simp add: lex_start_def is_ws_def)
  then show ?thesis by (simp add: json_quote_def lex_quiet lex_string_body)
qed

lemma lex_newline: "lex Start (newline d @ rest) = lex Start rest"
proof -
  have ws: "lex_step Start (CHR 0x0A) = Some ([], Start)" "lex_step Start (CHR '' '') = Some ([], Start)"
    by (simp_all add: lex_start_def is_ws_def)
  have "lex Start (replicate n (CHR '' '') @ rest) = lex Start rest" for n
    by (induction n) (simp_all add: lex_quiet [OF ws(2)])
  then show ?thesis by (simp add: newline_def lex_quiet [OF ws(1)])
qed

definition ends_literal :: "string \<Rightarrow> bool" where
  "ends_literal rest \<longleftrightarrow> (case rest of [] \<Rightarrow> True | c # _ \<Rightarrow> \<not> is_lit c)"

lemma lex_literal_tail:
  "list_all is_lit s \<Longrightarrow> ends_literal rest \<Longrightarrow>
    lex (InLit acc) (s @ rest) = emit [TLit (rev acc @ s)] (lex Start rest)"
proof (induction s arbitrary: acc)
  case Nil
  then show ?case
    by (cases rest)
      (auto simp: lex_Cons ends_literal_def split: option.split)
next
  case (Cons c s)
  then show ?case by (simp add: lex_Cons )
qed

lemma not_lit [simp]:
  "\<not> is_lit (CHR '' '')" "\<not> is_lit (CHR 0x09)" "\<not> is_lit (CHR 0x0A)" "\<not> is_lit (CHR 0x0D)"
  "\<not> is_lit (CHR ''{'')" "\<not> is_lit (CHR ''}'')" "\<not> is_lit (CHR ''['')" "\<not> is_lit (CHR '']'')"
  "\<not> is_lit (CHR '':'')" "\<not> is_lit (CHR '','')" "\<not> is_lit (CHR ''\"'')"
  by (simp_all add: is_lit_def)

lemma lit_start: "is_lit c \<Longrightarrow> lex_start c = Some ([], InLit [c])"
proof -
  assume lit: "is_lit c"
  then have ne: "\<not> is_lit d \<Longrightarrow> c \<noteq> d" for d by blast
  show ?thesis
    using ne [OF not_lit(1)] ne [OF not_lit(2)] ne [OF not_lit(3)] ne [OF not_lit(4)] ne [OF not_lit(5)]
      ne [OF not_lit(6)] ne [OF not_lit(7)] ne [OF not_lit(8)] ne [OF not_lit(9)] ne [OF not_lit(10)]
      ne [OF not_lit(11)] lit
    by (simp add: lex_start_def is_ws_def)
qed

lemma lex_literal:
  assumes "s \<noteq> []" "list_all is_lit s" "ends_literal rest"
  shows "lex Start (s @ rest) = emit [TLit s] (lex Start rest)"
proof -
  obtain c t where s: "s = c # t" using assms(1) by (cases s) auto
  then have "lex Start (s @ rest) = lex (InLit [c]) (t @ rest)"
    using lit_start [of c] assms(2) by (simp add: lex_quiet)
  then show ?thesis using lex_literal_tail [of t rest "[c]"] assms s by simp
qed

lemma lex_punct:
  "lex Start (CHR ''['' # r) = emit [TLBrack] (lex Start r)"
  "lex Start (CHR '']'' # r) = emit [TRBrack] (lex Start r)"
  "lex Start (CHR ''{'' # r) = emit [TLBrace] (lex Start r)"
  "lex Start (CHR ''}'' # r) = emit [TRBrace] (lex Start r)"
  "lex Start (CHR '':'' # r) = emit [TColon] (lex Start r)"
  "lex Start (CHR '','' # r) = emit [TComma] (lex Start r)"
  "lex Start (CHR '' '' # r) = lex Start r"
  by (simp_all add: lex_Cons lex_start_def is_ws_def )

lemma ends_literal_simps [simp]:
  "ends_literal []" "ends_literal (newline d @ r)" "ends_literal (CHR '','' # r)"
  by (simp_all add: ends_literal_def newline_def is_lit_def)

lemma ends_items: "ends_literal r \<Longrightarrow> ends_literal (render_items d vs @ r)"
  by (cases vs) auto

lemma ends_fields: "ends_literal r \<Longrightarrow> ends_literal (render_fields d kvs @ r)"
  by (cases kvs) auto

lemma lex_render:
  "json_ok v \<Longrightarrow> ends_literal rest \<Longrightarrow>
    lex Start (render d v @ rest) = emit ((tokens_of v)) (lex Start rest)"
  "\<forall>v \<in> set vs. json_ok v \<Longrightarrow> ends_literal rest \<Longrightarrow>
    lex Start (render_items d vs @ rest) = emit ((item_tokens vs)) (lex Start rest)"
  "\<forall>kv \<in> set kvs. json_ok (snd kv) \<Longrightarrow> ends_literal rest \<Longrightarrow>
    lex Start (render_fields d kvs @ rest) = emit ((field_tokens kvs)) (lex Start rest)"
proof (induction d v and d vs and d kvs arbitrary: rest and rest and rest
    rule: render_render_items_render_fields.induct)
  case (1 d)
  then show ?case using lex_literal [of "''null''" rest] by (simp add: is_lit_def)
next
  case (2 d b)
  then show ?case
    using lex_literal [of "''true''" rest] lex_literal [of "''false''" rest] by (simp add: is_lit_def)
next
  case (3 d s)
  then show ?case using lex_literal [of s rest] by (cases s) (auto simp: number_ok_def literal_def)
next
  case (4 d s)
  then show ?case by (simp add: lex_json_quote)
next
  case (5 d)
  then show ?case by (simp add: lex_punct)
next
  case (6 d v vs)
  then show ?case
    by (simp add: lex_punct lex_newline ends_items)
next
  case (7 d)
  then show ?case by (simp add: lex_punct)
next
  case (8 d k v kvs)
  then show ?case
    by (simp add: lex_punct lex_newline lex_json_quote ends_fields)
next
  case (9 d)
  then show ?case by simp
next
  case (10 d v vs)
  then show ?case
    by (simp add: lex_punct lex_newline ends_items)
next
  case (11 d)
  then show ?case by simp
next
  case (12 d k v kvs)
  then show ?case
    by (simp add: lex_punct lex_newline lex_json_quote ends_fields)
qed


lemma parse_tokens_append:
  "parse_tokens s (a @ b) =
    (case parse_tokens s a of None \<Rightarrow> None | Some s' \<Rightarrow> parse_tokens s' b)"
  by (induction a arbitrary: s) (auto split: option.splits)

lemma parse_or_end: "t \<noteq> TRBrack \<Longrightarrow> parse_step (st, ValueOrEnd) t = parse_value t st"
  by (cases "((st, ValueOrEnd), t)" rule: parse_step.cases) auto

lemma tokens_of_first: "\<exists>t ts. tokens_of v = t # ts \<and> t \<noteq> TRBrack"
  by (cases v rule: tokens_of.cases) auto

lemma parse_rendered:
  "json_ok v \<Longrightarrow> parse_tokens (st, Value) (tokens_of v) = Some (deliver_value v st)"
  "\<forall>v \<in> set us. json_ok v \<Longrightarrow>
    parse_tokens (AFrame vs # st, Next) (item_tokens us @ [TRBrack]) =
      Some (deliver_value (JArray (rev vs @ us)) st)"
  "\<forall>kv \<in> set kus. json_ok (snd kv) \<Longrightarrow>
    parse_tokens (OFrame kvs k # st, Next) (field_tokens kus @ [TRBrace]) =
      Some (deliver_value (JObject (rev kvs @ kus)) st)"
proof (induction v and us and kus arbitrary: st and vs st and kvs k st
    rule: tokens_of_item_tokens_field_tokens.induct)
  case (6 v us)
  obtain t ts where t: "tokens_of v = t # ts" "t \<noteq> TRBrack" using tokens_of_first by blast
  have "parse_tokens (AFrame [] # st, ValueOrEnd) (tokens_of v) = parse_tokens (AFrame [] # st, Value) (tokens_of v)"
    using t by (simp add: parse_or_end)
  then show ?case using 6 by (simp add: parse_tokens_append)
next
  case (8 k v kus)
  then show ?case by (simp add: parse_tokens_append)
next
  case (10 v us)
  then show ?case by (simp add: parse_tokens_append)
next
  case (12 k' v kus)
  then show ?case by (simp add: parse_tokens_append)
qed (auto simp: literal_def number_ok_def)

lemma unmarshal_marshal: "json_ok v \<Longrightarrow> unmarshal (marshalIndent v) = Some v"
  using lex_render(1) [of v "[]" 0] parse_rendered(1) [of v "[]"]
  by (simp add: unmarshal_def marshalIndent_def)
text \<open>A decimal numeral is a JSON number.\<close>

lemma is_lit_digit: "is_digit c \<Longrightarrow> is_lit c"
  by (simp add: is_digit_def is_lit_def Let_def)

lemma itoa_number_ok: "number_ok (itoa i)"
proof -
  obtain c cs where s: "itoa i = c # cs" by (cases "itoa i") auto
  then have c: "is_digit c \<or> c = CHR ''-''" using itoa_chars [of c i] by simp
  have "is_lit d" if "d \<in> set (itoa i)" for d
    using itoa_chars [OF that] is_lit_digit by (auto simp: is_lit_def)
  moreover have "itoa i \<noteq> ''null''" "itoa i \<noteq> ''true''" "itoa i \<noteq> ''false''"
    using c s by (auto simp: is_digit_def)
  ultimately show ?thesis using c s by (auto simp: number_ok_def literal_def list_all_iff)
qed

end
