(* ===== verification/Config.thy ===== *)
theory Config
  imports Go_Strings
begin

text \<open>
  \<^verbatim>\<open>config.go\<close>: the configuration of a cluster, its defaults and its builder methods. A value
  of type \<open>any\<close> in a configuration map is a \<open>setting\<close>; \<open>VTable\<close> is \<open>map[string]any\<close> and
  \<open>VOther\<close> stands for every Go type the program does not look into. A Go map with string
  keys is an association list whose keys are distinct; its order means nothing.
\<close>

datatype setting =
    VNil
  | VInt int
  | VFloat string
  | VString string
  | VBool bool
  | VOther string
  | VTable "(string \<times> setting) list"

type_synonym settings = "(string \<times> setting) list"

definition V8_5 :: string where "V8_5 = ''v8.5.8''"
definition V8_1 :: string where "V8_1 = ''v8.1.2''"
definition V7_5 :: string where "V7_5 = ''v7.5.7''"
definition V7_1 :: string where "V7_1 = ''v7.1.6''"
definition V6_5 :: string where "V6_5 = ''v6.5.12''"

definition DefaultMirrorURL :: string where
  "DefaultMirrorURL = ''https://tiup-mirrors.pingcap.com''"

definition BinariesPathEnv :: string where
  "BinariesPathEnv = ''EMBEDDED_TIKV_BINARIES''"

text \<open>Durations are nanoseconds; a writer is named by a number.\<close>

definition second :: int where "second = 1000000000"

record Config =
  cfg_version :: string
  cfg_tikvCount :: int
  cfg_host :: string
  cfg_dataPath :: string
  cfg_binariesPath :: string
  cfg_cachePath :: string
  cfg_mirrorURL :: string
  cfg_startTimeout :: int
  cfg_logger :: "nat option"
  cfg_pdConfig :: settings
  cfg_tikvConfig :: settings
  cfg_reapOrphans :: bool

definition DefaultConfig :: Config where
  "DefaultConfig = \<lparr>cfg_version = V8_5, cfg_tikvCount = 1, cfg_host = ''127.0.0.1'',
     cfg_dataPath = [], cfg_binariesPath = [], cfg_cachePath = [],
     cfg_mirrorURL = DefaultMirrorURL, cfg_startTimeout = 120 * second, cfg_logger = None,
     cfg_pdConfig = [], cfg_tikvConfig = [], cfg_reapOrphans = True\<rparr>"

definition Version :: "string \<Rightarrow> Config \<Rightarrow> Config" where
  "Version version c = c\<lparr>cfg_version := version\<rparr>"

definition TiKVCount :: "int \<Rightarrow> Config \<Rightarrow> Config" where
  "TiKVCount count c = c\<lparr>cfg_tikvCount := count\<rparr>"

definition Host :: "string \<Rightarrow> Config \<Rightarrow> Config" where
  "Host h c = c\<lparr>cfg_host := h\<rparr>"

definition DataPath :: "string \<Rightarrow> Config \<Rightarrow> Config" where
  "DataPath path c = c\<lparr>cfg_dataPath := path\<rparr>"

definition BinariesPath :: "string \<Rightarrow> Config \<Rightarrow> Config" where
  "BinariesPath path c = c\<lparr>cfg_binariesPath := path\<rparr>"

definition CachePath :: "string \<Rightarrow> Config \<Rightarrow> Config" where
  "CachePath path c = c\<lparr>cfg_cachePath := path\<rparr>"

definition MirrorURL :: "string \<Rightarrow> Config \<Rightarrow> Config" where
  "MirrorURL url c = c\<lparr>cfg_mirrorURL := url\<rparr>"

definition StartTimeout :: "int \<Rightarrow> Config \<Rightarrow> Config" where
  "StartTimeout timeout c = c\<lparr>cfg_startTimeout := timeout\<rparr>"

definition Logger :: "nat option \<Rightarrow> Config \<Rightarrow> Config" where
  "Logger logger c = c\<lparr>cfg_logger := logger\<rparr>"

definition PDConfig :: "settings \<Rightarrow> Config \<Rightarrow> Config" where
  "PDConfig config c = c\<lparr>cfg_pdConfig := config\<rparr>"

definition ReapOrphans :: "bool \<Rightarrow> Config \<Rightarrow> Config" where
  "ReapOrphans reap c = c\<lparr>cfg_reapOrphans := reap\<rparr>"

definition TiKVConfig :: "settings \<Rightarrow> Config \<Rightarrow> Config" where
  "TiKVConfig config c = c\<lparr>cfg_tikvConfig := config\<rparr>"

lemmas builder_defs = Version_def TiKVCount_def Host_def DataPath_def BinariesPath_def CachePath_def
  MirrorURL_def StartTimeout_def Logger_def PDConfig_def ReapOrphans_def TiKVConfig_def

end
