(* ===== verification/Registry.thy ===== *)
theory Registry
  imports Lock Proc_Info Json Config
begin

text \<open>
  \<^verbatim>\<open>registry.go\<close> (with \<open>cacheDirectory\<close> of \<^verbatim>\<open>binaries.go\<close>): the record a running cluster leaves
  on disk, the lock that says whether its owner is alive, and the sweep that reclaims what a
  dead owner left behind. Definitions only; the theories \<open>Registry_Records\<close> and \<open>Sweep_Safety\<close>
  prove things about them.

  A record on disk is JSON text. \<open>rec_id\<close>, \<open>rec_path\<close> and \<open>rec_lock\<close> are the fields that are
  not serialised. \<open>time_text\<close> of a creation time is the RFC 3339 text Go writes for it; what
  it says depends on the time zone of the host, so it is a field of the record, not computed.
\<close>

definition registryDirName :: string where "registryDirName = ''run''"
definition recordPrefix :: string where "recordPrefix = ''cluster-''"
definition dataDirPrefix :: string where "dataDirPrefix = ''embedded-tikv-''"

text \<open>Five minutes.\<close>

definition orphanGracePeriod :: int where "orphanGracePeriod = 300000000000"

record serverRecord =
  sr_Name :: string
  sr_PID :: int
  sr_Binary :: string

record clusterRecord =
  rec_Created :: string
  rec_OwnerPID :: int
  rec_DataPath :: string
  rec_OwnsDataPath :: bool
  rec_Servers :: "serverRecord list"
  rec_id :: string
  rec_path :: string
  rec_lock :: "fileLock option"

subsection \<open>The JSON form of a record\<close>

definition encode_server :: "serverRecord \<Rightarrow> json" where
  "encode_server s = JObject [(''name'', JString (sr_Name s)), (''pid'', JNumber (itoa (sr_PID s))),
     (''binary'', JString (sr_Binary s))]"

definition encode_record :: "clusterRecord \<Rightarrow> json" where
  "encode_record r = JObject
    [(''created'', JString (rec_Created r)),
     (''owner_pid'', JNumber (itoa (rec_OwnerPID r))),
     (''data_path'', JString (rec_DataPath r)),
     (''owns_data_path'', JBool (rec_OwnsDataPath r)),
     (''servers'', if rec_Servers r = [] then JNull else JArray (map encode_server (rec_Servers r)))]"

definition two_digits :: "nat \<Rightarrow> nat \<Rightarrow> string \<Rightarrow> bool" where
  "two_digits lo hi s \<longleftrightarrow> length s = 2 \<and> list_all is_digit s \<and> lo \<le> read_nat s \<and> read_nat s \<le> hi"

text \<open>What \<open>time.Time\<close> accepts: \<open>YYYY-MM-DDThh:mm:ss\<close>, an optional fraction, and a zone.\<close>

definition rfc3339_zone :: "string \<Rightarrow> bool" where
  "rfc3339_zone z \<longleftrightarrow> z = ''Z'' \<or>
    (length z = 6 \<and> (z ! 0 = CHR ''+'' \<or> z ! 0 = CHR ''-'') \<and> z ! 3 = CHR '':'' \<and>
     two_digits 0 23 (take 2 (drop 1 z)) \<and> two_digits 0 59 (drop 4 z))"

definition is_rfc3339 :: "string \<Rightarrow> bool" where
  "is_rfc3339 s \<longleftrightarrow>
    20 \<le> length s \<and> list_all is_digit (take 4 s) \<and>
    s ! 4 = CHR ''-'' \<and> two_digits 1 12 (take 2 (drop 5 s)) \<and>
    s ! 7 = CHR ''-'' \<and> two_digits 1 31 (take 2 (drop 8 s)) \<and>
    s ! 10 = CHR ''T'' \<and> two_digits 0 23 (take 2 (drop 11 s)) \<and>
    s ! 13 = CHR '':'' \<and> two_digits 0 59 (take 2 (drop 14 s)) \<and>
    s ! 16 = CHR '':'' \<and> two_digits 0 59 (take 2 (drop 17 s)) \<and>
    (let r = drop 19 s
     in if hd r = CHR ''.'' then takeWhile is_digit (tl r) \<noteq> [] \<and> rfc3339_zone (dropWhile is_digit (tl r))
        else rfc3339_zone r)"

definition zero_server :: serverRecord where
  "zero_server = \<lparr>sr_Name = [], sr_PID = 0, sr_Binary = []\<rparr>"

definition zero_record :: clusterRecord where
  "zero_record = \<lparr>rec_Created = ''0001-01-01T00:00:00Z'', rec_OwnerPID = 0, rec_DataPath = [],
     rec_OwnsDataPath = False, rec_Servers = [], rec_id = [], rec_path = [], rec_lock = None\<rparr>"

text \<open>
  \<open>json.Unmarshal\<close> into a struct: fields are matched by name without regard to case, unknown
  ones are skipped, \<open>null\<close> leaves a field alone, and a value of the wrong type is an error.
\<close>

definition server_field :: "string \<times> json \<Rightarrow> serverRecord \<Rightarrow> serverRecord option" where
  "server_field kv s =
    (case kv of (key, v) \<Rightarrow>
      let k = toLower key in
      if k = ''name'' then
        (case v of JString t \<Rightarrow> Some (s\<lparr>sr_Name := t\<rparr>) | JNull \<Rightarrow> Some s | _ \<Rightarrow> None)
      else if k = ''pid'' then
        (case v of JNumber t \<Rightarrow> map_option (\<lambda>i. s\<lparr>sr_PID := i\<rparr>) (atoi t) | JNull \<Rightarrow> Some s | _ \<Rightarrow> None)
      else if k = ''binary'' then
        (case v of JString t \<Rightarrow> Some (s\<lparr>sr_Binary := t\<rparr>) | JNull \<Rightarrow> Some s | _ \<Rightarrow> None)
      else Some s)"

definition decode_server :: "json \<Rightarrow> serverRecord option" where
  "decode_server v =
    (case v of JObject kvs \<Rightarrow> fold_fields server_field kvs zero_server
     | JNull \<Rightarrow> Some zero_server | _ \<Rightarrow> None)"

definition record_field :: "string \<times> json \<Rightarrow> clusterRecord \<Rightarrow> clusterRecord option" where
  "record_field kv r =
    (case kv of (key, v) \<Rightarrow>
      let k = toLower key in
      if k = ''created'' then
        (case v of JString t \<Rightarrow> if is_rfc3339 t then Some (r\<lparr>rec_Created := t\<rparr>) else None
         | JNull \<Rightarrow> Some r | _ \<Rightarrow> None)
      else if k = ''owner_pid'' then
        (case v of JNumber t \<Rightarrow> map_option (\<lambda>i. r\<lparr>rec_OwnerPID := i\<rparr>) (atoi t)
         | JNull \<Rightarrow> Some r | _ \<Rightarrow> None)
      else if k = ''data_path'' then
        (case v of JString t \<Rightarrow> Some (r\<lparr>rec_DataPath := t\<rparr>) | JNull \<Rightarrow> Some r | _ \<Rightarrow> None)
      else if k = ''owns_data_path'' then
        (case v of JBool b \<Rightarrow> Some (r\<lparr>rec_OwnsDataPath := b\<rparr>) | JNull \<Rightarrow> Some r | _ \<Rightarrow> None)
      else if k = ''servers'' then
        (case v of JArray vs \<Rightarrow> map_option (\<lambda>ss. r\<lparr>rec_Servers := ss\<rparr>) (decode_all decode_server vs)
         | JNull \<Rightarrow> Some (r\<lparr>rec_Servers := []\<rparr>) | _ \<Rightarrow> None)
      else Some r)"

definition decode_record :: "string \<Rightarrow> clusterRecord option" where
  "decode_record s =
    (case unmarshal s of
      Some (JObject kvs) \<Rightarrow> fold_fields record_field kvs zero_record
    | Some JNull \<Rightarrow> Some zero_record
    | _ \<Rightarrow> None)"

subsection \<open>Paths\<close>

definition cacheDirectory :: "host \<Rightarrow> Config \<Rightarrow> string" where
  "cacheDirectory h cfg =
    (if cfg_cachePath cfg \<noteq> [] then cfg_cachePath cfg
     else case home_dir h of None \<Rightarrow> ''.embedded-tikv'' | Some home \<Rightarrow> path_join [home, ''.embedded-tikv''])"

definition registry_path :: "host \<Rightarrow> Config \<Rightarrow> string" where
  "registry_path h cfg = path_join [cacheDirectory h cfg, registryDirName]"

definition registryDir :: "host \<Rightarrow> Config \<Rightarrow> string io" where
  "registryDir h cfg =
    (let dir = registry_path h cfg
     in seqE (wrapE (\<lambda>e. ''embedded-tikv: unable to create registry '' @ dir @ '': '' @ e) (mkdirAll h dir))
          (\<lambda>_. returnE dir))"

definition lockPathFor :: "string \<Rightarrow> string" where
  "lockPathFor recordPath = trimSuffix recordPath ''.json'' @ ''.lock''"

definition recordPathFor :: "string \<Rightarrow> string" where
  "recordPathFor lockPath = trimSuffix lockPath ''.lock'' @ ''.json''"

definition defaultDataDir :: "host \<Rightarrow> string \<Rightarrow> string" where
  "defaultDataDir h i = path_join [tmp_dir h, dataDirPrefix @ i]"

subsection \<open>Records\<close>

text \<open>Written through a temporary file and a rename, so a reader sees the old record or the new.\<close>

definition save_error :: "go_error \<Rightarrow> go_error" where
  "save_error e = ''embedded-tikv: unable to write cluster record: '' @ e"

definition save :: "host \<Rightarrow> clusterRecord \<Rightarrow> unit io" where
  "save h r =
    seqE (wrapE save_error (createTemp h (dir_of (rec_path r)) ''.tmp-'' []))
      (\<lambda>temp w.
        (case writeFd h temp (marshalIndent (encode_record r)) w of
          (Inl e, w1) \<Rightarrow> (Inl (save_error e), snd (remove h temp (snd (closeFd h temp w1))))
        | (Inr _, w1) \<Rightarrow>
            (case closeFd h temp w1 of
              (Inl e, w2) \<Rightarrow> (Inl e, snd (remove h temp w2))
            | (Inr _, w2) \<Rightarrow> rename h temp (rec_path r) w2)))"

text \<open>
  \<open>openRecord\<close> returns a record and an error, and may return both: a record whose first save
  failed. \<open>now_text\<close> is the text of \<open>time.Now()\<close>.
\<close>

definition openRecord ::
  "host \<Rightarrow> string \<Rightarrow> Config \<Rightarrow> world \<Rightarrow> (clusterRecord option \<times> go_error option) \<times> world" where
  "openRecord h now_text cfg w =
    (case registryDir h cfg w of
      (Inl e, w1) \<Rightarrow> ((None, Some e), w1)
    | (Inr dir, w1) \<Rightarrow>
      (case createTemp h dir recordPrefix ''.lock'' w1 of
        (Inl e, w2) \<Rightarrow> ((None, Some (''embedded-tikv: unable to create cluster lock: '' @ e)), w2)
      | (Inr lockPath, w2) \<Rightarrow>
        (case acquireFileLock h lockPath True True w2 of
          (Inl e, w3) \<Rightarrow> ((None, Some e), snd (remove h lockPath w3))
        | (Inr lock, w3) \<Rightarrow>
          (let r = \<lparr>rec_Created = now_text, rec_OwnerPID = self_pid h, rec_DataPath = [],
                     rec_OwnsDataPath = False, rec_Servers = [],
                     rec_id = trimSuffix (trimPrefix (base lockPath) recordPrefix) ''.lock'',
                     rec_path = recordPathFor lockPath, rec_lock = lock\<rparr>
           in case save h r w3 of
             (Inl e, w4) \<Rightarrow> ((Some r, Some e), w4)
           | (Inr _, w4) \<Rightarrow> ((Some r, None), w4)))))"

text \<open>The methods take a pointer that may be nil; they return the record as they leave it.\<close>

definition setDataPath ::
  "host \<Rightarrow> string \<Rightarrow> bool \<Rightarrow> clusterRecord option \<Rightarrow> world \<Rightarrow> (unit result \<times> clusterRecord option) \<times> world" where
  "setDataPath h path owned r w =
    (case r of None \<Rightarrow> ((Inr (), None), w)
     | Some rc \<Rightarrow>
       (let rc' = rc\<lparr>rec_DataPath := path, rec_OwnsDataPath := owned\<rparr>
        in case save h rc' w of (res, w') \<Rightarrow> ((res, Some rc'), w')))"

definition addServer ::
  "host \<Rightarrow> string \<Rightarrow> int \<Rightarrow> string \<Rightarrow> clusterRecord option \<Rightarrow> world \<Rightarrow> (unit result \<times> clusterRecord option) \<times> world" where
  "addServer h name pid binary r w =
    (case r of None \<Rightarrow> ((Inr (), None), w)
     | Some rc \<Rightarrow>
       (let rc' = rc\<lparr>rec_Servers := rec_Servers rc @ [\<lparr>sr_Name = name, sr_PID = pid, sr_Binary = binary\<rparr>]\<rparr>
        in case save h rc' w of (res, w') \<Rightarrow> ((res, Some rc'), w')))"

definition close_record :: "host \<Rightarrow> clusterRecord option \<Rightarrow> world \<Rightarrow> world" where
  "close_record h r w =
    (case r of None \<Rightarrow> w
     | Some rc \<Rightarrow>
         snd (remove h (lockPathFor (rec_path rc))
           (snd (remove h (rec_path rc) (snd (release (rec_lock rc) w))))))"

definition abandon :: "clusterRecord option \<Rightarrow> world \<Rightarrow> world" where
  "abandon r w = (case r of None \<Rightarrow> w | Some rc \<Rightarrow> snd (release (rec_lock rc) w))"

subsection \<open>Which processes belong to a cluster\<close>

definition cmdlineReferences :: "string \<Rightarrow> string \<Rightarrow> bool" where
  "cmdlineReferences cmdline dataPath \<longleftrightarrow> dataPath \<noteq> [] \<and> contains cmdline (dataPath @ ''/'')"

definition processIsServer :: "host \<Rightarrow> int \<Rightarrow> string \<Rightarrow> string \<Rightarrow> world \<Rightarrow> bool \<times> world" where
  "processIsServer h pid binary dataPath w =
    (if pid \<le> 0 \<or> binary = [] \<or> dataPath = [] then (False, w)
     else case processCommandLine h pid w of
       (None, w1) \<Rightarrow> (False, w1)
     | (Some cmdline, w1) \<Rightarrow> (contains cmdline binary \<and> cmdlineReferences cmdline dataPath, w1))"

definition ownsDataDirName :: "string \<Rightarrow> bool" where
  "ownsDataDirName dataPath \<longleftrightarrow> dataPath \<noteq> [] \<and> hasPrefix (base dataPath) dataDirPrefix"

definition usedByLiveProcess :: "host \<Rightarrow> string \<Rightarrow> world \<Rightarrow> bool \<times> world" where
  "usedByLiveProcess h dataPath w =
    (if \<not> ownsDataDirName dataPath then (True, w)
     else case enumerateProcesses h w of
       (entries, w1) \<Rightarrow> (list_ex (\<lambda>e. cmdlineReferences (pe_cmdline e) dataPath) entries, w1))"

definition kill_entry :: "host \<Rightarrow> string \<Rightarrow> processEntry \<Rightarrow> world \<Rightarrow> world" where
  "kill_entry h dataPath e w =
    (if pe_pid e = self_pid h \<or> \<not> cmdlineReferences (pe_cmdline e) dataPath then w
     else snd (signalGroup h (pe_pid e) SIGKILL w))"

definition killProcessesUsing :: "host \<Rightarrow> string \<Rightarrow> world \<Rightarrow> world" where
  "killProcessesUsing h dataPath w =
    (if \<not> ownsDataDirName dataPath then w
     else case enumerateProcesses h w of (entries, w1) \<Rightarrow> forS entries (kill_entry h dataPath) w1)"

subsection \<open>The sweep\<close>

definition kill_server :: "host \<Rightarrow> string \<Rightarrow> serverRecord \<Rightarrow> world \<Rightarrow> world" where
  "kill_server h dataPath s w =
    (case processIsServer h (sr_PID s) (sr_Binary s) dataPath w of
      (True, w1) \<Rightarrow> snd (signalGroup h (sr_PID s) SIGKILL w1) | (False, w1) \<Rightarrow> w1)"

text \<open>The part of \<open>reclaimRecord\<close> that runs with the lock in hand.\<close>

definition reclaim_locked :: "host \<Rightarrow> string \<Rightarrow> world \<Rightarrow> bool \<times> world" where
  "reclaim_locked h path w =
    (case readFile h path w of
      Inl e \<Rightarrow> (False, w)
    | Inr raw \<Rightarrow>
      (case decode_record raw of
        None \<Rightarrow> (False, snd (remove h (lockPathFor path) (snd (remove h path w))))
      | Some r \<Rightarrow>
        (let w1 = forS (rec_Servers r) (kill_server h (rec_DataPath r)) w;
             w2 = (if rec_OwnsDataPath r then killProcessesUsing h (rec_DataPath r) w1 else w1);
             w3 = (if rec_OwnsDataPath r \<and> rec_DataPath r \<noteq> []
                   then snd (removeAll h (rec_DataPath r) w2) else w2)
         in (True, snd (remove h (lockPathFor path) (snd (remove h path w3)))))))"

definition reclaimRecord :: "host \<Rightarrow> string \<Rightarrow> world \<Rightarrow> bool \<times> world" where
  "reclaimRecord h path =
    guarded (tryLock h (lockPathFor path))
      (\<lambda>lock w. case reclaim_locked h path w of (ok, w') \<Rightarrow> (ok, unlock lock w'))"

text \<open>A loop that counts the bodies that report success.\<close>

fun count_loop :: "('a \<Rightarrow> 's \<Rightarrow> bool \<times> 's) \<Rightarrow> 'a list \<Rightarrow> 's \<Rightarrow> nat \<times> 's" where
  "count_loop f [] s = (0, s)"
| "count_loop f (x # xs) s =
    (case f x s of (ok, s1) \<Rightarrow> (case count_loop f xs s1 of (n, s2) \<Rightarrow> (if ok then Suc n else n, s2)))"

text \<open>The entries of a directory that are files with this ending, as one \<open>ReadDir\<close> saw them.\<close>

definition files_ending :: "world \<Rightarrow> string \<Rightarrow> string \<Rightarrow> string list \<Rightarrow> string list" where
  "files_ending w dir e names =
    map (\<lambda>n. path_join [dir, n]) (filter (\<lambda>n. \<not> is_dir w (dir @ ''/'' @ n) \<and> hasSuffix n e) names)"

definition sweepRecords :: "host \<Rightarrow> string \<Rightarrow> world \<Rightarrow> nat \<times> world" where
  "sweepRecords h dir w =
    (case readDir h dir w of
      Inl e \<Rightarrow> (0, w)
    | Inr names \<Rightarrow> count_loop (reclaimRecord h) (files_ending w dir ''.json'' names) w)"

definition mod_time :: "host \<Rightarrow> string \<Rightarrow> world \<Rightarrow> int option" where
  "mod_time h p w =
    (if io_fault h OpInfo p \<noteq> None then None
     else case lookup w p of Some (Directory t) \<Rightarrow> Some t | _ \<Rightarrow> None)"

text \<open>
  May the data directory of this id be reclaimed? One with a record is left to the first pass,
  one with a lock to its lock, and one with neither must be old and in nobody's use.
\<close>

definition may_reclaim_dir :: "host \<Rightarrow> string \<Rightarrow> string \<Rightarrow> world \<Rightarrow> bool \<times> world" where
  "may_reclaim_dir h dataPath lockPath w =
    (case stat h (recordPathFor lockPath) w of
      Inr _ \<Rightarrow> (False, w)
    | Inl _ \<Rightarrow>
      (case stat h lockPath w of
        Inr _ \<Rightarrow> guarded (tryLock h lockPath) (\<lambda>lock w1. (True, unlock lock w1)) w
      | Inl _ \<Rightarrow>
        (case mod_time h dataPath w of
          None \<Rightarrow> (False, w)
        | Some t \<Rightarrow>
            if now w - t < orphanGracePeriod then (False, w)
            else (case usedByLiveProcess h dataPath w of (used, w1) \<Rightarrow> (\<not> used, w1)))))"

definition reclaim_dir :: "host \<Rightarrow> string \<Rightarrow> string \<Rightarrow> world \<Rightarrow> bool \<times> world" where
  "reclaim_dir h registry name w =
    (let i = trimPrefix name dataDirPrefix;
         dataPath = path_join [tmp_dir h, name];
         lockPath = path_join [registry, recordPrefix @ i @ ''.lock'']
     in case may_reclaim_dir h dataPath lockPath w of
       (False, w1) \<Rightarrow> (False, w1)
     | (True, w1) \<Rightarrow>
         (True, snd (remove h lockPath (snd (removeAll h dataPath (killProcessesUsing h dataPath w1))))))"

definition sweepDataDirectories :: "host \<Rightarrow> string \<Rightarrow> world \<Rightarrow> nat \<times> world" where
  "sweepDataDirectories h registry w =
    (case readDir h (tmp_dir h) w of
      Inl e \<Rightarrow> (0, w)
    | Inr names \<Rightarrow>
        count_loop (reclaim_dir h registry)
          (filter (\<lambda>n. is_dir w (tmp_dir h @ ''/'' @ n) \<and> hasPrefix n dataDirPrefix) names) w)"

definition drop_stale_lock :: "host \<Rightarrow> string \<Rightarrow> world \<Rightarrow> world" where
  "drop_stale_lock h lockPath w =
    (case stat h (recordPathFor lockPath) w of
      Inr _ \<Rightarrow> w
    | Inl _ \<Rightarrow>
        snd (guarded (tryLock h lockPath)
          (\<lambda>lock w1. (True, snd (remove h lockPath (unlock lock w1)))) w))"

definition sweepStaleLocks :: "host \<Rightarrow> string \<Rightarrow> world \<Rightarrow> world" where
  "sweepStaleLocks h dir w =
    (case readDir h dir w of
      Inl e \<Rightarrow> w
    | Inr names \<Rightarrow> forS (files_ending w dir ''.lock'' names) (drop_stale_lock h) w)"

definition CleanOrphans :: "host \<Rightarrow> Config \<Rightarrow> nat io" where
  "CleanOrphans h cfg =
    seqE (registryDir h cfg)
      (\<lambda>dir w.
        (case sweepRecords h dir w of (n, w1) \<Rightarrow>
          (case sweepDataDirectories h dir w1 of (m, w2) \<Rightarrow>
            (Inr (n + m), sweepStaleLocks h dir w2))))"

end
