(* ===== verification/Registry_Records.thy ===== *)
theory Registry_Records
  imports Registry
begin

text \<open>
  Records on disk: the names that tie a record to its lock and its data directory, the round
  trip of the JSON form, the atomicity of \<open>save\<close>, and what \<open>openRecord\<close> leaves behind.
\<close>

subsection \<open>Names\<close>

lemma recordPathFor_lock [simp]: "recordPathFor (x @ ''.lock'') = x @ ''.json''"
  by (simp add: recordPathFor_def)

lemma lockPathFor_json [simp]: "lockPathFor (x @ ''.json'') = x @ ''.lock''"
  by (simp add: lockPathFor_def)

subsection \<open>The JSON form\<close>

lemma json_ok_encode: "json_ok (encode_record r)"
  by (auto simp: encode_record_def encode_server_def itoa_number_ok)

definition int64 :: "int \<Rightarrow> bool" where
  "int64 i \<longleftrightarrow> - (2 ^ 63) \<le> i \<and> i < 2 ^ 63"

lemma atoi_itoa64: "int64 i \<Longrightarrow> atoi (itoa i) = Some i"
  by (simp add: int64_def atoi_itoa)

lemma toLower_names [simp]:
  "toLower ''name'' = ''name''" "toLower ''pid'' = ''pid''" "toLower ''binary'' = ''binary''"
  "toLower ''created'' = ''created''" "toLower ''owner_pid'' = ''owner_pid''"
  "toLower ''data_path'' = ''data_path''" "toLower ''owns_data_path'' = ''owns_data_path''"
  "toLower ''servers'' = ''servers''"
  by (simp_all add: toLower_def lower_char_def)

lemma decode_encode_server: "int64 (sr_PID s) \<Longrightarrow> decode_server (encode_server s) = Some s"
  by (simp add: decode_server_def encode_server_def server_field_def atoi_itoa64 zero_server_def)

lemma decode_all_encode:
  "list_all (\<lambda>s. int64 (sr_PID s)) ss \<Longrightarrow> decode_all decode_server (map encode_server ss) = Some ss"
  by (induction ss) (auto simp: decode_encode_server)

text \<open>The values Go can hold: 64-bit process ids, and a creation time in RFC 3339.\<close>

definition record_ok :: "clusterRecord \<Rightarrow> bool" where
  "record_ok r \<longleftrightarrow> is_rfc3339 (rec_Created r) \<and> int64 (rec_OwnerPID r) \<and>
    list_all (\<lambda>s. int64 (sr_PID s)) (rec_Servers r)"

text \<open>What of a record is serialised.\<close>

definition on_disk :: "clusterRecord \<Rightarrow> clusterRecord" where
  "on_disk r = r\<lparr>rec_id := [], rec_path := [], rec_lock := None\<rparr>"

definition record_text :: "clusterRecord \<Rightarrow> string" where
  "record_text r = marshalIndent (encode_record r)"

lemma decode_record_text:
  assumes "record_ok r"
  shows "decode_record (record_text r) = Some (on_disk r)"
proof -
  have "unmarshal (record_text r) = Some (encode_record r)"
    unfolding record_text_def by (rule unmarshal_marshal [OF json_ok_encode])
  then show ?thesis
    using assms decode_all_encode [of "rec_Servers r"]
    by (simp add: decode_record_def encode_record_def record_field_def record_ok_def atoi_itoa64
        on_disk_def zero_record_def)
qed

subsection \<open>The contents of the files\<close>

definition file_text :: "world \<Rightarrow> string \<Rightarrow> string option" where
  "file_text w p = (case lookup w p of Some (Regular _ s _) \<Rightarrow> Some s | _ \<Rightarrow> None)"

lemma file_text_touch [simp]: "file_text (touch d w) = file_text w"
  by (rule ext) (auto simp: file_text_def lookup_touch split: option.split node.split)

lemma file_text_put [simp]: "file_text (put_node p (Regular i s x) w) = (file_text w)(p \<mapsto> s)"
  by (rule ext) (simp add: file_text_def lookup_put_node)

lemma file_text_add [simp]: "file_text (add_entry p (Regular i s x) w) = (file_text w)(p \<mapsto> s)"
  by (simp add: add_entry_def)

lemma file_text_drop [simp]:
  "file_text (drop_entries P w) = (\<lambda>p. if P p then None else file_text w p)"
  by (rule ext) (simp add: file_text_def lookup_drop_entries)

lemma file_text_update [simp]:
  "file_text (w\<lparr>draws := k\<rparr>) = file_text w" "file_text (w\<lparr>next_ino := i\<rparr>) = file_text w"
  "file_text (w\<lparr>locks := ls\<rparr>) = file_text w" "file_text (w\<lparr>next_fd := f\<rparr>) = file_text w"
  by (rule ext, simp add: file_text_def)+

lemma file_text_new [simp]: "file_text (new_file p s x w) = (file_text w)(p \<mapsto> s)"
  by (simp add: new_file_def)

lemma file_text_absent: "\<not> exists_at w p \<Longrightarrow> file_text w p = None"
  by (simp add: exists_at_def file_text_def)

lemma file_text_SomeE:
  assumes "file_text w p = Some t"
  obtains i x where "lookup w p = Some (Regular i t x)"
  using assms by (auto simp: file_text_def split: option.splits node.splits)

lemma file_text_writeFd:
  assumes "writeFd h p s w = (Inr u, w')" "file_text w p = Some t"
  shows "file_text w' = (file_text w)(p \<mapsto> t @ s)"
proof -
  from assms(2) obtain i x where "lookup w p = Some (Regular i t x)" by (rule file_text_SomeE)
  then have app: "append_text p s w = put_node p (Regular i (t @ s) x) w" by (simp add: append_text_def)
  from assms(1) have w': "w' = append_text p s w" by (auto simp: writeFd_def split: option.splits)
  show ?thesis unfolding w' app by simp
qed

lemma writeFd_Inl: "writeFd h p s w = (Inl e, w') \<Longrightarrow> w' = w"
  by (auto simp: writeFd_def split: option.splits)

lemma closeFd_world: "snd (closeFd h p w) = w"
  by (simp add: closeFd_def split: option.split)

lemma file_text_remove: "q \<noteq> p \<Longrightarrow> file_text (snd (remove h p w)) q = file_text w q"
  by (auto simp: remove_def split: option.split node.split)

lemma file_text_rename:
  assumes "rename h p q w = (Inr u, w')" "p \<noteq> q"
  shows "file_text w' = (file_text w)(q := file_text w p, p := None)"
proof -
  from assms(1) obtain i s x where src: "lookup w p = Some (Regular i s x)"
    by (auto simp: rename_def Let_def split: option.splits node.splits)
  with assms(1) have "w' = touch (parent p) (drop_entries (\<lambda>r. r = p \<and> p \<noteq> q) (add_entry q (Regular i s x) w))"
    by (auto simp: rename_def Let_def split: option.splits if_splits)
  moreover have "file_text w p = Some s" using src by (simp add: file_text_def)
  ultimately show ?thesis using assms(2) by (auto simp: fun_eq_iff)
qed

lemma rename_Inl: "rename h p q w = (Inl e, w') \<Longrightarrow> w' = w"
  by (auto simp: rename_def Let_def split: option.splits node.splits if_splits)

text \<open>The name of a temporary file next to the record.\<close>

definition temp_name :: "clusterRecord \<Rightarrow> string \<Rightarrow> bool" where
  "temp_name r p \<longleftrightarrow> hasPrefix p (dir_of (rec_path r) @ ''/.tmp-'')"

lemma save_effect:
  assumes not_temp: "\<not> temp_name r (rec_path r)"
  shows "(case save h r w of
      (Inr _, w') \<Rightarrow> file_text w' = (file_text w)(rec_path r \<mapsto> record_text r)
    | (Inl _, w') \<Rightarrow> \<forall>p. temp_name r p \<or> file_text w' p = file_text w p)"
proof -
  obtain res1 w1 where c: "createTemp h (dir_of (rec_path r)) ''.tmp-'' [] w = (res1, w1)" by fastforce
  show ?thesis
  proof (cases res1)
    case (Inl e)
    with c obtain k where "w1 = w\<lparr>draws := k\<rparr>" by (auto elim: createTemp_Inl)
    with c Inl show ?thesis by (simp add: save_def Let_def seqE_def wrapE_def)
  next
    case (Inr t)
    from c [unfolded Inr] obtain k x where t: "temp_name r t"
      and w1: "w1 = new_file t [] False (w\<lparr>draws := k\<rparr>)" and new: "\<not> exists_at w t"
      by (rule createTemp_Inr) (auto simp: temp_name_def hasPrefix_iff)
    have ft1: "file_text w1 = (file_text w)(t \<mapsto> [])" by (simp add: w1)
    have ne: "t \<noteq> rec_path r" using t not_temp by blast
    have save: "save h r w = (case writeFd h t (record_text r) w1 of
        (Inl e, w1) \<Rightarrow> (Inl (save_error e), snd (remove h t (snd (closeFd h t w1))))
      | (Inr _, w1) \<Rightarrow>
          (case closeFd h t w1 of
            (Inl e, w2) \<Rightarrow> (Inl e, snd (remove h t w2))
          | (Inr _, w2) \<Rightarrow> rename h t (rec_path r) w2))"
      using c Inr by (simp add: save_def Let_def seqE_def wrapE_def record_text_def)
    obtain res2 w2 where wr: "writeFd h t (record_text r) w1 = (res2, w2)" by fastforce
    show ?thesis
    proof (cases res2)
      case (Inl e)
      with wr have "w2 = w1" by (simp add: writeFd_Inl)
      moreover have "temp_name r p \<or> file_text (snd (remove h t w1)) p = file_text w p" for p
        using t file_text_remove [of p t h w1] by (cases "p = t") (auto simp: ft1)
      ultimately show ?thesis by (simp add: save wr Inl closeFd_world)
    next
      case (Inr u)
      have ft2: "file_text w2 = (file_text w)(t \<mapsto> record_text r)"
        using file_text_writeFd [OF wr [unfolded Inr], of "[]"] by (simp add: ft1)
      obtain res3 w3 where cl: "closeFd h t w2 = (res3, w3)" by fastforce
      then have w3: "w3 = w2" using closeFd_world [of h t w2] by simp
      show ?thesis
      proof (cases res3)
        case (Inl e)
        have "temp_name r p \<or> file_text (snd (remove h t w2)) p = file_text w p" for p
          using t file_text_remove [of p t h w2] by (cases "p = t") (auto simp: ft2)
        then show ?thesis by (simp add: save wr Inr cl Inl w3)
      next
        case (Inr v)
        obtain res4 w4 where rn: "rename h t (rec_path r) w2 = (res4, w4)" by fastforce
        have eq: "save h r w = (res4, w4)"
          by (simp add: save wr \<open>res2 = Inr u\<close> cl Inr w3 rn)
        show ?thesis
        proof (cases res4)
          case (Inl e)
          with rn have "w4 = w2" by (simp add: rename_Inl)
          with t show ?thesis by (auto simp: eq Inl ft2)
        next
          case (Inr x)
          from file_text_rename [OF rn [unfolded Inr] ne]
          have "file_text w4 = (file_text w)(rec_path r \<mapsto> record_text r)"
            using file_text_absent [OF new] ne by (auto simp: ft2 fun_eq_iff)
          then show ?thesis by (simp add: eq Inr)
        qed
      qed
    qed
  qed
qed


subsection \<open>What the operations on a record leave alone\<close>

lemma parent_append: "abs_dir d \<Longrightarrow> component n \<Longrightarrow> parent (d @ ''/'' @ n) = d"
  by (erule abs_dirE)
    (simp add: parent_def split_on_append_sep split_on_no_sep component_def join_Cons)

lemma create_temp_name:
  "create_temp h dir pre suf n w = (Inr p, w') \<Longrightarrow> \<exists>k. p = dir @ ''/'' @ pre @ random_name h k @ suf"
proof (induction h dir pre suf n w arbitrary: w' rule: create_temp.induct)
  case (1 h dir pre suf n w)
  define p1 where "p1 = dir @ ''/'' @ pre @ random_name h (draws w) @ suf"
  obtain res w2 where c: "create_excl h p1 (w\<lparr>draws := Suc (draws w)\<rparr>) = (res, w2)" by fastforce
  note step = "1.prems" [unfolded create_temp.simps [of h dir pre suf n w] Let_def, folded p1_def, unfolded c]
  show ?case
  proof (cases res)
    case (Inl e)
    show ?thesis
    proof (cases "e = EEXIST \<and> 1 < n")
      case True
      with step Inl have "create_temp h dir pre suf (n - 1) w2 = (Inr p, w')" by simp
      then show ?thesis using "1.IH" [OF p1_def refl c [symmetric] Inl True] by blast
    next
      case False
      with step Inl show ?thesis by (auto split: if_splits)
    qed
  next
    case (Inr u)
    with step show ?thesis by (auto simp: p1_def)
  qed
qed

lemma createTemp_name:
  "createTemp h dir pre suf w = (Inr p, w') \<Longrightarrow> \<exists>k. p = dir @ ''/'' @ pre @ random_name h k @ suf"
  unfolding createTemp_def by (rule create_temp_name)

text \<open>Random names are the decimal numbers Go draws; all that matters is that they have no slash.\<close>

definition names_ok :: "host \<Rightarrow> bool" where
  "names_ok h \<longleftrightarrow> (\<forall>k. CHR ''/'' \<notin> set (random_name h k))"

definition is_temp :: "host \<Rightarrow> clusterRecord \<Rightarrow> string \<Rightarrow> bool" where
  "is_temp h r t \<longleftrightarrow> (\<exists>k. t = dir_of (rec_path r) @ ''/'' @ ''.tmp-'' @ random_name h k)"

lemma stays_save:
  assumes "frame R" "stays R (createTemp h (dir_of (rec_path r)) ''.tmp-'' [])"
    and ops: "\<And>t x. is_temp h r t \<Longrightarrow> stays R (writeFd h t x)" "\<And>t. stays R (closeFd h t)"
      "\<And>t. is_temp h r t \<Longrightarrow> stays R (remove h t)"
      "\<And>t. is_temp h r t \<Longrightarrow> stays R (rename h t (rec_path r))"
  shows "stays R (save h r)"
proof (rule staysI)
  fix w
  note trans = frame.frame_trans [OF assms(1)]
  obtain res w0 where c: "createTemp h (dir_of (rec_path r)) ''.tmp-'' [] w = (res, w0)" by fastforce
  with assms(2) have R0: "R w w0" by (rule staysE)
  show "R w (snd (save h r w))"
  proof (cases res)
    case (Inl e)
    with R0 c show ?thesis by (simp add: save_def seqE_def wrapE_def)
  next
    case (Inr t)
    from createTemp_name [OF c [unfolded Inr]] have t: "is_temp h r t" by (simp add: is_temp_def)
    obtain r1 w1 where 1: "writeFd h t (marshalIndent (encode_record r)) w0 = (r1, w1)" by fastforce
    obtain r2 w2 where 2: "closeFd h t w1 = (r2, w2)" by fastforce
    have w2: "R w w2" using trans trans [OF R0 staysE [OF ops(1) [OF t] 1]] staysE [OF ops(2) 2] by blast
    have "R w (snd (remove h t w2))" "R w (snd (rename h t (rec_path r) w2))"
      using trans [OF w2] ops(3,4) [OF t] by (blast intro: staysD)+
    with c Inr 1 2 show ?thesis by (cases r1; cases r2) (auto simp: save_def seqE_def wrapE_def)
  qed
qed

lemma same_rest_save: "stays same_rest (save h r)"
  by (rule stays_save [OF rest.frame_axioms]) (rule same_rest_createTemp same_rest_ops)+

lemma same_files_createTemp:
  assumes "\<And>k. \<not> S (dir @ ''/'' @ pre @ random_name h k @ suf)"
    "\<And>k. \<not> S (parent (dir @ ''/'' @ pre @ random_name h k @ suf))"
  shows "stays (same_files S) (createTemp h dir pre suf)"
proof (rule staysI)
  fix w
  obtain res w' where c: "createTemp h dir pre suf w = (res, w')" by fastforce
  show "same_files S w (snd (createTemp h dir pre suf w))"
  proof (cases res)
    case (Inl e)
    with c show ?thesis by (auto simp: same_files_def elim: createTemp_Inl)
  next
    case (Inr p)
    with createTemp_name c assms have "\<not> S p" "\<not> S (parent p)" by blast+
    with c Inr show ?thesis by (auto elim!: createTemp_Inr intro: same_files_new)
  qed
qed

lemma component_temp: "names_ok h \<Longrightarrow> component (''.tmp-'' @ random_name h k)"
  by (simp add: component_def names_ok_def)

lemma same_files_save:
  assumes "names_ok h" "rec_path r = d @ ''/'' @ f" "abs_dir d" "component f"
    and keep: "\<not> S d" "\<not> S (rec_path r)" "\<And>t. is_temp h r t \<Longrightarrow> \<not> S t"
  shows "stays (same_files S) (save h r)"
proof -
  have d: "dir_of (rec_path r) = d" "parent (rec_path r) = d"
    using assms(2-4) by (simp_all add: dir_of_append parent_append del: append.simps)
  have t: "\<not> S t" "parent t = d" if "is_temp h r t" for t
    using that keep component_temp [OF assms(1)] parent_append [OF assms(3)]
    by (auto simp: is_temp_def d simp del: append.simps)
  have tk: "is_temp h r (d @ ''/'' @ ''.tmp-'' @ random_name h k @ [])" for k
    by (auto simp: is_temp_def d)
  show ?thesis
  proof (rule stays_save [OF tree.frame_axioms])
    show "stays (same_files S) (createTemp h (dir_of (rec_path r)) ''.tmp-'' [])"
      using t tk keep by (intro same_files_createTemp) (simp_all only: d, blast+)
  qed (use t keep d in \<open>auto intro!: same_files_writeFd same_files_closeFd same_files_remove
        same_files_rename\<close>)
qed


subsection \<open>Claiming an identity\<close>

text \<open>The record and the lock of a cluster, by its id, in a registry directory.\<close>

definition record_path :: "string \<Rightarrow> string \<Rightarrow> string" where
  "record_path reg i = reg @ ''/'' @ ''cluster-'' @ i @ ''.json''"

definition lock_path :: "string \<Rightarrow> string \<Rightarrow> string" where
  "lock_path reg i = reg @ ''/'' @ ''cluster-'' @ i @ ''.lock''"

lemma component_record: "CHR ''/'' \<notin> set i \<Longrightarrow> component (''cluster-'' @ i @ ''.json'')"
  by (simp add: component_def)

lemma component_lock: "CHR ''/'' \<notin> set i \<Longrightarrow> component (''cluster-'' @ i @ ''.lock'')"
  by (simp add: component_def)

lemma recordPathFor_path [simp]: "recordPathFor (lock_path reg i) = record_path reg i"
  using recordPathFor_lock [of "reg @ ''/'' @ ''cluster-'' @ i"] by (simp add: lock_path_def record_path_def)

lemma lockPathFor_path [simp]: "lockPathFor (record_path reg i) = lock_path reg i"
  using lockPathFor_json [of "reg @ ''/'' @ ''cluster-'' @ i"] by (simp add: lock_path_def record_path_def)

lemma paths_inject [simp]:
  "record_path reg i = record_path reg j \<longleftrightarrow> i = j" "lock_path reg i = lock_path reg j \<longleftrightarrow> i = j"
  by (simp_all add: record_path_def lock_path_def)

lemma record_not_lock: "record_path reg i \<noteq> lock_path reg j"
proof
  assume "record_path reg i = lock_path reg j"
  then have "last (record_path reg i) = last (lock_path reg j)" by simp
  then show False by (simp add: record_path_def lock_path_def)
qed

lemma id_of_lock_path:
  "CHR ''/'' \<notin> set i \<Longrightarrow> trimSuffix (trimPrefix (base (lock_path reg i)) recordPrefix) ''.lock'' = i"
  using base_append [OF component_lock, of i reg] trimPrefix_append [of "''cluster-''" "i @ ''.lock''"]
  by (simp add: lock_path_def recordPrefix_def del: append.simps trimPrefix_append)

text \<open>Nothing that exists disappears, and fresh inodes stay fresh.\<close>

definition grows :: "world \<Rightarrow> world \<Rightarrow> bool" where
  "grows w w' \<longleftrightarrow> (\<forall>p. exists_at w p \<longrightarrow> exists_at w' p) \<and> (fresh_ok w \<longrightarrow> fresh_ok w')"

interpretation growth: frame grows
  by unfold_locales (auto simp: grows_def)

lemma add_entry_select [simp]:
  "locks (add_entry p n w) = locks w" "next_ino (add_entry p n w) = next_ino w"
  "next_fd (add_entry p n w) = next_fd w"
  by (simp_all add: add_entry_def put_node_def touch_def split: option.split node.split)

lemma exists_at_put [simp]: "exists_at (put_node p n w) q \<longleftrightarrow> q = p \<or> exists_at w q"
  by (simp add: exists_at_def lookup_put_node)

lemma exists_at_add [simp]: "exists_at (add_entry p n w) q \<longleftrightarrow> q = p \<or> exists_at w q"
  by (simp add: add_entry_def)

lemma lookup_add_Regular:
  "lookup (add_entry p n w) q = Some (Regular i s x) \<longleftrightarrow>
    (if q = p then n = Regular i s x else lookup w q = Some (Regular i s x))"
  by (simp add: add_entry_def lookup_put_node)

lemma grows_mkdirAll: "stays grows (mkdirAll h d)"
proof -
  have new: "grows w (add_entry d (Directory t) w)" for w d t
    by (auto simp: grows_def fresh_ok_def lookup_add_Regular split: if_splits) blast
  then have one: "stays grows (mkdir_one d)" for d
    by (auto simp: stays_def mkdir_one_def exists_at_def growth.frame_refl)
  show ?thesis
  proof (rule staysI)
    fix w
    have "stays grows (forE (dir_chain (clean d)) mkdir_one)" by (intro growth.stays_forE one)
    then show "grows w (snd (mkdirAll h d w))"
      by (auto simp: mkdirAll_def growth.frame_refl split: option.splits dest: staysD)
  qed
qed

lemma grows_registryDir: "stays grows (registryDir h cfg)"
  unfolding registryDir_def Let_def
  by (intro growth.stays_combinators grows_mkdirAll)

lemma same_rest_registryDir: "stays same_rest (registryDir h cfg)"
  unfolding registryDir_def Let_def
  by (intro rest.stays_combinators same_rest_mkdirAll)

lemma registryDir_Inr: "registryDir h cfg w = (Inr d, w') \<Longrightarrow> d = registry_path h cfg"
  by (auto simp: registryDir_def Let_def seqE_eq_Inr)

text \<open>The lock of a new cluster: on a file that was not there, so nobody else can hold it.\<close>

definition claims :: "host \<Rightarrow> Config \<Rightarrow> world \<Rightarrow> clusterRecord \<Rightarrow> world \<Rightarrow> bool" where
  "claims h cfg w r w' \<longleftrightarrow>
    (let reg = registry_path h cfg; i = rec_id r
     in CHR ''/'' \<notin> set i \<and> rec_path r = record_path reg i \<and> rec_OwnerPID r = self_pid h \<and>
        \<not> exists_at w (lock_path reg i) \<and>
        (case rec_lock r of None \<Rightarrow> False | Some l \<Rightarrow> holds_lock w' (lock_path reg i) l))"

lemma acquire_new_lock:
  assumes "acquireFileLock h p True True (new_file p [] False w) = (res, w')" "fresh_ok w"
  shows "(case res of
      Inl _ \<Rightarrow> locks w' = locks w
    | Inr None \<Rightarrow> False
    | Inr (Some l) \<Rightarrow> holds_lock w' p l)"
proof -
  let ?w = "new_file p [] False w"
  have l: "lookup ?w p = Some (Regular (next_ino w) [] False)"
    using lookup_add_Regular [of p "Regular (next_ino w) [] False" w p] by (simp add: new_file_def)
  have free: "locks ?w = locks w" "locks w (next_ino w) = None"
    using assms(2) by (simp_all add: new_file_def fresh_ok_def)
  show ?thesis
  proof (cases "io_fault h OpOpen p")
    case (Some e)
    with assms(1) free show ?thesis by (auto simp: acquireFileLock_def open_rdwr_def)
  next
    case None
    with l have o: "open_rdwr h p True ?w = (Inr (next_fd ?w, next_ino w), ?w\<lparr>next_fd := Suc (next_fd ?w)\<rparr>)"
      by (simp add: open_rdwr_def)
    show ?thesis
    proof (cases "io_fault h OpFlock p")
      case (Some e)
      with assms(1) free o show ?thesis by (auto simp: acquireFileLock_def flock_ex_def)
    next
      case None
      with assms(1) free o l show ?thesis
        by (auto simp: acquireFileLock_def flock_ex_def holds_lock_def)
    qed
  qed
qed

lemma save_keeps_lock:
  assumes "names_ok h" "abs_dir reg" "CHR ''/'' \<notin> set i" "rec_path r = record_path reg i"
    "save h r w = (res, w')"
  shows "holds_lock w' (lock_path reg i) l = holds_lock w (lock_path reg i) l"
proof -
  let ?p = "lock_path reg i"
  have dir: "dir_of (rec_path r) = reg"
    using dir_of_append [OF assms(2) component_record [OF assms(3)]] assms(4) by (simp add: record_path_def)
  have "stays (same_files (\<lambda>p. p = ?p)) (save h r)"
  proof (rule same_files_save [OF assms(1) _ assms(2) component_record [OF assms(3)]])
    show "rec_path r = reg @ ''/'' @ ''cluster-'' @ i @ ''.json''"
      using assms(4) by (simp add: record_path_def)
    show "reg \<noteq> ?p" "rec_path r \<noteq> ?p"
      using record_not_lock assms(4) by (auto simp: lock_path_def)
    show "t \<noteq> ?p" if "is_temp h r t" for t
      using that by (auto simp: is_temp_def dir lock_path_def)
  qed
  then have "lookup w' ?p = lookup w ?p" using assms(5) by (blast dest: staysE same_filesD)
  moreover have "locks w' = locks w"
    using assms(5) same_rest_save by (blast dest: staysE same_restD)
  ultimately show ?thesis by (simp add: holds_lock_def split: option.split node.split)
qed

text \<open>Making directories changes the text of no file.\<close>

definition same_text :: "world \<Rightarrow> world \<Rightarrow> bool" where
  "same_text w w' \<longleftrightarrow> file_text w' = file_text w"

interpretation texts: frame same_text
  by unfold_locales (auto simp: same_text_def)

lemma file_text_new_dir: "\<not> exists_at w d \<Longrightarrow> file_text (add_entry d (Directory t) w) = file_text w"
  by (rule ext) (simp add: file_text_def add_entry_def lookup_touch lookup_put_node exists_at_def split: option.split node.split)

lemma same_text_mkdirAll: "stays same_text (mkdirAll h d)"
proof (rule staysI)
  fix w
  have "stays same_text (mkdir_one p)" for p
    by (auto simp: stays_def mkdir_one_def same_text_def file_text_new_dir)
  then have "stays same_text (forE (dir_chain (clean d)) mkdir_one)" by (intro texts.stays_forE)
  then show "same_text w (snd (mkdirAll h d w))"
    by (auto simp: mkdirAll_def texts.frame_refl split: option.splits dest: staysD)
qed

lemma same_text_registryDir: "stays same_text (registryDir h cfg)"
  unfolding registryDir_def Let_def
  by (intro texts.stays_combinators same_text_mkdirAll)

lemma createTemp_Inl_text: "createTemp h d pre suf w = (Inl e, w') \<Longrightarrow> file_text w' = file_text w"
  using create_temp_cases [of h d pre suf 10000 w] by (auto simp: createTemp_def)

lemma file_text_removed:
  assumes "file_text w p = Some s" "io_fault h OpRemove p = None"
  shows "file_text (snd (remove h p w)) p = None"
proof -
  from assms(1) obtain i x where "lookup w p = Some (Regular i s x)" by (rule file_text_SomeE)
  with assms(2) show ?thesis by (simp add: remove_def)
qed

text \<open>The lock file of a new cluster is opened and locked as it is, and an error leaves it there.\<close>

lemma open_new_file:
  "open_rdwr h p True (new_file p [] False w) =
    (case io_fault h OpOpen p of
      Some e \<Rightarrow> (Inl e, new_file p [] False w)
    | None \<Rightarrow> (Inr (next_fd w, next_ino w), (new_file p [] False w)\<lparr>next_fd := Suc (next_fd w)\<rparr>))"
proof -
  have "lookup (new_file p [] False w) p = Some (Regular (next_ino w) [] False)"
    using lookup_add_Regular [of p "Regular (next_ino w) [] False" w p] by (simp add: new_file_def)
  moreover have "next_fd (new_file p [] False w) = next_fd w" by (simp add: new_file_def)
  ultimately show ?thesis by (simp add: open_rdwr_def split: option.split)
qed

lemma acquire_failed_text:
  "acquireFileLock h p True True (new_file p [] False w) = (Inl e, w') \<Longrightarrow> file_text w' = (file_text w)(p \<mapsto> [])"
  by (auto simp: acquireFileLock_def open_new_file flock_ex_def Let_def split: option.splits if_splits)

lemma acquired_text:
  "acquireFileLock h p True True (new_file p [] False w) = (Inr (Some l), w') \<Longrightarrow> fresh_ok w \<Longrightarrow>
    file_text w' = (file_text w)(p \<mapsto> [])"
proof -
  assume a: "acquireFileLock h p True True (new_file p [] False w) = (Inr (Some l), w')" and "fresh_ok w"
  then have "locks (new_file p [] False w) (next_ino w) = None" by (simp add: new_file_def fresh_ok_def)
  with a show ?thesis
    by (auto simp: acquireFileLock_def open_new_file flock_ex_def split: option.splits if_splits)
qed

text \<open>
  C7: what \<open>openRecord\<close> leaves behind, for every pattern of failing system calls. With a record
  and no error the lock of the new identity is held by this process on a file that was not
  there before, the record is on disk at the path that belongs to that lock, and the id ties
  the two together. With a record and an error, which is the first write of the record having failed, the lock is
  held all the same, and apart from the lock file and temporary ones every file is as it was. Without a record no
  lock is held that was not, and no file is left behind, but for a lock file whose removal has failed.
\<close>

theorem openRecord_claims:
  assumes "fresh_ok w" "abs_dir (registry_path h cfg)" "names_ok h"
  shows "(case openRecord h t cfg w of
      ((Some r, None), w') \<Rightarrow> claims h cfg w r w' \<and> file_text w' (rec_path r) = Some (record_text r)
    | ((Some r, Some _), w') \<Rightarrow> claims h cfg w r w' \<and>
        (\<forall>p. temp_name r p \<or> p = lock_path (registry_path h cfg) (rec_id r) \<or> file_text w' p = file_text w p)
    | ((None, Some _), w') \<Rightarrow> locks w' = locks w \<and>
        (\<forall>p. file_text w' p = file_text w p \<or> (\<exists>i. p = lock_path (registry_path h cfg) i) \<and> io_fault h OpRemove p \<noteq> None)
    | ((None, None), _) \<Rightarrow> False)"
proof -
  let ?reg = "registry_path h cfg"
  obtain res1 w1 where 1: "registryDir h cfg w = (res1, w1)" by fastforce
  have g1: "grows w w1" "locks w1 = locks w" "file_text w1 = file_text w"
    using staysE [OF grows_registryDir 1] same_restD(2) [OF staysE [OF same_rest_registryDir 1]]
      staysE [OF same_text_registryDir 1] by (auto simp: same_text_def)
  show ?thesis
  proof (cases res1)
    case (Inl e)
    with 1 g1 show ?thesis by (simp add: openRecord_def)
  next
    case (Inr d)
    with 1 registryDir_Inr have d: "d = ?reg" by blast
    obtain res2 w2 where 2: "createTemp h ?reg recordPrefix ''.lock'' w1 = (res2, w2)" by fastforce
    have l2: "locks w2 = locks w"
      using same_restD(2) [OF staysE [OF same_rest_createTemp 2]] g1 by simp
    show ?thesis
    proof (cases res2)
      case (Inl e)
      have "file_text w2 = file_text w" using createTemp_Inl_text [OF 2 [unfolded Inl]] g1 by simp
      with 1 2 Inr d l2 Inl show ?thesis by (simp add: openRecord_def)
    next
      case (Inr lp)
      from createTemp_name [OF 2 [unfolded Inr]] obtain k where
        lp: "lp = lock_path ?reg (random_name h k)"
        by (auto simp: lock_path_def recordPrefix_def)
      define i where "i = random_name h k"
      have i: "CHR ''/'' \<notin> set i" using assms(3) by (simp add: i_def names_ok_def)
      from 2 [unfolded Inr] obtain n where w2: "w2 = new_file lp [] False (w1\<lparr>draws := n\<rparr>)"
        and new: "\<not> exists_at w1 lp" by (rule createTemp_Inr)
      have fresh: "fresh_ok (w1\<lparr>draws := n\<rparr>)" using g1 assms(1) by (simp add: grows_def fresh_ok_def)
      have new: "\<not> exists_at w lp" using new g1 by (auto simp: grows_def)
      obtain res3 w3 where 3: "acquireFileLock h lp True True w2 = (res3, w3)" by fastforce
      note acq = acquire_new_lock [OF 3 [unfolded w2] fresh]
      show ?thesis
      proof (cases res3)
        case (Inl e)
        have "locks (snd (remove h lp w3)) = locks w3"
          using same_rest_ops(7) by (blast dest: staysD same_restD)
        moreover have "file_text w3 = (file_text w)(lp \<mapsto> [])"
          using acquire_failed_text [OF 3 [unfolded Inl w2]] g1 by simp
        then have "file_text (snd (remove h lp w3)) p = file_text w p \<or> p = lp \<and> io_fault h OpRemove p \<noteq> None" for p
          using file_text_remove [where q = p and p = lp and h = h and w = w3]
            file_text_removed [where p = lp and h = h and w = w3] file_text_absent [OF new]
          by (cases "p = lp") auto
        ultimately show ?thesis
          using 1 2 3 Inl \<open>res1 = Inr d\<close> \<open>res2 = Inr lp\<close> d acq g1 lp
          by (auto simp: openRecord_def)
      next
        case (Inr lo)
        then obtain l where lo: "lo = Some l" and held: "holds_lock w3 lp l" using acq by (cases lo) auto
        define r where "r = \<lparr>rec_Created = t, rec_OwnerPID = self_pid h, rec_DataPath = [],
          rec_OwnsDataPath = False, rec_Servers = [], rec_id = i, rec_path = record_path ?reg i,
          rec_lock = Some l\<rparr>"
        obtain res4 w4 where 4: "save h r w3 = (res4, w4)" by fastforce
        have "rec_path r = record_path ?reg i" by (simp add: r_def)
        from save_keeps_lock [OF assms(3,2) i this 4] held have "holds_lock w4 (lock_path ?reg i) l"
          by (simp add: lp i_def)
        then have claims: "claims h cfg w r w4"
          using i new by (simp add: claims_def Let_def r_def lp i_def)
        have eq: "openRecord h t cfg w =
            (case res4 of Inl e \<Rightarrow> ((Some r, Some e), w4) | Inr _ \<Rightarrow> ((Some r, None), w4))"
          using 1 2 3 4 \<open>res1 = Inr d\<close> \<open>res2 = Inr lp\<close> Inr d lo id_of_lock_path [OF i]
          by (simp add: openRecord_def Let_def lp i_def [symmetric] r_def split: sum.split)
        have "\<not> temp_name r (rec_path r)"
          using dir_of_append [OF assms(2) component_record [OF i]]
          by (simp add: temp_name_def r_def record_path_def hasPrefix_iff)
        note saved = save_effect [OF this, where h = h and w = w3]
        have "file_text w3 = (file_text w)(lp \<mapsto> [])"
          using acquired_text [OF 3 [unfolded Inr lo w2] fresh] g1 by simp
        then have "p = lock_path ?reg i \<or> file_text w3 p = file_text w p" for p by (simp add: lp i_def)
        moreover have "rec_id r = i" by (simp add: r_def)
        ultimately show ?thesis using saved claims
          by (cases res4) (simp_all add: eq 4, metis)
      qed
    qed
  qed
qed

lemma fresh_example: "fresh_ok example_world"
  by (simp add: fresh_ok_def example_world_def lookup_def)

lemma names_example: "names_ok example_host"
proof -
  have "CHR ''/'' \<notin> set (show_nat k)" for k using is_digit_show_nat is_digit_not(3) by blast
  then show ?thesis by (simp add: names_ok_def example_host_def)
qed

lemma registry_example: "abs_dir (registry_path example_host DefaultConfig)"
  by code_simp

text \<open>A machine on which \<open>flock\<close> fails.\<close>

definition no_flock_host :: host where
  "no_flock_host = example_host\<lparr>io_fault := (\<lambda>f p. if f = OpFlock then Some EACCES else None)\<rparr>"

lemma no_flock_example: "names_ok no_flock_host" "abs_dir (registry_path no_flock_host DefaultConfig)"
proof -
  show "names_ok no_flock_host" using names_example by (simp add: names_ok_def no_flock_host_def)
qed code_simp

theorem openRecord_claims_witness:
  "(\<exists>r w'. openRecord example_host ''2026-01-01T00:00:00Z'' DefaultConfig example_world = ((Some r, None), w') \<and>
      claims example_host DefaultConfig example_world r w' \<and> file_text w' (rec_path r) = Some (record_text r)) \<and>
    (\<exists>e w'. openRecord no_flock_host ''2026-01-01T00:00:00Z'' DefaultConfig example_world = ((None, Some e), w') \<and>
      locks w' = locks example_world \<and> (\<forall>p. file_text w' p = file_text example_world p))"
proof
  obtain r e w' where run: "openRecord example_host ''2026-01-01T00:00:00Z'' DefaultConfig example_world = ((r, e), w')"
    by (metis prod.exhaust)
  have "snd (fst (openRecord example_host ''2026-01-01T00:00:00Z'' DefaultConfig example_world)) = None" by code_simp
  with run have "e = None" by simp
  with run openRecord_claims [OF fresh_example registry_example names_example, of "''2026-01-01T00:00:00Z''"]
  show "\<exists>r w'. openRecord example_host ''2026-01-01T00:00:00Z'' DefaultConfig example_world = ((Some r, None), w') \<and>
      claims example_host DefaultConfig example_world r w' \<and> file_text w' (rec_path r) = Some (record_text r)"
    by (cases r) auto
next
  obtain r e w' where run: "openRecord no_flock_host ''2026-01-01T00:00:00Z'' DefaultConfig example_world = ((r, e), w')"
    by (metis prod.exhaust)
  have "fst (fst (openRecord no_flock_host ''2026-01-01T00:00:00Z'' DefaultConfig example_world)) = None" by code_simp
  with run have "r = None" by simp
  moreover have "io_fault no_flock_host OpRemove p = None" for p by (simp add: no_flock_host_def)
  ultimately show "\<exists>e w'. openRecord no_flock_host ''2026-01-01T00:00:00Z'' DefaultConfig example_world = ((None, Some e), w') \<and>
      locks w' = locks example_world \<and> (\<forall>p. file_text w' p = file_text example_world p)"
    using run openRecord_claims [OF fresh_example no_flock_example(2,1), of "''2026-01-01T00:00:00Z''"]
    by (cases e) auto
qed

definition example_record :: clusterRecord where
  "example_record = \<lparr>rec_Created = ''2026-01-01T00:00:00Z'', rec_OwnerPID = 100,
     rec_DataPath = ''/tmp/embedded-tikv-7'', rec_OwnsDataPath = True,
     rec_Servers = [\<lparr>sr_Name = ''pd'', sr_PID = 101, sr_Binary = ''/b/pd-server''\<rparr>],
     rec_id = ''7'', rec_path = ''/tmp/cluster-7.json'', rec_lock = None\<rparr>"



text \<open>
  C8: \<open>save\<close> replaces the record in one step. On success the contents of the file tree are
  what they were but for the record, which is complete; on an error every file but temporary
  ones is as it was, the old record included.
\<close>

theorem save_atomic:
  assumes "\<not> temp_name r (rec_path r)"
  shows "(case save h r w of
      (Inr _, w') \<Rightarrow> file_text w' = (file_text w)(rec_path r \<mapsto> marshalIndent (encode_record r))
    | (Inl _, w') \<Rightarrow> \<forall>p. temp_name r p \<or> file_text w' p = file_text w p)"
  by (rule save_effect [OF assms, unfolded record_text_def])

theorem save_atomic_witness:
  "fst (save example_host example_record example_world) = Inr () \<and>
    (case save example_host example_record example_world of
      (Inr _, w') \<Rightarrow> file_text w' = (file_text example_world)
          (rec_path example_record \<mapsto> marshalIndent (encode_record example_record))
    | (Inl _, w') \<Rightarrow> \<forall>p. temp_name example_record p \<or> file_text w' p = file_text example_world p)"
proof
  show "fst (save example_host example_record example_world) = Inr ()" by code_simp
  show "(case save example_host example_record example_world of
      (Inr _, w') \<Rightarrow> file_text w' = (file_text example_world)
          (rec_path example_record \<mapsto> marshalIndent (encode_record example_record))
    | (Inl _, w') \<Rightarrow> \<forall>p. temp_name example_record p \<or> file_text w' p = file_text example_world p)"
    by (rule save_atomic) code_simp
qed

subsection \<open>The end of a record\<close>

lemma release_frees:
  "holds_lock w p l \<Longrightarrow> \<not> lock_held (snd (release (Some l) w)) p"
  by (auto simp: holds_lock_def release_def lock_held_def split: option.splits node.splits)

lemma rest_remove [simp]: "locks (snd (remove h p w)) = locks w"
  using same_restD(2) [OF staysD [OF same_rest_ops(7)]] .

lemma lock_heldE:
  assumes "lock_held w p"
  obtains i s x where "lookup w p = Some (Regular i s x)" "locks w i \<noteq> None"
  using assms that by (cases "lookup w p"; cases "the (lookup w p)") (auto simp: lock_held_def)

lemma remove_Regular:
  "lookup (snd (remove h p w)) q = Some (Regular i s x) \<Longrightarrow> lookup w q = Some (Regular i s x)"
  by (auto simp: remove_def lookup_drop_entries split: option.splits node.splits if_splits)

lemma remove_keeps_unlocked:
  assumes "\<not> lock_held w q" shows "\<not> lock_held (snd (remove h p w)) q"
proof
  assume "lock_held (snd (remove h p w)) q"
  then obtain i s x where l: "lookup (snd (remove h p w)) q = Some (Regular i s x)"
    and k: "locks w i \<noteq> None"
    unfolding rest_remove by (rule lock_heldE) (simp add: rest_remove)
  from remove_Regular [OF l] k have "lock_held w q" by (simp add: lock_held_def)
  with assms show False by contradiction
qed

text \<open>
  C15: both ways a record ends free the lock, so the kernel will grant it to the next sweep:
  \<open>close\<close> may also delete the record, \<open>abandon\<close> never does and leaves every file as it was.
\<close>

theorem record_end_frees_lock:
  assumes "holds_lock w (lockPathFor (rec_path r)) l" "rec_lock r = Some l"
  shows "\<not> lock_held (close_record h (Some r) w) (lockPathFor (rec_path r)) \<and>
    \<not> lock_held (abandon (Some r) w) (lockPathFor (rec_path r)) \<and>
    file_text (abandon (Some r) w) = file_text w"
proof (intro conjI)
  note free = release_frees [OF assms(1)]
  show "\<not> lock_held (abandon (Some r) w) (lockPathFor (rec_path r))"
    using free by (simp add: abandon_def assms(2))
  show "\<not> lock_held (close_record h (Some r) w) (lockPathFor (rec_path r))"
    unfolding close_record_def option.case assms(2) by (intro remove_keeps_unlocked free)
  show "file_text (abandon (Some r) w) = file_text w"
    by (rule ext) (simp add: abandon_def assms(2) file_text_def)
qed

theorem record_end_frees_lock_witness:
  "\<exists>w r l. lock_held w (lockPathFor (rec_path r)) \<and>
    \<not> lock_held (close_record example_host (Some r) w) (lockPathFor (rec_path r)) \<and>
    \<not> lock_held (abandon (Some r) w) (lockPathFor (rec_path r)) \<and>
    file_text (abandon (Some r) w) = file_text w"
proof -
  define l where "l = \<lparr>lock_file = Some (3, 1)\<rparr>"
  define r where "r = example_record\<lparr>rec_lock := Some l\<rparr>"
  define w where "w = example_world\<lparr>locks := [1 \<mapsto> 3],
    files := (''/tmp/cluster-7.lock'', Regular 1 [] False) # files example_world\<rparr>"
  have p: "lockPathFor (rec_path r) = ''/tmp/cluster-7.lock''"
    unfolding r_def by code_simp
  have holds: "holds_lock w (lockPathFor (rec_path r)) l"
    by (simp add: p holds_lock_def l_def w_def lookup_def)
  have lock: "rec_lock r = Some l" by (simp add: r_def)
  show ?thesis
    using record_end_frees_lock [OF holds lock] holds_lock_held [OF holds] by blast
qed

end
