(* ===== verification/Sweep_Safety.thy ===== *)
theory Sweep_Safety
  imports Registry_Records
begin

text \<open>
  The promise of \<open>CleanOrphans\<close> in \<^verbatim>\<open>registry.go\<close>: it will not touch a live cluster. A cluster
  is live while its lock is held. The theorems follow its files (the record, the lock, the tree
  below its data directory) and its processes through the three passes of a sweep that another
  process runs, whatever system calls fail.
\<close>

subsection \<open>What a sweep may do\<close>

text \<open>No file is written: one that is there afterwards was there before, the same.\<close>

definition shrinks :: "world \<Rightarrow> world \<Rightarrow> bool" where
  "shrinks w w' \<longleftrightarrow> (\<forall>p i s x. lookup w' p = Some (Regular i s x) \<longrightarrow> lookup w p = Some (Regular i s x))"

interpretation shrink: frame shrinks
  by unfold_locales (auto simp: shrinks_def)

text \<open>
  \<open>P\<close> are the paths and \<open>S\<close> the process ids to be spared: a sweep deletes files outside \<open>P\<close> and
  kills processes outside \<open>S\<close>, and ends with the locks it began with.
\<close>

definition sweeps :: "host \<Rightarrow> (string \<Rightarrow> bool) \<Rightarrow> (int \<Rightarrow> bool) \<Rightarrow> world \<Rightarrow> world \<Rightarrow> bool" where
  "sweeps h P S w w' \<longleftrightarrow>
    shrinks w w' \<and> fewer_alive w w' \<and> procfs_seen h w' = procfs_seen h w \<and> locks w' = locks w \<and>
    same_files P w w' \<and> same_procs S w w'"

interpretation sweep: frame "sweeps h P S" for h P S
proof
  show "sweeps h P S w w" for w
    by (auto simp: sweeps_def shrinks_def deaths.frame_refl tree.frame_refl spared.frame_refl)
  show "sweeps h P S w u" if "sweeps h P S w t" "sweeps h P S t u" for w t u
    using that shrink.frame_trans [of w t u] deaths.frame_trans [of w t u] tree.frame_trans [of P w t u]
      spared.frame_trans [of S w t u]
    by (simp add: sweeps_def)
qed

lemma sweepsD:
  assumes "sweeps h P S w w'"
  shows "shrinks w w'" "fewer_alive w w'" "procfs_seen h w' = procfs_seen h w" "locks w' = locks w"
    "same_files P w w'" "same_procs S w w'"
  using assms by (simp_all add: sweeps_def)

lemma sweeps_looked: "looked h w w' \<Longrightarrow> sweeps h P S w w'"
  using lookedD [of h w w']
  by (simp add: sweeps_def shrinks_def fewer_alive_def list_all2_same same_files_def same_procs_def)

lemma sweeps_procs:
  assumes "fewer_alive w w'" "same_procs S w w'" "w' = w\<lparr>procs := ps\<rparr>"
  shows "sweeps h P S w w'"
  using assms by (simp add: sweeps_def shrinks_def same_files_def procfs_seen_def)

lemma sweeps_files:
  assumes "same_rest w w'" "shrinks w w'" "same_files P w w'"
  shows "sweeps h P S w w'"
proof -
  note eq = same_restD(1,2,8) [OF assms(1)]
  have "fewer_alive w w'" "same_procs S w w'" "procfs_seen h w' = procfs_seen h w"
    unfolding fewer_alive_def same_procs_def procfs_seen_def eq by (simp_all add: list_all2_same)
  with eq assms show ?thesis by (simp only: sweeps_def)
qed

lemma shrinks_remove: "shrinks w (snd (remove h p w))"
  unfolding shrinks_def using remove_Regular by blast

lemma shrinks_removeAll: "shrinks w (snd (removeAll h p w))"
  by (auto simp: shrinks_def removeAll_def lookup_drop_entries split: option.split if_splits)

lemma sweeps_remove: "\<not> P p \<Longrightarrow> \<not> P (parent p) \<Longrightarrow> sweeps h P S w (snd (remove h p w))"
  by (intro sweeps_files shrinks_remove)
    (rule staysD [OF same_rest_ops(7)], rule staysD [OF same_files_remove])

text \<open>A tree that shares no path with \<open>P\<close>, and whose parent directory is not in \<open>P\<close> either.\<close>

definition apart :: "(string \<Rightarrow> bool) \<Rightarrow> string \<Rightarrow> bool" where
  "apart P d \<longleftrightarrow> (\<forall>p. P p \<longrightarrow> \<not> under d p) \<and> \<not> P (parent d)"

lemma sweeps_removeAll: "apart P d \<Longrightarrow> sweeps h P S w (snd (removeAll h d w))"
  by (intro sweeps_files shrinks_removeAll)
    (rule staysD [OF same_rest_ops(8)], rule staysD [OF same_files_removeAll], auto simp: apart_def)

text \<open>A probe that succeeds, a body, and the release.\<close>

lemma only_locksD:
  assumes "only_locks w w'"
  shows "procs w' = procs w" "files w' = files w" "haveProcfs w' = haveProcfs w"
proof -
  let ?v = "\<lambda>w. w\<lparr>locks := Map.empty, next_fd := 0\<rparr>"
  have "procs (?v w') = procs (?v w)" "files (?v w') = files (?v w)" "haveProcfs (?v w') = haveProcfs (?v w)"
    using assms unfolding only_locks_def by (simp_all only:)
  then show "procs w' = procs w" "files w' = files w" "haveProcfs w' = haveProcfs w" by simp_all
qed

lemma sweeps_only_locks:
  assumes "only_locks w w'"
  shows "shrinks w w'" "fewer_alive w w'" "procfs_seen h w' = procfs_seen h w" "same_files P w w'"
    "same_procs S w w'"
  unfolding shrinks_def lookup_def fewer_alive_def procfs_seen_def same_files_def same_procs_def
    only_locksD [OF assms]
  by (simp_all add: list_all2_same)

lemma sweeps_unlock:
  assumes "tryLock h p w = (Some l, t)" "sweeps h P S t t'"
  shows "sweeps h P S w (unlock l t')"
proof -
  let ?R = "\<lambda>w w'. shrinks w w' \<and> fewer_alive w w' \<and> procfs_seen h w' = procfs_seen h w \<and>
    same_files P w w' \<and> same_procs S w w'"
  have "only_locks w t" using registry_lock.probe_succeeds [OF assms(1)] by blast
  moreover have "only_locks t' (unlock l t')" by (rule registry_lock.free_calm)
  ultimately have "?R w t \<and> ?R t' (unlock l t')" by (intro conjI sweeps_only_locks)
  moreover have "?R t t'" using assms(2) by (simp add: sweeps_def)
  ultimately have "?R w (unlock l t')"
    by (metis (no_types, lifting) shrink.frame_trans deaths.frame_trans tree.frame_trans spared.frame_trans)
  moreover have "locks (unlock l t') = locks w"
    using tryLock_release [OF assms(1)] sweepsD(4) [OF assms(2)] by (simp add: unlock_def)
  ultimately show ?thesis by (simp add: sweeps_def)
qed

lemma sweeps_probe_None: "tryLock h p w = (None, t) \<Longrightarrow> sweeps h P S w t"
  by (elim tryLock_None)
    (simp add: sweeps_def shrinks_def fewer_alive_def list_all2_same procfs_seen_def same_files_def same_procs_def)

lemma sweeps_guarded:
  assumes "\<And>l t. tryLock h p w = (Some l, t) \<Longrightarrow> sweeps h P S w (snd (body l t))"
  shows "sweeps h P S w (snd (guarded (tryLock h p) body w))"
proof (cases "tryLock h p w")
  case (Pair r t)
  then show ?thesis using assms sweeps_probe_None by (cases r) (auto simp: guarded_def)
qed

subsection \<open>Who is killed\<close>

text \<open>
  No live process of \<open>S\<close>, and not the first process of the machine, names the directory \<open>d\<close>
  on its command line. (The id 1 matters because \<open>signalGroup\<close> negates it, and \<open>kill(-1)\<close> is a
  broadcast.)
\<close>

definition foreign :: "host \<Rightarrow> world \<Rightarrow> (int \<Rightarrow> bool) \<Rightarrow> string \<Rightarrow> bool" where
  "foreign h w S d \<longleftrightarrow>
    (\<forall>q \<in> set (procs w). alive q \<longrightarrow> cmdlineReferences (shown (procfs_seen h w) q) d \<longrightarrow>
      1 < proc_pid q \<and> \<not> S (proc_pid q))"

text \<open>
  What a record says of a server is safe to act on: a process of its id whose command line has both the binary and
  the directory in it is not to be spared.
\<close>

definition not_mistaken :: "host \<Rightarrow> world \<Rightarrow> (int \<Rightarrow> bool) \<Rightarrow> string \<Rightarrow> serverRecord \<Rightarrow> bool" where
  "not_mistaken h w S d s \<longleftrightarrow>
    (\<forall>q \<in> set (procs w). alive q \<longrightarrow> proc_pid q = sr_PID s \<longrightarrow>
      contains (shown (procfs_seen h w) q) (sr_Binary s) \<longrightarrow>
      d \<noteq> [] \<and> contains (shown (procfs_seen h w) q) (d @ ''/'') \<longrightarrow>
      1 < proc_pid q \<and> \<not> S (proc_pid q))"

lemma foreign_not_mistaken: "foreign h w S d \<Longrightarrow> not_mistaken h w S d s"
  by (auto simp: foreign_def not_mistaken_def cmdlineReferences_def)

text \<open>A process of \<open>S\<close> runs in a group of \<open>S\<close>: its own, or that of its server.\<close>

definition grouped :: "(int \<Rightarrow> bool) \<Rightarrow> world \<Rightarrow> bool" where
  "grouped S w \<longleftrightarrow> (\<forall>q \<in> set (procs w). S (proc_pid q) \<longrightarrow> S (proc_group q))"

lemma shown_alive [simp]: "shown b (q\<lparr>alive := a\<rparr>) = shown b q"
  by (simp add: shown_def raw_cmdline_def ps_args_def)

lemma grouped_sweeps:
  assumes "sweeps h P S w w'" "grouped S w"
  shows "grouped S w'"
  unfolding grouped_def
proof
  fix q'
  assume "q' \<in> set (procs w')"
  with sweepsD(2) [OF assms(1)] obtain q where "q \<in> set (procs w)" "q' = q \<or> q' = q\<lparr>alive := False\<rparr>"
    by (rule fewer_alive_origin)
  with assms(2) show "S (proc_pid q') \<longrightarrow> S (proc_group q')" by (auto simp: grouped_def)
qed

lemma foreign_sweeps:
  assumes "sweeps h P S w w'" "foreign h w S d"
  shows "foreign h w' S d"
  unfolding foreign_def
proof
  fix q'
  assume "q' \<in> set (procs w')"
  with sweepsD(2) [OF assms(1)] obtain q where "q \<in> set (procs w)" "q' = q \<or> q' = q\<lparr>alive := False\<rparr>"
    by (rule fewer_alive_origin)
  with assms(2) show "alive q' \<longrightarrow> cmdlineReferences (shown (procfs_seen h w') q') d \<longrightarrow>
      1 < proc_pid q' \<and> \<not> S (proc_pid q')"
    by (auto simp: foreign_def sweepsD(3) [OF assms(1)])
qed

lemma not_mistaken_sweeps:
  assumes "sweeps h P S w w'" "not_mistaken h w S d s"
  shows "not_mistaken h w' S d s"
  unfolding not_mistaken_def
proof
  fix q'
  assume "q' \<in> set (procs w')"
  with sweepsD(2) [OF assms(1)] obtain q where "q \<in> set (procs w)" "q' = q \<or> q' = q\<lparr>alive := False\<rparr>"
    by (rule fewer_alive_origin)
  with assms(2) show "alive q' \<longrightarrow> proc_pid q' = sr_PID s \<longrightarrow>
      contains (shown (procfs_seen h w') q') (sr_Binary s) \<longrightarrow>
      d \<noteq> [] \<and> contains (shown (procfs_seen h w') q') (d @ ''/'') \<longrightarrow> 1 < proc_pid q' \<and> \<not> S (proc_pid q')"
    by (auto simp: not_mistaken_def sweepsD(3) [OF assms(1)])
qed

lemma sweeps_signal:
  assumes "grouped S w" "1 < p" "\<not> S p"
  shows "sweeps h P S w (snd (signalGroup h p SIGKILL w))"
proof -
  obtain ps where "snd (signalGroup h p SIGKILL w) = w\<lparr>procs := ps\<rparr>"
    using signalGroup_world by blast
  moreover have "same_procs S w (snd (signalGroup h p SIGKILL w))"
    using assms by (intro signalGroup_same_procs) (auto simp: grouped_def)
  ultimately show ?thesis using signalGroup_fewer_alive sweeps_procs by blast
qed

lemma kill_server_not_mistaken:
  assumes "grouped S w" "not_mistaken h w S d s"
  shows "sweeps h P S w (kill_server h d s w)"
proof -
  obtain b w1 where p: "processIsServer h (sr_PID s) (sr_Binary s) d w = (b, w1)" by fastforce
  have "looked h w w1 \<and> (b \<longrightarrow> 1 < sr_PID s \<and> \<not> S (sr_PID s))"
  proof (cases "sr_PID s \<le> 0 \<or> sr_Binary s = [] \<or> d = []")
    case True
    with p show ?thesis by (auto simp: processIsServer_def)
  next
    case False
    obtain c w2 where c: "processCommandLine h (sr_PID s) w = (c, w2)" by fastforce
    have "looked h w w2" by (rule processCommandLine_looked [OF c])
    moreover have "1 < sr_PID s \<and> \<not> S (sr_PID s)"
      if "c = Some l" "contains l (sr_Binary s)" "cmdlineReferences l d" for l
      using processCommandLine_Some [OF c [unfolded that(1)]] that(2,3) assms(2)
      unfolding not_mistaken_def cmdlineReferences_def by metis
    ultimately show ?thesis using p c False by (cases c) (auto simp: processIsServer_def)
  qed
  then have "sweeps h P S w w1" and target: "b \<longrightarrow> 1 < sr_PID s \<and> \<not> S (sr_PID s)"
    using sweeps_looked by blast+
  moreover have "sweeps h P S w1 (snd (signalGroup h (sr_PID s) SIGKILL w1))" if b
    using that target grouped_sweeps [OF \<open>sweeps h P S w w1\<close> assms(1)] by (intro sweeps_signal) auto
  ultimately show ?thesis
    using p sweep.frame_trans by (cases b) (auto simp: kill_server_def)
qed

lemma kill_servers_not_mistaken:
  assumes "grouped S w" "\<And>s. s \<in> set ss \<Longrightarrow> not_mistaken h w S d s"
  shows "sweeps h P S w (forS ss (kill_server h d) w)"
  by (rule sweep.forS_from [OF sweep.frame_refl])
    (blast intro: kill_server_not_mistaken grouped_sweeps not_mistaken_sweeps assms)

lemma kill_server_sweeps:
  "grouped S w \<Longrightarrow> foreign h w S d \<Longrightarrow> sweeps h P S w (kill_server h d s w)"
  by (intro kill_server_not_mistaken foreign_not_mistaken)

lemma kill_servers_sweeps:
  "grouped S w \<Longrightarrow> foreign h w S d \<Longrightarrow> sweeps h P S w (forS ss (kill_server h d) w)"
  by (intro kill_servers_not_mistaken foreign_not_mistaken)

lemma killProcessesUsing_sweeps:
  assumes "grouped S w" "foreign h w S d"
  shows "sweeps h P S w (killProcessesUsing h d w)"
proof (cases "ownsDataDirName d")
  case True
  obtain es w1 where e: "enumerateProcesses h w = (es, w1)" by fastforce
  note sound = enumerateProcesses_sound [OF e]
  have w1: "sweeps h P S w w1" using sound(1) by (rule sweeps_looked)
  have target: "1 < pe_pid e \<and> \<not> S (pe_pid e)" if "e \<in> set es" "cmdlineReferences (pe_cmdline e) d" for e
    using sound(2) [OF that(1)] that(2) assms(2) by (auto simp: shows_process_def foreign_def)
  have "sweeps h P S w (forS es (kill_entry h d) w1)"
  proof (rule sweep.forS_from [OF w1])
    fix e t
    assume "e \<in> set es" and t: "sweeps h P S w t"
    then show "sweeps h P S t (kill_entry h d e t)"
      using target grouped_sweeps [OF t assms(1)] sweep.frame_refl
      by (auto simp: kill_entry_def intro: sweeps_signal)
  qed
  with True e show ?thesis by (simp add: killProcessesUsing_def)
next
  case False
  then show ?thesis by (simp add: killProcessesUsing_def sweep.frame_refl)
qed

subsection \<open>The first pass\<close>

lemma shrinks_file_text: "shrinks w w' \<Longrightarrow> file_text w' p = Some s \<Longrightarrow> file_text w p = Some s"
  by (elim file_text_SomeE) (simp add: shrinks_def file_text_def)

text \<open>What a record says is safe to act on.\<close>

definition record_safe :: "host \<Rightarrow> (string \<Rightarrow> bool) \<Rightarrow> (int \<Rightarrow> bool) \<Rightarrow> world \<Rightarrow> string \<Rightarrow> bool" where
  "record_safe h P S w path \<longleftrightarrow>
    (case file_text w path of None \<Rightarrow> True
     | Some s \<Rightarrow>
       (case decode_record s of None \<Rightarrow> True
        | Some r \<Rightarrow> (\<forall>s \<in> set (rec_Servers r). not_mistaken h w S (rec_DataPath r) s) \<and>
            (rec_OwnsDataPath r \<longrightarrow> foreign h w S (rec_DataPath r) \<and>
              (rec_DataPath r \<noteq> [] \<longrightarrow> apart P (rec_DataPath r)))))"

lemma record_safe_sweeps:
  assumes "sweeps h P S w w'" "record_safe h P S w path"
  shows "record_safe h P S w' path"
proof (cases "file_text w' path")
  case None
  then show ?thesis by (simp add: record_safe_def)
next
  case (Some s)
  with shrinks_file_text sweepsD(1) [OF assms(1)] have "file_text w path = Some s" by blast
  with Some assms show ?thesis
    by (cases "decode_record s") (auto simp: record_safe_def intro: foreign_sweeps not_mistaken_sweeps)
qed

text \<open>The files a pass may delete by name: an entry \<open>n\<close> of the registry directory.\<close>

definition deletable :: "(string \<Rightarrow> bool) \<Rightarrow> string \<Rightarrow> bool" where
  "deletable P p \<longleftrightarrow> \<not> P p \<and> \<not> P (parent p)"

lemma remove_both_sweeps:
  assumes "sweeps h P S w w1" "deletable P p" "deletable P q"
  shows "sweeps h P S w (snd (remove h q (snd (remove h p w1))))"
  using assms sweep.frame_trans [OF sweep.frame_trans [OF assms(1) sweeps_remove] sweeps_remove]
  by (simp add: deletable_def)

lemma reclaim_locked_sweeps:
  assumes "grouped S w" "record_safe h P S w path" "deletable P path" "deletable P (lockPathFor path)"
  shows "sweeps h P S w (snd (reclaim_locked h path w))"
proof (cases "readFile h path w")
  case (Inl e)
  then show ?thesis by (simp add: reclaim_locked_def sweep.frame_refl)
next
  case (Inr raw)
  then have raw: "file_text w path = Some raw"
    by (auto simp: readFile_def file_text_def split: option.splits node.splits)
  show ?thesis
  proof (cases "decode_record raw")
    case None
    with Inr show ?thesis
      using remove_both_sweeps [OF sweep.frame_refl assms(3,4)] by (simp add: reclaim_locked_def)
  next
    case (Some r)
    with raw assms(2) have r: "\<And>s. s \<in> set (rec_Servers r) \<Longrightarrow> not_mistaken h w S (rec_DataPath r) s"
      "rec_OwnsDataPath r \<longrightarrow> foreign h w S (rec_DataPath r)"
      "rec_OwnsDataPath r \<and> rec_DataPath r \<noteq> [] \<longrightarrow> apart P (rec_DataPath r)"
      by (simp_all add: record_safe_def)
    define w1 where "w1 = forS (rec_Servers r) (kill_server h (rec_DataPath r)) w"
    define w2 where "w2 = (if rec_OwnsDataPath r then killProcessesUsing h (rec_DataPath r) w1 else w1)"
    define w3 where "w3 = (if rec_OwnsDataPath r \<and> rec_DataPath r \<noteq> []
      then snd (removeAll h (rec_DataPath r) w2) else w2)"
    have 1: "sweeps h P S w w1" unfolding w1_def by (rule kill_servers_not_mistaken [OF assms(1) r(1)])
    have 2: "sweeps h P S w1 w2"
      unfolding w2_def using 1 assms(1) r(2)
      by (auto intro: sweep.frame_refl killProcessesUsing_sweeps grouped_sweeps foreign_sweeps)
    have 3: "sweeps h P S w2 w3"
      unfolding w3_def using r(3) by (auto intro: sweep.frame_refl sweeps_removeAll)
    have "sweeps h P S w w3" using 1 2 3 sweep.frame_trans by blast
    moreover have "snd (reclaim_locked h path w) =
        snd (remove h (lockPathFor path) (snd (remove h path w3)))"
      by (simp only: reclaim_locked_def Inr sum.case Some option.case Let_def snd_conv w1_def w2_def w3_def)
    ultimately show ?thesis using remove_both_sweeps [OF _ assms(3,4)] by simp
  qed
qed

text \<open>
  A record is left alone while its lock is held, and may be acted on otherwise.
\<close>

lemma reclaimRecord_sweeps:
  assumes "lock_held w (lockPathFor path) \<or>
    grouped S w \<and> record_safe h P S w path \<and> deletable P path \<and> deletable P (lockPathFor path)"
  shows "sweeps h P S w (snd (reclaimRecord h path w))"
  unfolding reclaimRecord_def
proof (rule sweeps_guarded)
  fix l t
  assume t: "tryLock h (lockPathFor path) w = (Some l, t)"
  obtain ok t' where b: "reclaim_locked h path t = (ok, t')" by fastforce
  have "\<not> lock_held w (lockPathFor path)" using registry_lock.probe_succeeds [OF t] by blast
  with assms have safe: "grouped S w" "record_safe h P S w path" "deletable P path"
    "deletable P (lockPathFor path)" by auto
  have "only_locks w t" using registry_lock.probe_succeeds [OF t] by blast
  then have eq: "file_text t = file_text w" "procs t = procs w" "procfs_seen h t = procfs_seen h w"
    using only_locksD by (simp_all add: file_text_def fun_eq_iff lookup_def procfs_seen_def)
  have f: "foreign h t S = foreign h w S" "not_mistaken h t S = not_mistaken h w S"
    by (rule ext, simp add: foreign_def eq) (intro ext, simp add: not_mistaken_def eq)
  have "grouped S t" "record_safe h P S t path"
    using safe(1,2) unfolding record_safe_def grouped_def eq f by simp_all
  from reclaim_locked_sweeps [OF this safe(3,4)] b have "sweeps h P S t t'" by simp
  from sweeps_unlock [OF t this] b
  show "sweeps h P S w (snd (case reclaim_locked h path t of (ok, w') \<Rightarrow> (ok, unlock l w')))" by simp
qed

subsection \<open>All three passes\<close>

text \<open>The files of a cluster: its record, its lock, and the tree below its data directory.\<close>

definition cluster_files :: "string \<Rightarrow> string \<Rightarrow> string \<Rightarrow> string \<Rightarrow> bool" where
  "cluster_files reg i dataPath p \<longleftrightarrow> p = record_path reg i \<or> p = lock_path reg i \<or> under dataPath p"

text \<open>
  What makes a live cluster distinguishable: the registry lies in none of the data directories;
  every other record of the registry is safe to act on; every default data directory of another id shares nothing
  with this cluster's files, and none of its processes names it; and its processes run in groups of their own.
\<close>

definition distinguishable :: "host \<Rightarrow> string \<Rightarrow> string \<Rightarrow> string \<Rightarrow> (int \<Rightarrow> bool) \<Rightarrow> world \<Rightarrow> bool" where
  "distinguishable h reg i dataPath S w \<longleftrightarrow>
    (let P = cluster_files reg i dataPath
     in \<not> P reg \<and> \<not> under reg dataPath \<and> grouped S w \<and>
        (\<forall>n. n \<noteq> ''cluster-'' @ i @ ''.json'' \<longrightarrow> record_safe h P S w (reg @ ''/'' @ n)) \<and>
        (\<forall>j. j \<noteq> i \<longrightarrow> CHR ''/'' \<notin> set j \<longrightarrow>
          apart P (defaultDataDir h j) \<and> foreign h w S (defaultDataDir h j)))"

lemma distinguishable_sweeps:
  assumes "sweeps h (cluster_files reg i d) S w w'" "distinguishable h reg i d S w"
  shows "distinguishable h reg i d S w'"
  using assms by (auto simp: distinguishable_def Let_def intro: grouped_sweeps record_safe_sweeps foreign_sweeps)

lemma lock_held_sweeps:
  assumes "sweeps h (cluster_files reg i d) S w w'" "lock_held w (lock_path reg i)"
  shows "lock_held w' (lock_path reg i)"
  using assms lock_held_lookup [OF same_filesD [OF sweepsD(5)] sweepsD(4)]
  by (metis cluster_files_def)

text \<open>
  The state a live cluster keeps through a sweep. \<open>Data_Directories\<close> derives it from how clusters are laid out.
\<close>

definition live_cluster :: "host \<Rightarrow> string \<Rightarrow> string \<Rightarrow> string \<Rightarrow> (int \<Rightarrow> bool) \<Rightarrow> world \<Rightarrow> bool" where
  "live_cluster h reg i d S w \<longleftrightarrow>
    abs_dir reg \<and> abs_dir (tmp_dir h) \<and> CHR ''/'' \<notin> set i \<and>
    io_fault h OpStat (lock_path reg i) = None \<and>
    lock_held w (lock_path reg i) \<and> distinguishable h reg i d S w"

lemma child_names_no_slash: "n \<in> set (child_names w d) \<Longrightarrow> CHR ''/'' \<notin> set n"
proof -
  assume "n \<in> set (child_names w d)"
  then obtain p where "n = last (split_on (CHR ''/'') p)" by (auto simp: child_names_def leaf_def)
  then have "n \<in> set (split_on (CHR ''/'') p)" by simp
  then show ?thesis by (rule split_on_pieces)
qed

lemma readDir_names: "readDir h d w = Inr ns \<Longrightarrow> n \<in> set ns \<Longrightarrow> CHR ''/'' \<notin> set n"
  by (auto simp: readDir_def child_names_no_slash split: option.splits if_splits)

lemma count_loop_frame:
  assumes "\<And>x t. x \<in> set xs \<Longrightarrow> sweeps h P S w t \<Longrightarrow> sweeps h P S t (snd (f x t))" "sweeps h P S w s"
  shows "sweeps h P S w (snd (count_loop f xs s))"
  using assms
proof (induction xs arbitrary: s)
  case Nil
  then show ?case by simp
next
  case (Cons x xs)
  obtain ok s1 where f: "f x s = (ok, s1)" by fastforce
  with Cons.prems have "sweeps h P S w s1" by (metis list.set_intros(1) snd_conv sweep.frame_trans)
  with Cons have "sweeps h P S w (snd (count_loop f xs s1))" by simp
  with f show ?case by (cases "count_loop f xs s1") simp
qed

lemma under_entry:
  assumes "under d (a @ ''/'' @ n)" "CHR ''/'' \<notin> set n"
  shows "d = a @ ''/'' @ n \<or> under d a"
proof -
  from assms(1) consider "d = a @ ''/'' @ n" | s where "d @ ''/'' @ s = a @ ''/'' @ n"
    by (auto simp: under_iff)
  then show ?thesis
  proof cases
    case (2 s)
    then show ?thesis
      using assms(2) by (auto simp: append_eq_append_conv2 under_iff Cons_eq_append_conv append_eq_Cons_conv)
  qed simp
qed

lemma deletable_entry:
  assumes "live_cluster h reg i d S w" "component n" "n \<noteq> ''cluster-'' @ i @ ''.json''"
    "n \<noteq> ''cluster-'' @ i @ ''.lock''"
  shows "deletable (cluster_files reg i d) (reg @ ''/'' @ n)"
proof -
  from assms(1) have reg: "abs_dir reg" "\<not> cluster_files reg i d reg" "\<not> under reg d"
    by (simp_all add: live_cluster_def distinguishable_def Let_def)
  then have "\<not> under d (reg @ ''/'' @ n)"
    using under_entry [of d reg n] assms(2) by (auto simp: component_def cluster_files_def under_iff)
  then show ?thesis
    using assms(2-4) reg
    by (simp add: deletable_def cluster_files_def record_path_def lock_path_def parent_append del: append.simps)
qed

lemma live_cluster_sweeps:
  assumes "sweeps h (cluster_files reg i d) S w w'" "live_cluster h reg i d S w"
  shows "live_cluster h reg i d S w'"
  using assms by (auto simp: live_cluster_def intro: distinguishable_sweeps lock_held_sweeps)

text \<open>The file names of the registry: an entry \<open>m.json\<close> and its lock \<open>m.lock\<close>.\<close>

lemma files_endingE:
  assumes "p \<in> set (files_ending w reg e names)" "abs_dir reg" "2 < length e" "CHR ''/'' \<notin> set e"
    and "\<And>n. n \<in> set names \<Longrightarrow> CHR ''/'' \<notin> set n"
  obtains m where "CHR ''/'' \<notin> set m" "component (m @ e)" "p = reg @ ''/'' @ m @ e"
proof -
  from assms(1) obtain n where n: "n \<in> set names" "hasSuffix n e" "p = path_join [reg, n]"
    by (auto simp: files_ending_def)
  then obtain m where m: "n = m @ e" by (auto simp: hasSuffix_iff suffix_def)
  have "CHR ''/'' \<notin> set n" by (rule assms(5) [OF n(1)])
  with m assms(3) have "component n" by (auto simp: component_def dest!: arg_cong [of _ _ length])
  with path_join_abs [OF assms(2)] n m \<open>CHR ''/'' \<notin> set n\<close> that show thesis by auto
qed

lemma json_not_lock [simp]: "(a @ ''.json'') \<noteq> (b @ ''.lock'')"
proof
  assume "a @ ''.json'' = b @ ''.lock''"
  then have "last (a @ ''.json'') = last (b @ ''.lock'')" by (rule arg_cong)
  then show False by simp
qed

lemma lock_not_json [simp]: "(a @ ''.lock'') \<noteq> (b @ ''.json'')"
  using json_not_lock by metis

lemma sweepRecords_sweeps:
  assumes "live_cluster h reg i d S w"
  shows "sweeps h (cluster_files reg i d) S w (snd (sweepRecords h reg w))"
proof (cases "readDir h reg w")
  case (Inl e)
  then show ?thesis by (simp add: sweepRecords_def sweep.frame_refl)
next
  case (Inr names)
  have "sweeps h (cluster_files reg i d) S w
      (snd (count_loop (reclaimRecord h) (files_ending w reg ''.json'' names) w))"
  proof (rule count_loop_frame [OF _ sweep.frame_refl])
    fix p t
    assume p: "p \<in> set (files_ending w reg ''.json'' names)"
      and t: "sweeps h (cluster_files reg i d) S w t"
    note live = live_cluster_sweeps [OF t assms]
    have "abs_dir reg" using assms by (simp add: live_cluster_def)
    from files_endingE [OF p this _ _ readDir_names [OF Inr]] obtain m where
      m: "CHR ''/'' \<notin> set m" "component (m @ ''.json'')" "p = reg @ ''/'' @ m @ ''.json''" by auto
    have lock: "lockPathFor p = reg @ ''/'' @ m @ ''.lock''"
      using lockPathFor_json [of "reg @ ''/'' @ m"] m(3) by (simp del: lockPathFor_json)
    show "sweeps h (cluster_files reg i d) S t (snd (reclaimRecord h p t))"
    proof (rule reclaimRecord_sweeps, cases "m = ''cluster-'' @ i")
      case True
      with live lock show "lock_held t (lockPathFor p) \<or> grouped S t \<and>
          record_safe h (cluster_files reg i d) S t p \<and> deletable (cluster_files reg i d) p \<and>
          deletable (cluster_files reg i d) (lockPathFor p)"
        by (simp add: live_cluster_def lock_path_def)
    next
      case False
      have c: "component (m @ ''.lock'')" using m(1) by (simp add: component_def)
      have ne: "m @ ''.json'' \<noteq> ''cluster-'' @ i @ ''.json''" "m @ ''.lock'' \<noteq> ''cluster-'' @ i @ ''.lock''"
        "m @ ''.json'' \<noteq> ''cluster-'' @ i @ ''.lock''" "m @ ''.lock'' \<noteq> ''cluster-'' @ i @ ''.json''"
        using False json_not_lock [of m "''cluster-'' @ i"] lock_not_json [of m "''cluster-'' @ i"]
        by (metis append.assoc append_same_eq)+
      have "record_safe h (cluster_files reg i d) S t p" "grouped S t"
        using live ne(1) unfolding m(3) live_cluster_def distinguishable_def Let_def by blast+
      with deletable_entry [OF live m(2) ne(1,3)] deletable_entry [OF live c ne(4,2)]
      show "lock_held t (lockPathFor p) \<or> grouped S t \<and>
          record_safe h (cluster_files reg i d) S t p \<and> deletable (cluster_files reg i d) p \<and>
          deletable (cluster_files reg i d) (lockPathFor p)"
        unfolding lock unfolding m(3) by blast
    qed
  qed
  with Inr show ?thesis by (simp add: sweepRecords_def)
qed

lemma sweepStaleLocks_sweeps:
  assumes "live_cluster h reg i d S w"
  shows "sweeps h (cluster_files reg i d) S w (sweepStaleLocks h reg w)"
proof (cases "readDir h reg w")
  case (Inl e)
  then show ?thesis by (simp add: sweepStaleLocks_def sweep.frame_refl)
next
  case (Inr names)
  have "sweeps h (cluster_files reg i d) S w
      (forS (files_ending w reg ''.lock'' names) (drop_stale_lock h) w)"
  proof (rule sweep.forS_from [OF sweep.frame_refl])
    fix p t
    assume p: "p \<in> set (files_ending w reg ''.lock'' names)"
      and t: "sweeps h (cluster_files reg i d) S w t"
    note live = live_cluster_sweeps [OF t assms]
    have "abs_dir reg" using assms by (simp add: live_cluster_def)
    from files_endingE [OF p this _ _ readDir_names [OF Inr]] obtain m where
      m: "CHR ''/'' \<notin> set m" "component (m @ ''.lock'')" "p = reg @ ''/'' @ m @ ''.lock''" by auto
    have "sweeps h (cluster_files reg i d) S t
        (snd (guarded (tryLock h p) (\<lambda>lock w1. (True, snd (remove h p (unlock lock w1)))) t))"
    proof (rule sweeps_guarded)
      fix l u
      assume u: "tryLock h p t = (Some l, u)"
      have "\<not> lock_held t p" using registry_lock.probe_succeeds [OF u] by blast
      with live have "m \<noteq> ''cluster-'' @ i" using m(3) by (auto simp: live_cluster_def lock_path_def)
      then have ne: "m @ ''.lock'' \<noteq> ''cluster-'' @ i @ ''.lock''" "m @ ''.lock'' \<noteq> ''cluster-'' @ i @ ''.json''"
        using lock_not_json [of m "''cluster-'' @ i"] by (metis append.assoc append_same_eq)+
      from deletable_entry [OF live m(2) ne(2,1)] have del: "deletable (cluster_files reg i d) p"
        by (simp only: m(3))
      have "sweeps h (cluster_files reg i d) S t (unlock l u)"
        by (rule sweeps_unlock [OF u sweep.frame_refl])
      moreover have "sweeps h (cluster_files reg i d) S (unlock l u) (snd (remove h p (unlock l u)))"
        using del by (intro sweeps_remove) (simp_all add: deletable_def)
      ultimately show "sweeps h (cluster_files reg i d) S t (snd (True, snd (remove h p (unlock l u))))"
        using sweep.frame_trans by simp
    qed
    then show "sweeps h (cluster_files reg i d) S t (drop_stale_lock h p t)"
      by (simp add: drop_stale_lock_def sweep.frame_refl split: sum.split)
  qed
  with Inr show ?thesis by (simp add: sweepStaleLocks_def)
qed

lemma usedByLiveProcess_looked: "looked h w (snd (usedByLiveProcess h d w))"
proof (cases "ownsDataDirName d")
  case True
  obtain es w1 where e: "enumerateProcesses h w = (es, w1)" by fastforce
  with enumerateProcesses_sound(1) [OF e] True show ?thesis by (simp add: usedByLiveProcess_def)
qed (simp add: usedByLiveProcess_def)

lemma may_reclaim_dir_sweeps: "sweeps h P S w (snd (may_reclaim_dir h d lp w))"
proof -
  have "sweeps h P S w (snd (guarded (tryLock h lp) (\<lambda>lock w1. (True, unlock lock w1)) w))"
    by (rule sweeps_guarded) (simp add: sweeps_unlock sweep.frame_refl)
  moreover have "sweeps h P S w (snd (usedByLiveProcess h d w))"
    by (rule sweeps_looked [OF usedByLiveProcess_looked])
  ultimately show ?thesis
    by (auto simp: may_reclaim_dir_def sweep.frame_refl split: sum.split option.split prod.split)
qed

lemma may_reclaim_dir_live:
  assumes "live_cluster h reg i d S w"
  shows "\<not> fst (may_reclaim_dir h dp (lock_path reg i) w)"
proof (cases "stat h (recordPathFor (lock_path reg i)) w")
  case (Inl e)
  from assms have held: "lock_held w (lock_path reg i)" and "io_fault h OpStat (lock_path reg i) = None"
    by (simp_all add: live_cluster_def)
  then obtain n where "stat h (lock_path reg i) w = Inr n" by (auto simp: stat_def elim!: lock_heldE)
  with Inl registry_lock.guarded_held(1) [OF held] show ?thesis by (simp add: may_reclaim_dir_def)
qed (simp add: may_reclaim_dir_def)

lemma sweepDataDirectories_sweeps:
  assumes "live_cluster h reg i d S w"
  shows "sweeps h (cluster_files reg i d) S w (snd (sweepDataDirectories h reg w))"
proof (cases "readDir h (tmp_dir h) w")
  case (Inl e)
  then show ?thesis by (simp add: sweepDataDirectories_def sweep.frame_refl)
next
  case (Inr names)
  let ?P = "cluster_files reg i d"
  let ?dirs = "filter (\<lambda>n. is_dir w (tmp_dir h @ ''/'' @ n) \<and> hasPrefix n dataDirPrefix) names"
  have "sweeps h ?P S w (snd (count_loop (reclaim_dir h reg) ?dirs w))"
  proof (rule count_loop_frame [OF _ sweep.frame_refl])
    fix name t
    assume name: "name \<in> set ?dirs" and t: "sweeps h ?P S w t"
    note live = live_cluster_sweeps [OF t assms]
    from live have reg: "abs_dir reg" by (simp add: live_cluster_def)
    from name obtain j where j: "name = dataDirPrefix @ j" by (auto simp: hasPrefix_iff prefix_def)
    have "CHR ''/'' \<notin> set name" using name readDir_names [OF Inr] by auto
    with j have slash: "CHR ''/'' \<notin> set j" by auto
    let ?lock = "lock_path reg j" and ?data = "defaultDataDir h j"
    have paths: "path_join [tmp_dir h, name] = ?data"
      "path_join [reg, recordPrefix @ trimPrefix name dataDirPrefix @ ''.lock''] = ?lock"
      using path_join_abs [OF reg component_lock [OF slash]]
      by (simp_all add: j defaultDataDir_def recordPrefix_def lock_path_def)
    obtain ok t1 where m: "may_reclaim_dir h ?data ?lock t = (ok, t1)" by fastforce
    have t1: "sweeps h ?P S t t1" using may_reclaim_dir_sweeps [of h ?P S t ?data ?lock] m by simp
    show "sweeps h ?P S t (snd (reclaim_dir h reg name t))"
    proof (cases ok)
      case False
      with m t1 show ?thesis by (simp add: reclaim_dir_def Let_def paths)
    next
      case True
      with m may_reclaim_dir_live [OF live, of ?data] have "j \<noteq> i" by auto
      note live1 = live_cluster_sweeps [OF t1 live]
      from live1 \<open>j \<noteq> i\<close> slash have safe: "grouped S t1" "apart ?P ?data" "foreign h t1 S ?data"
        by (auto simp: live_cluster_def distinguishable_def Let_def)
      define t2 where "t2 = killProcessesUsing h ?data t1"
      define t3 where "t3 = snd (removeAll h ?data t2)"
      have "sweeps h ?P S t1 t2" unfolding t2_def by (rule killProcessesUsing_sweeps [OF safe(1,3)])
      moreover have "sweeps h ?P S t2 t3" unfolding t3_def by (rule sweeps_removeAll [OF safe(2)])
      moreover have "deletable ?P ?lock"
        using deletable_entry [OF live1 component_lock [OF slash]] \<open>j \<noteq> i\<close>
          lock_not_json [of "''cluster-'' @ j" "''cluster-'' @ i"]
        by (simp add: lock_path_def del: lock_not_json)
      then have "sweeps h ?P S t3 (snd (remove h ?lock t3))"
        by (intro sweeps_remove) (simp_all add: deletable_def)
      ultimately have "sweeps h ?P S t (snd (remove h ?lock t3))"
        using t1 sweep.frame_trans by blast
      with m True show ?thesis by (simp add: reclaim_dir_def Let_def paths t2_def t3_def)
    qed
  qed
  with Inr show ?thesis by (simp add: sweepDataDirectories_def)
qed

lemma CleanOrphans_sweeps:
  assumes "live_cluster h (registry_path h cfg) i d S w" "is_dir w (registry_path h cfg)"
  shows "sweeps h (cluster_files (registry_path h cfg) i d) S w (snd (CleanOrphans h cfg w))"
proof -
  let ?reg = "registry_path h cfg" let ?P = "cluster_files ?reg i d"
  from assms have "registryDir h cfg w = (Inr ?reg, w)"
    using clean_abs_dir by (simp add: registryDir_def Let_def seqE_def wrapE_def mkdirAll_def live_cluster_def)
  moreover obtain n w1 where 1: "sweepRecords h ?reg w = (n, w1)" by fastforce
  moreover obtain m w2 where 2: "sweepDataDirectories h ?reg w1 = (m, w2)" by fastforce
  ultimately have eq: "snd (CleanOrphans h cfg w) = sweepStaleLocks h ?reg w2"
    by (simp add: CleanOrphans_def seqE_def)
  have s1: "sweeps h ?P S w w1" using sweepRecords_sweeps [OF assms(1)] 1 by simp
  note l1 = live_cluster_sweeps [OF s1 assms(1)]
  have s2: "sweeps h ?P S w1 w2" using sweepDataDirectories_sweeps [OF l1] 2 by simp
  note l2 = live_cluster_sweeps [OF s2 l1]
  show ?thesis unfolding eq
    using s1 s2 sweepStaleLocks_sweeps [OF l2] sweep.frame_trans by blast
qed

end
