(* ===== verification/Data_Directories.thy ===== *)
theory Data_Directories
  imports Sweep_Safety
begin

text \<open>
  How the names of data directories keep clusters apart in the sweep of \<^verbatim>\<open>registry.go\<close>: when a
  command line names the data directory of an id, why an id that is a prefix of another is not
  confused with it, and why a sweep spares a live cluster: \<open>CleanOrphans_spares_live\<close>, from where the directories
  lie, what the command lines of the cluster's processes name, and what the other records say. The last section is a
  worked example of that theorem.
\<close>

subsection \<open>Which directories a command line names\<close>

text \<open>The ids \<open>j\<close> for which a text contains \<open>stem @ j @ "/"\<close>, from left to right.\<close>

fun named_ids :: "string \<Rightarrow> string \<Rightarrow> string list" where
  "named_ids stem [] = []"
| "named_ids stem (c # s) =
    (let t = drop (length stem) (c # s)
     in if hasPrefix (c # s) stem \<and> CHR ''/'' \<in> set t
        then takeWhile (\<lambda>x. x \<noteq> CHR ''/'') t # named_ids stem s else named_ids stem s)"

lemma prefix_id:
  assumes "CHR ''/'' \<notin> set j"
  shows "prefix (stem @ j @ ''/'') s \<longleftrightarrow>
    prefix stem s \<and> CHR ''/'' \<in> set (drop (length stem) s) \<and>
    takeWhile (\<lambda>x. x \<noteq> CHR ''/'') (drop (length stem) s) = j"
proof
  assume "prefix (stem @ j @ ''/'') s"
  then obtain t where "s = stem @ j @ ''/'' @ t" by (auto simp: prefix_def)
  moreover have "takeWhile (\<lambda>x. x \<noteq> CHR ''/'') (j @ ''/'' @ t) = j" for t
  proof -
    have "\<And>x. x \<in> set j \<Longrightarrow> x \<noteq> CHR ''/''" using assms by auto
    then show ?thesis by (simp add: takeWhile_append2)
  qed
  ultimately show "prefix stem s \<and> CHR ''/'' \<in> set (drop (length stem) s) \<and>
      takeWhile (\<lambda>x. x \<noteq> CHR ''/'') (drop (length stem) s) = j"
    by (simp add: takeWhile_append2)
next
  assume r: "prefix stem s \<and> CHR ''/'' \<in> set (drop (length stem) s) \<and>
    takeWhile (\<lambda>x. x \<noteq> CHR ''/'') (drop (length stem) s) = j"
  then obtain t where s: "s = stem @ t" by (auto simp: prefix_def)
  with r obtain ys u where t: "t = ys @ CHR ''/'' # u" "CHR ''/'' \<notin> set ys"
    by (auto dest!: split_list_first)
  then have "\<And>x. x \<in> set ys \<Longrightarrow> x \<noteq> CHR ''/''" by auto
  with r s t(1) have "ys = j" by (simp add: takeWhile_append2)
  with t(1) have "t = j @ ''/'' @ u" by simp
  with s show "prefix (stem @ j @ ''/'') s" by (simp add: prefix_def)
qed

lemma contains_named:
  assumes "CHR ''/'' \<notin> set j" "stem \<noteq> []"
  shows "contains s (stem @ j @ ''/'') \<longleftrightarrow> j \<in> set (named_ids stem s)"
proof (induction s)
  case Nil
  then show ?case using assms by (simp add: contains_iff)
next
  case (Cons c s)
  have "contains (c # s) (stem @ j @ ''/'') \<longleftrightarrow> prefix (stem @ j @ ''/'') (c # s) \<or> contains s (stem @ j @ ''/'')"
    by (simp add: hasPrefix_iff)
  also have "\<dots> \<longleftrightarrow> j \<in> set (named_ids stem (c # s))"
    using prefix_id [OF assms(1), of stem "c # s"] by (auto simp: Cons.IH Let_def hasPrefix_iff)
  finally show ?case .
qed

text \<open>The beginning of every default data directory.\<close>

definition data_stem :: "host \<Rightarrow> string" where
  "data_stem h = tmp_dir h @ ''/'' @ dataDirPrefix"

lemma defaultDataDir_stem:
  "abs_dir (tmp_dir h) \<Longrightarrow> CHR ''/'' \<notin> set j \<Longrightarrow> defaultDataDir h j = data_stem h @ j"
  using path_join_abs [of "tmp_dir h" "dataDirPrefix @ j"]
  by (simp add: defaultDataDir_def data_stem_def dataDirPrefix_def component_def del: append.simps)

lemma references_default:
  assumes "abs_dir (tmp_dir h)" "CHR ''/'' \<notin> set j"
  shows "cmdlineReferences c (defaultDataDir h j) \<longleftrightarrow> j \<in> set (named_ids (data_stem h) c)"
proof -
  have "data_stem h \<noteq> []" by (simp add: data_stem_def)
  then show ?thesis
    using contains_named [OF assms(2), of "data_stem h" c] defaultDataDir_stem [OF assms]
    by (simp add: cmdlineReferences_def)
qed

text \<open>
  C10: \<open>cmdlineReferences\<close> matches a default data directory exactly: a command line references
  the directory of the id \<open>j\<close> if and only if \<open>j\<close> is one of the ids it names, read up to the
  next separator. In particular an id is never confused with one it is a prefix of.
\<close>

theorem cmdlineReferences_exact:
  assumes "abs_dir (tmp_dir h)" "CHR ''/'' \<notin> set j"
  shows "cmdlineReferences c (defaultDataDir h j) \<longleftrightarrow> j \<in> set (named_ids (data_stem h) c)"
  by (rule references_default [OF assms])

theorem cmdlineReferences_exact_witness:
  "\<not> cmdlineReferences ''pd --data-dir=/tmp/embedded-tikv-1234/pd'' (defaultDataDir example_host ''123'') \<and>
    named_ids (data_stem example_host) ''pd --data-dir=/tmp/embedded-tikv-1234/pd'' = [''1234'']"
proof
  have tmp: "abs_dir (tmp_dir example_host)" by code_simp
  show ids: "named_ids (data_stem example_host) ''pd --data-dir=/tmp/embedded-tikv-1234/pd'' = [''1234'']"
    by code_simp
  show "\<not> cmdlineReferences ''pd --data-dir=/tmp/embedded-tikv-1234/pd'' (defaultDataDir example_host ''123'')"
    using cmdlineReferences_exact [OF tmp, of "''123''" "''pd --data-dir=/tmp/embedded-tikv-1234/pd''"] ids
    by simp
qed

subsection \<open>Clusters with a default data directory\<close>

text \<open>The registry is outside every default data directory, and does not hold the temporary directory.\<close>

definition separate :: "host \<Rightarrow> string \<Rightarrow> bool" where
  "separate h reg \<longleftrightarrow>
    abs_dir reg \<and> abs_dir (tmp_dir h) \<and> \<not> under reg (tmp_dir h) \<and>
    (\<forall>k. CHR ''/'' \<notin> set k \<longrightarrow> \<not> under (defaultDataDir h k) reg)"

lemma separateI:
  assumes "abs_dir reg" "abs_dir (tmp_dir h)" "\<not> under reg (tmp_dir h)" "\<not> hasPrefix reg (data_stem h)"
  shows "separate h reg"
proof -
  have "\<not> under (defaultDataDir h k) reg" if "CHR ''/'' \<notin> set k" for k
    using assms(4) defaultDataDir_stem [OF assms(2) that] by (auto simp: under_iff hasPrefix_iff prefix_def)
  with assms show ?thesis by (simp add: separate_def)
qed

lemma not_under_shorter: "\<not> under (a @ ''/'' @ n) a"
  by (auto simp: under_iff dest: arg_cong [of _ _ length])

lemma defaultDataDir_path:
  "abs_dir (tmp_dir h) \<Longrightarrow> CHR ''/'' \<notin> set j \<Longrightarrow>
    defaultDataDir h j = tmp_dir h @ ''/'' @ dataDirPrefix @ j"
  by (simp add: defaultDataDir_stem data_stem_def)

lemma no_slash_dir: "CHR ''/'' \<notin> set j \<Longrightarrow> CHR ''/'' \<notin> set (dataDirPrefix @ j)"
  by (simp add: dataDirPrefix_def)

lemma not_under_registry:
  assumes "separate h reg" "CHR ''/'' \<notin> set j"
  shows "\<not> under reg (defaultDataDir h j)"
  using assms under_entry [of reg "tmp_dir h" "dataDirPrefix @ j"] no_slash_dir [OF assms(2)]
    defaultDataDir_path [OF _ assms(2)]
  by (auto simp: separate_def)

lemma under_comparable:
  assumes "under a p" "under b p"
  shows "under a b \<or> under b a"
proof -
  have deeper: "under x y" if "prefix (x @ ''/'') (y @ ''/'')" for x y :: string
  proof -
    from that obtain u where u: "y @ ''/'' = x @ ''/'' @ u" by (auto simp: prefix_def)
    show ?thesis
    proof (cases u rule: rev_cases)
      case Nil
      with u show ?thesis by simp
    next
      case (snoc us c)
      with u have "y = x @ ''/'' @ us" using append_eq_append_conv [of "[CHR ''/'']" "[c]"] by simp
      then show ?thesis by (auto simp: under_iff)
    qed
  qed
  have "prefix (x @ ''/'') (p @ ''/'')" if "under x p" for x
    using that by (auto simp: under_iff prefix_def)
  with assms have "prefix (a @ ''/'') (p @ ''/'')" "prefix (b @ ''/'') (p @ ''/'')" by blast+
  then show ?thesis using prefix_same_cases deeper by blast
qed

text \<open>
  Where the parts of a cluster lie: in its default data directory; or in a directory of the caller's that is
  apart from the registry, does not hold the temporary directory, and is not inside a default data directory.
\<close>

definition placed :: "host \<Rightarrow> string \<Rightarrow> string \<Rightarrow> string \<Rightarrow> bool" where
  "placed h reg i d \<longleftrightarrow>
    separate h reg \<and> CHR ''/'' \<notin> set i \<and>
    (d = defaultDataDir h i \<or>
      \<not> under d reg \<and> \<not> under reg d \<and> \<not> under d (tmp_dir h) \<and>
      (\<forall>k. CHR ''/'' \<notin> set k \<longrightarrow> \<not> under (defaultDataDir h k) d))"

lemma placedD:
  assumes "placed h reg i d"
  shows "\<not> under d reg" "\<not> under reg d" "\<not> under d (tmp_dir h)"
    "CHR ''/'' \<notin> set j \<Longrightarrow> j \<noteq> i \<Longrightarrow> \<not> under (defaultDataDir h j) d"
proof -
  have i: "CHR ''/'' \<notin> set i" and sep: "separate h reg" using assms by (simp_all add: placed_def)
  then have tmp: "abs_dir (tmp_dir h)" by (simp add: separate_def)
  note path = defaultDataDir_path [OF tmp]
  have "\<not> under (defaultDataDir h i) reg" "\<not> under reg (defaultDataDir h i)"
    "\<not> under (defaultDataDir h i) (tmp_dir h)"
    using sep i not_under_registry [OF sep i] not_under_shorter [of "tmp_dir h" "dataDirPrefix @ i"]
    by (simp_all add: separate_def path)
  with assms show "\<not> under d reg" "\<not> under reg d" "\<not> under d (tmp_dir h)"
    unfolding placed_def by blast+
  assume j: "CHR ''/'' \<notin> set j" "j \<noteq> i"
  have "\<not> under (defaultDataDir h j) (defaultDataDir h i)"
    using under_siblings [OF no_slash_dir [OF j(1)] no_slash_dir [OF i], of "tmp_dir h" "defaultDataDir h i"] j(2)
    by (auto simp: path [OF i] path [OF j(1)])
  with assms j(1) show "\<not> under (defaultDataDir h j) d" unfolding placed_def by blast
qed

lemma default_dirs_apart:
  assumes "placed h reg i d" "CHR ''/'' \<notin> set j" "j \<noteq> i"
  shows "apart (cluster_files reg i d) (defaultDataDir h j)"
proof -
  let ?D = "defaultDataDir h j" and ?tmp = "tmp_dir h"
  from assms(1) have sep: "separate h reg" and i: "CHR ''/'' \<notin> set i" by (simp_all add: placed_def)
  then have tmp: "abs_dir ?tmp" and out: "\<not> under reg ?tmp" "\<not> under ?D reg"
    using assms(2) by (simp_all add: separate_def)
  note path = defaultDataDir_path [OF tmp assms(2)]
  have entry: "\<not> under ?D (reg @ ''/'' @ n)" if "CHR ''/'' \<notin> set n" for n
    using under_entry [OF _ that, of ?D reg] out(2) not_under_registry [OF sep assms(2)]
    by (auto simp: under_iff)
  have "\<not> under ?D (record_path reg i)" "\<not> under ?D (lock_path reg i)"
    using entry [of "''cluster-'' @ i @ ''.json''"] entry [of "''cluster-'' @ i @ ''.lock''"] i
    by (simp_all add: record_path_def lock_path_def)
  moreover have "\<not> under d ?D"
  proof
    assume "under d ?D"
    then have "d = ?D \<or> under d ?tmp"
      using under_entry [of d ?tmp "dataDirPrefix @ j"] no_slash_dir [OF assms(2)] by (auto simp: path)
    then show False using placedD(3) [OF assms(1)] placedD(4) [OF assms] under_refl by blast
  qed
  then have "\<not> under ?D p" if "under d p" for p
    using under_comparable [OF that, of ?D] placedD(4) [OF assms] by blast
  moreover have "parent ?D = ?tmp"
    unfolding path using tmp assms(2)
    by (intro parent_append) (auto simp: component_def dataDirPrefix_def)
  moreover have "\<not> cluster_files reg i d ?tmp"
    using out(1) placedD(3) [OF assms(1)]
    by (auto simp: cluster_files_def record_path_def lock_path_def under_iff)
  ultimately show ?thesis by (auto simp: apart_def cluster_files_def)
qed

text \<open>
  The processes \<open>S\<close> of a cluster: they run in groups of their own, and the only default data directory that their
  command lines name is that of the cluster. No process names one but those that a signal can be sent to (the first
  process of the machine, whose negated id would be a broadcast, does not).
\<close>

definition own_processes :: "host \<Rightarrow> string \<Rightarrow> (int \<Rightarrow> bool) \<Rightarrow> world \<Rightarrow> bool" where
  "own_processes h i S w \<longleftrightarrow> grouped S w \<and>
    (\<forall>q \<in> set (procs w). alive q \<longrightarrow> (\<forall>j \<in> set (named_ids (data_stem h) (shown (procfs_seen h w) q)).
      1 < proc_pid q \<and> (S (proc_pid q) \<longrightarrow> j = i)))"

text \<open>
  The other records: one that owns its directory names the default directory of another id; and the processes of the
  cluster are not mistaken for a server of one that does not (its binary and directory are not both on the command
  line of a process of \<open>S\<close> that happens to have the recorded id).
\<close>

definition other_records :: "host \<Rightarrow> string \<Rightarrow> string \<Rightarrow> (int \<Rightarrow> bool) \<Rightarrow> world \<Rightarrow> bool" where
  "other_records h reg i S w \<longleftrightarrow>
    (\<forall>n s r. n \<noteq> ''cluster-'' @ i @ ''.json'' \<longrightarrow> file_text w (reg @ ''/'' @ n) = Some s \<longrightarrow> decode_record s = Some r \<longrightarrow>
      (if rec_OwnsDataPath r then \<exists>j. j \<noteq> i \<and> CHR ''/'' \<notin> set j \<and> rec_DataPath r = defaultDataDir h j
       else \<forall>s \<in> set (rec_Servers r). not_mistaken h w S (rec_DataPath r) s))"

lemma own_processes_foreign:
  assumes "own_processes h i S w" "abs_dir (tmp_dir h)" "CHR ''/'' \<notin> set j" "j \<noteq> i"
  shows "foreign h w S (defaultDataDir h j)"
  using assms by (auto simp: own_processes_def foreign_def references_default)

lemma placed_distinguishable:
  assumes "placed h reg i d" "own_processes h i S w" "other_records h reg i S w"
  shows "distinguishable h reg i d S w"
proof -
  from assms(1) have tmp: "abs_dir (tmp_dir h)" and i: "CHR ''/'' \<notin> set i" by (simp_all add: placed_def separate_def)
  have default: "apart (cluster_files reg i d) (defaultDataDir h j) \<and> foreign h w S (defaultDataDir h j)"
    if "j \<noteq> i" "CHR ''/'' \<notin> set j" for j
    using default_dirs_apart [OF assms(1) that(2,1)] own_processes_foreign [OF assms(2) tmp that(2,1)] by blast
  have "record_safe h (cluster_files reg i d) S w (reg @ ''/'' @ n)" if "n \<noteq> ''cluster-'' @ i @ ''.json''" for n
  proof (cases "file_text w (reg @ ''/'' @ n)")
    case raw: (Some s)
    show ?thesis
    proof (cases "decode_record s")
      case (Some r)
      with raw that assms(3)
      have r: "if rec_OwnsDataPath r then \<exists>j. j \<noteq> i \<and> CHR ''/'' \<notin> set j \<and> rec_DataPath r = defaultDataDir h j
          else \<forall>s \<in> set (rec_Servers r). not_mistaken h w S (rec_DataPath r) s"
        unfolding other_records_def by blast
      show ?thesis
      proof (cases "rec_OwnsDataPath r")
        case True
        with r obtain j where "j \<noteq> i" "CHR ''/'' \<notin> set j" "rec_DataPath r = defaultDataDir h j" by auto
        with default [of j] Some raw True foreign_not_mistaken show ?thesis
          by (simp add: record_safe_def)
      next
        case False
        with r Some raw show ?thesis by (simp add: record_safe_def)
      qed
    next
      case None
      with raw show ?thesis by (simp add: record_safe_def)
    qed
  qed (simp add: record_safe_def)
  moreover have "\<not> cluster_files reg i d reg"
    using placedD(1) [OF assms(1)] by (auto simp: cluster_files_def record_path_def lock_path_def)
  ultimately show ?thesis
    using default placedD(2) [OF assms(1)] assms(2) by (simp add: distinguishable_def Let_def own_processes_def)
qed

text \<open>
  C1: \<open>CleanOrphans\<close> does not touch a live cluster. Take a cluster whose lock is held, whose directories lie apart from
  the registry and from other default data directories (\<open>placed\<close>), whose processes name no default data directory but
  its own (\<open>own_processes\<close>), and in whose registry the other records that own their directory name the default
  directory of another id, while its processes are not mistaken for the servers of those that do not
  (\<open>other_records\<close>). Then a sweep leaves the record, the lock and every path below the data directory as they were,
  kills none of the processes of the cluster, and leaves its lock held. An id that another id begins with is no
  danger, and neither is a failing system call, with one exception: the lock file can be examined
  (\<open>os.Stat\<close> of it does not fail), for the second pass reads any error there as a missing lock.
\<close>

theorem CleanOrphans_spares_live:
  assumes "lock_held w (lock_path (registry_path h cfg) i)" "io_fault h OpStat (lock_path (registry_path h cfg) i) = None"
    and "placed h (registry_path h cfg) i d" "is_dir w (registry_path h cfg)"
    and "own_processes h i S w" "other_records h (registry_path h cfg) i S w"
  shows "(case CleanOrphans h cfg w of (_, w') \<Rightarrow>
      same_files (cluster_files (registry_path h cfg) i d) w w' \<and> same_procs S w w' \<and>
      locks w' = locks w \<and> lock_held w' (lock_path (registry_path h cfg) i))"
proof -
  have live: "live_cluster h (registry_path h cfg) i d S w"
    using assms(1-3) placed_distinguishable [OF assms(3,5,6)] by (simp add: live_cluster_def placed_def separate_def)
  note s = CleanOrphans_sweeps [OF live assms(4)]
  have "lock_held (snd (CleanOrphans h cfg w)) (lock_path (registry_path h cfg) i)"
    by (rule lock_held_sweeps [OF s assms(1)])
  with sweepsD [OF s] show ?thesis by (cases "CleanOrphans h cfg w") simp
qed

subsection \<open>An example\<close>

text \<open>
  A machine with a live cluster 7 (lock held, PD running as process 101) and the remains of a
  cluster 8 whose owner died: record, lock, data directory, and PD still running as process 102.
\<close>

definition example_server :: "int \<Rightarrow> string \<Rightarrow> os_process" where
  "example_server p i = \<lparr>proc_pid = p, proc_group = p,
     argv = [''/b/pd-server'', ''--data-dir=/tmp/embedded-tikv-'' @ i @ ''/pd''], alive = True, exit_at = None\<rparr>"

definition orphan_record :: clusterRecord where
  "orphan_record = \<lparr>rec_Created = ''2026-01-01T00:00:00Z'', rec_OwnerPID = 90,
     rec_DataPath = ''/tmp/embedded-tikv-8'', rec_OwnsDataPath = True,
     rec_Servers = [\<lparr>sr_Name = ''pd'', sr_PID = 102, sr_Binary = ''/b/pd-server''\<rparr>],
     rec_id = [], rec_path = [], rec_lock = None\<rparr>"

definition example_registry :: string where
  "example_registry = ''/home/u/.embedded-tikv/run''"

definition example_two :: world where
  "example_two = example_world\<lparr>
     files := [(''/tmp'', Directory 0), (''/home'', Directory 0), (''/home/u'', Directory 0),
       (''/home/u/.embedded-tikv'', Directory 0), (example_registry, Directory 0),
       (lock_path example_registry ''7'', Regular 1 [] False),
       (record_path example_registry ''7'', Regular 2 (record_text example_record) False),
       (lock_path example_registry ''8'', Regular 3 [] False),
       (record_path example_registry ''8'', Regular 4 (record_text orphan_record) False),
       (''/tmp/embedded-tikv-7'', Directory 0), (''/tmp/embedded-tikv-8'', Directory 0),
       (''/tmp/embedded-tikv-8/pd'', Regular 5 [] False)],
     locks := [1 \<mapsto> 9],
     procs := procs example_world @ [example_server 101 ''7'', example_server 102 ''8''],
     next_ino := 6\<rparr>"

lemma example_two_files:
  "file_text example_two p = Some s \<Longrightarrow>
    s = [] \<or> p = record_path example_registry ''7'' \<or>
    p = record_path example_registry ''8'' \<and> s = record_text orphan_record"
  by (simp add: file_text_def example_two_def lookup_def split: if_splits)

lemma decode_orphan: "decode_record (record_text orphan_record) = Some orphan_record"
proof -
  have "record_ok orphan_record" "on_disk orphan_record = orphan_record" by code_simp+
  then show ?thesis using decode_record_text by metis
qed

lemma example_data: "defaultDataDir example_host ''7'' = ''/tmp/embedded-tikv-7''"
  "defaultDataDir example_host ''8'' = ''/tmp/embedded-tikv-8''"
  by code_simp+

lemma example_registry_eq: "registry_path example_host DefaultConfig = example_registry"
  by code_simp

lemma example_two_processes: "own_processes example_host ''7'' (\<lambda>p. p = 101) example_two"
  by code_simp

lemma example_two_placed: "placed example_host example_registry ''7'' ''/tmp/embedded-tikv-7''"
proof -
  have "separate example_host example_registry" by (rule separateI) code_simp+
  then show ?thesis by (simp add: placed_def example_data)
qed

lemma example_two_records: "other_records example_host example_registry ''7'' (\<lambda>p. p = 101) example_two"
  unfolding other_records_def
proof (intro allI impI)
  fix n s r
  assume n: "n \<noteq> ''cluster-'' @ ''7'' @ ''.json''" and s: "file_text example_two (example_registry @ ''/'' @ n) = Some s"
    and r: "decode_record s = Some r"
  have "example_registry @ ''/'' @ n \<noteq> record_path example_registry ''7''" using n by (simp add: record_path_def)
  with example_two_files [OF s] have "s = [] \<or> s = record_text orphan_record" by blast
  moreover have "decode_record [] = None" by code_simp
  ultimately have "r = orphan_record" using r decode_orphan by auto
  moreover have "rec_DataPath orphan_record = defaultDataDir example_host ''8''"
    by (simp add: example_data) (simp add: orphan_record_def)
  moreover have "rec_OwnsDataPath orphan_record" by (simp add: orphan_record_def)
  ultimately show "if rec_OwnsDataPath r then \<exists>j. j \<noteq> ''7'' \<and> CHR ''/'' \<notin> set j \<and> rec_DataPath r = defaultDataDir example_host j
      else \<forall>s \<in> set (rec_Servers r). not_mistaken example_host example_two (\<lambda>p. p = 101) (rec_DataPath r) s"
    by (auto intro!: exI [of _ "''8''"])
qed

theorem CleanOrphans_spares_live_witness:
  "fst (CleanOrphans example_host DefaultConfig example_two) = Inr 1 \<and>
    (case CleanOrphans example_host DefaultConfig example_two of (_, w') \<Rightarrow>
      same_files (cluster_files example_registry ''7'' ''/tmp/embedded-tikv-7'') example_two w' \<and>
      same_procs (\<lambda>p. p = 101) example_two w' \<and> locks w' = locks example_two \<and>
      lock_held w' (lock_path example_registry ''7''))"
proof
  show "fst (CleanOrphans example_host DefaultConfig example_two) = Inr 1" by code_simp
  have "lock_held example_two (lock_path example_registry ''7'')"
    by (simp add: lock_held_def lookup_def example_two_def) (simp add: lock_path_def example_registry_def)
  moreover have "io_fault example_host OpStat (lock_path example_registry ''7'') = None" by (simp add: example_host_def)
  moreover have "is_dir example_two example_registry" by code_simp
  ultimately show "(case CleanOrphans example_host DefaultConfig example_two of (_, w') \<Rightarrow>
      same_files (cluster_files example_registry ''7'' ''/tmp/embedded-tikv-7'') example_two w' \<and>
      same_procs (\<lambda>p. p = 101) example_two w' \<and> locks w' = locks example_two \<and>
      lock_held w' (lock_path example_registry ''7''))"
    using example_two_placed example_two_processes example_two_records
    by (intro CleanOrphans_spares_live [of _ example_host DefaultConfig, unfolded example_registry_eq])
qed

end
