(* ===== verification/Ports.thy ===== *)
theory Ports
  imports Kernel
begin

text \<open>
  \<^verbatim>\<open>ports.go\<close>: ports come from the kernel, by listening on port 0 and closing, and are withheld
  from later callers in this process for \<open>portReservationTTL\<close>. The table \<open>portReserved\<close> is a
  package variable and lives in the world; the kernel's choices are \<open>kernel_port\<close>.
\<close>

text \<open>\<open>time.Minute\<close>, in nanoseconds.\<close>

definition portReservationTTL :: int where
  "portReservationTTL = 60000000000"

definition reservePort :: "int \<Rightarrow> world \<Rightarrow> bool \<times> world" where
  "reservePort port w =
    (let kept = filter (\<lambda>(_, t). \<not> now w - t > portReservationTTL) (portReserved w)
     in if map_of kept port \<noteq> None then (False, w\<lparr>portReserved := kept\<rparr>)
        else (True, w\<lparr>portReserved := AList.update port (now w) kept\<rparr>))"

definition listenForPort :: "host \<Rightarrow> string \<Rightarrow> int io" where
  "listenForPort h addr w =
    (case io_fault h OpListen addr of
      Some e \<Rightarrow> (Inl (''embedded-tikv: unable to allocate a port on '' @ addr @ '': '' @ errno_text e), w)
    | None \<Rightarrow> (Inr (kernel_port h (binds w)), w\<lparr>binds := Suc (binds w)\<rparr>))"

text \<open>The loop of \<open>freePort\<close>, with the number of rounds left.\<close>

fun freePort_loop :: "host \<Rightarrow> string \<Rightarrow> nat \<Rightarrow> int io" where
  "freePort_loop h addr n w =
    (if n = 0 then (Inl (''embedded-tikv: could not find an unreserved free port on '' @ addr), w)
     else case listenForPort h addr w of
       (Inl e, w1) \<Rightarrow> (Inl e, w1)
     | (Inr port, w1) \<Rightarrow>
         (case reservePort port w1 of
           (True, w2) \<Rightarrow> (Inr port, w2)
         | (False, w2) \<Rightarrow> freePort_loop h addr (n - 1) w2))"

declare freePort_loop.simps [simp del]

definition freePort :: "host \<Rightarrow> string \<Rightarrow> int io" where
  "freePort h addr = freePort_loop h addr 100"

fun freePorts_loop :: "host \<Rightarrow> string \<Rightarrow> nat \<Rightarrow> int list \<Rightarrow> (int list) io" where
  "freePorts_loop h addr 0 ports w = (Inr ports, w)"
| "freePorts_loop h addr (Suc n) ports w =
    (case freePort h addr w of
      (Inl e, w1) \<Rightarrow> (Inl e, w1)
    | (Inr port, w1) \<Rightarrow> freePorts_loop h addr n (ports @ [port]) w1)"

definition freePorts :: "host \<Rightarrow> string \<Rightarrow> nat \<Rightarrow> (int list) io" where
  "freePorts h addr n = freePorts_loop h addr n []"

subsection \<open>Reservations\<close>

definition reservation_live :: "world \<Rightarrow> int \<Rightarrow> bool" where
  "reservation_live w port \<longleftrightarrow>
    list_ex (\<lambda>(p, t). p = port \<and> now w - t \<le> portReservationTTL) (portReserved w)"

definition withheld :: "world \<Rightarrow> int set" where
  "withheld w = {p. reservation_live w p}"

text \<open>Nothing but the reservation table and the kernel's port counter changes.\<close>

definition ports_frame :: "world \<Rightarrow> world \<Rightarrow> bool" where
  "ports_frame w w' \<longleftrightarrow>
    w\<lparr>portReserved := [], binds := 0\<rparr> = w'\<lparr>portReserved := [], binds := 0\<rparr> \<and>
    (\<forall>p. reservation_live w p \<longrightarrow> reservation_live w' p)"

interpretation ports: frame ports_frame
  by unfold_locales (auto simp: ports_frame_def)

lemma ports_frame_now: "ports_frame w w' \<Longrightarrow> now w' = now w"
  unfolding ports_frame_def
  by (metis (no_types, lifting) world.select_convs(5) world.surjective world.update_convs(11,14))

lemma map_of_filter_live:
  "map_of (filter (\<lambda>(_, t). P t) xs) k = Some v \<Longrightarrow> (k, v) \<in> set xs \<and> P v"
  by (auto dest!: map_of_SomeD)

lemma reservePort_spec:
  assumes "reservePort port w = (ok, w')"
  shows "ok \<longleftrightarrow> \<not> reservation_live w port" "reservation_live w' port" "ports_frame w w'"
proof -
  let ?kept = "filter (\<lambda>(_, t). \<not> now w - t > portReservationTTL) (portReserved w)"
  have live: "reservation_live w p \<longleftrightarrow> p \<in> fst ` set ?kept" for p
    by (force simp: reservation_live_def list_ex_iff image_iff)
  have taken: "map_of ?kept port \<noteq> None \<longleftrightarrow> reservation_live w port"
    by (simp add: live map_of_eq_None_iff)
  have kept: "reservation_live (w\<lparr>portReserved := ?kept\<rparr>) p \<longleftrightarrow> reservation_live w p" for p
    by (force simp: reservation_live_def list_ex_iff)
  have added: "reservation_live (w\<lparr>portReserved := AList.update port (now w) ?kept\<rparr>) p"
    if "p = port \<or> reservation_live w p" for p
  proof -
    have "p \<in> fst ` set (AList.update port (now w) ?kept)" using that by (auto simp: dom_update live)
    then obtain t where t: "(p, t) \<in> set (AList.update port (now w) ?kept)" by auto
    have "t = now w \<or> (p, t) \<in> set ?kept" using in_set_update [OF t] by auto
    then have "now w - t \<le> portReservationTTL" by (auto simp: portReservationTTL_def)
    with t show ?thesis by (auto simp: reservation_live_def list_ex_iff intro!: bexI [of _ "(p, t)"])
  qed
  from assms show "ok \<longleftrightarrow> \<not> reservation_live w port"
    using taken by (auto simp: reservePort_def Let_def split: if_splits)
  from assms show "reservation_live w' port"
    using taken kept added by (auto simp: reservePort_def Let_def split: if_splits)
  from assms show "ports_frame w w'"
    using kept added by (auto simp: reservePort_def Let_def ports_frame_def split: if_splits)
qed

subsection \<open>Allocation\<close>

lemma listenForPort_frame: "listenForPort h addr w = (r, w') \<Longrightarrow> ports_frame w w'"
  by (auto simp: listenForPort_def ports_frame_def reservation_live_def split: option.splits)

lemma freePort_loop_spec:
  "freePort_loop h addr n w = (r, w') \<Longrightarrow>
    ports_frame w w' \<and> (\<forall>p. r = Inr p \<longrightarrow> \<not> reservation_live w p \<and> reservation_live w' p)"
proof (induction h addr n w rule: freePort_loop.induct)
  case (1 h addr n w)
  show ?case
  proof (cases "n = 0")
    case True
    with "1.prems" show ?thesis by (auto simp: freePort_loop.simps [of h addr 0] ports.frame_refl)
  next
    case False
    obtain l w1 where l: "listenForPort h addr w = (l, w1)" by (cases "listenForPort h addr w")
    note fl = listenForPort_frame [OF l]
    have l_live: "reservation_live w1 p \<longleftrightarrow> reservation_live w p" for p
      using l by (auto simp: listenForPort_def reservation_live_def split: option.splits)
    show ?thesis
    proof (cases l)
      case (Inl e)
      with "1.prems" False l fl show ?thesis by (auto simp: freePort_loop.simps [of h addr n])
    next
      case (Inr port)
      obtain ok w2 where r: "reservePort port w1 = (ok, w2)" by (cases "reservePort port w1")
      note sp = reservePort_spec [OF r]
      note f2 = ports.frame_trans [OF fl sp(3)]
      show ?thesis
      proof (cases ok)
        case True
        with "1.prems" False l Inr r sp l_live f2 show ?thesis
          by (auto simp: freePort_loop.simps [of h addr n])
      next
        case f: False
        with "1.prems" False l Inr r have "freePort_loop h addr (n - 1) w2 = (r, w')"
          by (simp add: freePort_loop.simps [of h addr n])
        from "1.IH" [OF False l [symmetric] Inr r [symmetric] _ this] f
        have "ports_frame w2 w' \<and> (\<forall>p. r = Inr p \<longrightarrow> \<not> reservation_live w2 p \<and> reservation_live w' p)"
          by auto
        moreover have "reservation_live w p \<Longrightarrow> reservation_live w2 p" for p
          using f2 by (simp add: ports_frame_def)
        ultimately show ?thesis using ports.frame_trans [OF f2] by blast
      qed
    qed
  qed
qed

lemma freePort_spec:
  assumes "freePort h addr w = (r, w')"
  shows "ports_frame w w'"
    and "r = Inr p \<Longrightarrow> \<not> reservation_live w p \<and> reservation_live w' p"
  using freePort_loop_spec assms unfolding freePort_def by blast+

lemma freePorts_loop_spec:
  "freePorts_loop h addr n ports w = (r, w') \<Longrightarrow> distinct ports \<Longrightarrow>
    (\<forall>p \<in> set ports. reservation_live w p) \<Longrightarrow>
    ports_frame w w' \<and>
    (\<forall>ps. r = Inr ps \<longrightarrow> (\<exists>qs. ps = ports @ qs \<and> length qs = n \<and> distinct ps \<and>
       (\<forall>p \<in> set qs. \<not> reservation_live w p) \<and> (\<forall>p \<in> set ps. reservation_live w' p)))"
proof (induction h addr n ports w arbitrary: w' rule: freePorts_loop.induct)
  case (1 h addr ports w)
  then show ?case by (auto simp: ports.frame_refl)
next
  case (2 h addr n ports w)
  obtain r1 w1 where c: "freePort h addr w = (r1, w1)" by (cases "freePort h addr w")
  note f1 = freePort_spec(1) [OF c]
  then have keep: "reservation_live w p \<Longrightarrow> reservation_live w1 p" for p
    by (simp add: ports_frame_def)
  show ?case
  proof (cases r1)
    case (Inl e)
    with 2(2) c f1 show ?thesis by auto
  next
    case (Inr port)
    note new = freePort_spec(2) [OF c Inr]
    have rest: "freePorts_loop h addr n (ports @ [port]) w1 = (r, w')" using 2(2) c Inr by simp
    have IH: "ports_frame w1 w' \<and>
      (\<forall>ps. r = Inr ps \<longrightarrow> (\<exists>qs. ps = (ports @ [port]) @ qs \<and> length qs = n \<and> distinct ps \<and>
       (\<forall>p \<in> set qs. \<not> reservation_live w1 p) \<and> (\<forall>p \<in> set ps. reservation_live w' p)))"
      using "2.IH" [OF c [symmetric] Inr rest] 2(3,4) new keep by auto
    have "\<exists>qs. ps = ports @ qs \<and> length qs = Suc n \<and> distinct ps \<and>
        (\<forall>p \<in> set qs. \<not> reservation_live w p) \<and> (\<forall>p \<in> set ps. reservation_live w' p)"
      if "r = Inr ps" for ps
    proof -
      from IH that obtain qs where "ps = ports @ port # qs" "length qs = n" "distinct ps"
        "\<forall>p \<in> set qs. \<not> reservation_live w1 p" "\<forall>p \<in> set ps. reservation_live w' p" by auto
      then show ?thesis using new keep by (intro exI [of _ "port # qs"]) auto
    qed
    then show ?thesis using IH ports.frame_trans [OF f1] by blast
  qed
qed

subsection \<open>Properties\<close>

text \<open>
  C19: the ports of a cluster. When \<open>freePorts\<close> succeeds it returns as many ports as asked
  for, all different, none withheld for another caller of this process when it was called,
  and all of them withheld from now on; and no reservation that was live is lost.
\<close>

theorem freePorts_correct:
  "(case freePorts h addr n w of
      (Inl e, w') \<Rightarrow> withheld w \<subseteq> withheld w'
    | (Inr ps, w') \<Rightarrow> length ps = n \<and> distinct ps \<and> set ps \<inter> withheld w = {} \<and>
        withheld w \<union> set ps \<subseteq> withheld w')"
proof (cases "freePorts h addr n w")
  case (Pair r w')
  then have "freePorts_loop h addr n [] w = (r, w')" by (simp add: freePorts_def)
  from freePorts_loop_spec [OF this] show ?thesis
    using Pair by (cases r) (auto simp: ports_frame_def withheld_def)
qed

end
