(* ===== verification/Toml.thy ===== *)
theory Toml
  imports Config
begin

text \<open>
  \<^verbatim>\<open>toml.go\<close>: dotted configuration keys are expanded into nested tables before the TOML
  encoder, which is third-party code and an argument here (\<open>encode\<close>), renders them. Tables are values
  here; \<open>Toml_Reference\<close> has them by reference.

  \<open>insert_path\<close> is one round of the outer loop of \<open>nestConfig\<close>. The Go code walks down the
  tables by reference and writes into the last one; the model returns the updated tables.

  Proved: what a successful expansion holds under every dotted key, that it holds nothing
  else, when it succeeds, and that the order in which the map yields its keys is irrelevant.
\<close>

definition sortedKeys :: "(string \<times> 'v) list \<Rightarrow> string list" where
  "sortedKeys m = sort (map fst m)"

definition invalid_key :: "string \<Rightarrow> go_error" where
  "invalid_key key = ''embedded-tikv: invalid configuration key '' @ quote key"

definition conflicting_key :: "string \<Rightarrow> string \<Rightarrow> go_error" where
  "conflicting_key key other =
    ''embedded-tikv: configuration key '' @ quote key @ '' conflicts with '' @ quote other"

definition key_is_table :: "string \<Rightarrow> go_error" where
  "key_is_table key =
    ''embedded-tikv: configuration key '' @ quote key @ '' is also used as a table''"

fun insert_path ::
  "string \<Rightarrow> string list \<Rightarrow> string list \<Rightarrow> setting \<Rightarrow> settings \<Rightarrow> settings result" where
  "insert_path key walked [] v table = Inl (invalid_key key)"
| "insert_path key walked [leaf] v table =
    (if leaf = [] then Inl (invalid_key key)
     else case map_of table leaf of
       Some (VTable _) \<Rightarrow> Inl (key_is_table key)
     | _ \<Rightarrow> Inr (AList.update leaf v table))"
| "insert_path key walked (segment # s # ss) v table =
    (if segment = [] then Inl (invalid_key key)
     else let down = (\<lambda>sub. map_sum id (\<lambda>sub'. AList.update segment (VTable sub') table)
                        (insert_path key (walked @ [segment]) (s # ss) v sub))
          in case map_of table segment of
            None \<Rightarrow> down []
          | Some VNil \<Rightarrow> down []
          | Some (VTable existing) \<Rightarrow> down existing
          | Some _ \<Rightarrow> Inl (conflicting_key key (join ''.'' (walked @ [segment]))))"

fun nest_keys :: "settings \<Rightarrow> string list \<Rightarrow> settings \<Rightarrow> settings result" where
  "nest_keys config [] root = Inr root"
| "nest_keys config (key # keys) root =
    (case insert_path key [] (split_on (CHR ''.'') key) (the (map_of config key)) root of
      Inl e \<Rightarrow> Inl e
    | Inr root' \<Rightarrow> nest_keys config keys root')"

definition nestConfig :: "settings \<Rightarrow> settings result" where
  "nestConfig config = nest_keys config (sortedKeys config) []"

definition writeTOML :: "(settings \<Rightarrow> string result) \<Rightarrow> settings \<Rightarrow> string result" where
  "writeTOML encode config =
    (case nestConfig config of Inl e \<Rightarrow> Inl e | Inr nested \<Rightarrow> encode nested)"

text \<open>\<open>maps.Copy\<close> of the defaults, then of the overrides, into a new map.\<close>

definition mergeConfig :: "settings \<Rightarrow> settings \<Rightarrow> settings" where
  "mergeConfig defaults overrides =
    fold (\<lambda>(k, v) m. AList.update k v m) overrides
      (fold (\<lambda>(k, v) m. AList.update k v m) defaults [])"

subsection \<open>Merging\<close>

lemma map_of_fold_update:
  "distinct (map fst xs) \<Longrightarrow>
    map_of (fold (\<lambda>(k, v) m. AList.update k v m) xs m) = map_of m ++ map_of xs"
proof (induction xs arbitrary: m)
  case Nil
  then show ?case by simp
next
  case (Cons x xs)
  obtain k v where x: "x = (k, v)" by (cases x)
  with Cons.prems have "map_of xs k = None" by (auto simp: map_of_eq_None_iff)
  with Cons x show ?case by (auto simp: update_conv' map_add_def fun_eq_iff split: option.splits)
qed

lemma distinct_fold_update:
  "distinct (map fst m) \<Longrightarrow> distinct (map fst (fold (\<lambda>(k, v) m. AList.update k v m) xs m))"
  by (induction xs arbitrary: m) (auto simp: distinct_update)

lemma map_of_mergeConfig:
  "distinct (map fst d) \<Longrightarrow> distinct (map fst o') \<Longrightarrow>
    map_of (mergeConfig d o') = map_of d ++ map_of o'"
  by (simp add: mergeConfig_def map_of_fold_update)

lemma distinct_mergeConfig: "distinct (map fst (mergeConfig d o'))"
  by (simp add: mergeConfig_def distinct_fold_update)

subsection \<open>Reading nested tables\<close>

text \<open>The value a reader of the nested tables finds at a dotted path.\<close>

fun get_path :: "settings \<Rightarrow> string list \<Rightarrow> setting option" where
  "get_path table [] = None"
| "get_path table [leaf] = map_of table leaf"
| "get_path table (segment # s # ss) =
    (case map_of table segment of Some (VTable sub) \<Rightarrow> get_path sub (s # ss) | _ \<Rightarrow> None)"

definition is_scalar :: "setting \<Rightarrow> bool" where
  "is_scalar v \<longleftrightarrow> (case v of VTable _ \<Rightarrow> False | VNil \<Rightarrow> False | _ \<Rightarrow> True)"

lemma is_scalar_not [simp]: "\<not> is_scalar (VTable t)" "\<not> is_scalar VNil"
  by (simp_all add: is_scalar_def)

text \<open>A successful descent: the subtable it went into, and the subtable it left.\<close>

lemma insert_path_step:
  assumes "insert_path key walked (segment # s # ss) v table = Inr t'"
  obtains sub sub' where
    "segment \<noteq> []" "insert_path key (walked @ [segment]) (s # ss) v sub = Inr sub'"
    "t' = AList.update segment (VTable sub') table"
    "map_of table segment = Some (VTable sub) \<or>
      sub = [] \<and> (map_of table segment = None \<or> map_of table segment = Some VNil)"
  using assms
  by (auto simp: Let_def map_sum_def split: if_splits option.splits setting.splits sum.splits)

lemma get_path_empty [simp]: "get_path [] p = None"
  by (cases "([] :: settings, p)" rule: get_path.cases) auto

lemma insert_path_get:
  "insert_path key walked segs v t = Inr t' \<Longrightarrow> get_path t' segs = Some v"
proof (induction key walked segs v t arbitrary: t' rule: insert_path.induct)
  case (2 key walked leaf v table)
  then show ?case by (auto simp: update_conv' split: if_splits option.splits setting.splits)
next
  case (3 key walked segment s ss v table)
  from "3.prems" show ?case
    by (rule insert_path_step) (use "3.IH" in \<open>auto simp: update_conv'\<close>)
qed simp

text \<open>An insertion leaves the other scalars of the tables alone.\<close>

lemma insert_path_other:
  "insert_path key walked segs v t = Inr t' \<Longrightarrow> is_scalar v \<Longrightarrow> is_scalar u \<Longrightarrow> p \<noteq> segs \<Longrightarrow>
    get_path t' p = Some u \<longleftrightarrow> get_path t p = Some u"
proof (induction key walked segs v t arbitrary: t' p rule: insert_path.induct)
  case (2 key walked leaf v table)
  then show ?case
    by (cases p rule: list.exhaust; cases "tl p")
      (auto simp: update_conv' split: if_splits option.splits setting.splits)
next
  case (3 key walked segment s ss v table)
  from "3.prems"(1) obtain sub sub' where step: "segment \<noteq> []"
      "insert_path key (walked @ [segment]) (s # ss) v sub = Inr sub'"
      "t' = AList.update segment (VTable sub') table"
      "map_of table segment = Some (VTable sub) \<or>
        sub = [] \<and> (map_of table segment = None \<or> map_of table segment = Some VNil)"
    by (rule insert_path_step)
  have IH: "q \<noteq> s # ss \<Longrightarrow> get_path sub' q = Some u \<longleftrightarrow> get_path sub q = Some u" for q
    using "3.IH" step(1,2) "3.prems"(2,3) by blast
  show ?case
  proof (cases "(t', p)" rule: get_path.cases)
    case (3 table' a b q)
    then show ?thesis using step(3,4) IH [of "b # q"] "3.prems"(4)
      by (cases "a = segment") (auto simp: update_conv' split: option.splits setting.splits)
  qed (use step(3,4) "3.prems"(3) in \<open>auto simp: update_conv'\<close>)
qed simp

text \<open>Tables that hold no nil and no empty table, as every expansion of scalars does.\<close>

fun full :: "setting \<Rightarrow> bool" where
  "full (VTable t) \<longleftrightarrow> t \<noteq> [] \<and> (\<forall>v \<in> snd ` set t. full v)"
| "full VNil \<longleftrightarrow> False"
| "full _ \<longleftrightarrow> True"

definition full_table :: "settings \<Rightarrow> bool" where
  "full_table t \<longleftrightarrow> (\<forall>v \<in> snd ` set t. full v)"

lemma full_table_update: "full_table t \<Longrightarrow> full v \<Longrightarrow> full_table (AList.update k v t)"
  by (induction t) (auto simp: full_table_def)

lemma full_tableD: "full_table t \<Longrightarrow> map_of t k = Some v \<Longrightarrow> full v"
  by (force simp: full_table_def dest: map_of_SomeD)

lemma update_not_Nil [simp]: "AList.update k v t \<noteq> []"
  by (cases t) auto

lemma insert_path_full:
  "insert_path key walked segs v t = Inr t' \<Longrightarrow> full v \<Longrightarrow> full_table t \<Longrightarrow> full_table t' \<and> t' \<noteq> []"
proof (induction key walked segs v t arbitrary: t' rule: insert_path.induct)
  case (2 key walked leaf v table)
  then show ?case
    by (auto intro!: full_table_update split: if_splits option.splits setting.splits)
next
  case (3 key walked segment s ss v table)
  from "3.prems"(1) obtain sub sub' where step: "segment \<noteq> []"
      "insert_path key (walked @ [segment]) (s # ss) v sub = Inr sub'"
      "t' = AList.update segment (VTable sub') table"
      "map_of table segment = Some (VTable sub) \<or>
        sub = [] \<and> (map_of table segment = None \<or> map_of table segment = Some VNil)"
    by (rule insert_path_step)
  have "full_table sub"
    using step(4) full_tableD [OF "3.prems"(3)] by (force simp: full_table_def)
  then have "full_table sub' \<and> sub' \<noteq> []" using "3.IH" step(1,2) "3.prems"(2) by blast
  then have "full (VTable sub')" by (auto simp: full_table_def)
  then show ?case using step(3) full_table_update [OF "3.prems"(3)] by auto
qed simp

text \<open>In full tables every table holds a scalar.\<close>

lemma full_has_scalar:
  "full v \<Longrightarrow> (is_scalar v) \<or> (\<exists>t p u. v = VTable t \<and> p \<noteq> [] \<and> is_scalar u \<and> get_path t p = Some u)"
proof (induction v)
  case (VTable t)
  then obtain k w t' where t: "t = (k, w) # t'" by (cases t) auto
  then have "full w" using VTable.prems by auto
  with VTable.IH [of "(k, w)" w] t
  consider "is_scalar w" | t1 p u where "w = VTable t1" "p \<noteq> []" "is_scalar u" "get_path t1 p = Some u"
    by auto
  then show ?case
  proof cases
    case 1
    then show ?thesis using t by (intro disjI2 exI [of _ t] exI [of _ "[k]"]) auto
  next
    case 2
    then obtain a q where "p = a # q" by (cases p) auto
    with 2 t show ?thesis by (intro disjI2 exI [of _ t] exI [of _ "k # p"] exI [of _ u]) auto
  qed
qed (auto simp: is_scalar_def)

text \<open>
  When an insertion succeeds: no segment is empty, no scalar lies on the way to the key, and
  none lies below it.
\<close>

definition free_path :: "settings \<Rightarrow> string list \<Rightarrow> bool" where
  "free_path t segs \<longleftrightarrow>
    (\<forall>p u. is_scalar u \<and> get_path t p = Some u \<longrightarrow> \<not> strict_prefix p segs \<and> \<not> strict_prefix segs p)"

lemma get_path_Nil [simp]: "get_path t [] = None"
  by simp

lemma get_path_Cons: "q \<noteq> [] \<Longrightarrow>
    get_path t (a # q) = (case map_of t a of Some (VTable sub) \<Rightarrow> get_path sub q | _ \<Rightarrow> None)"
  by (cases q) auto

lemma free_path_empty: "free_path [] segs"
  by (simp add: free_path_def)

lemma free_path_leaf:
  assumes "full_table t"
  shows "free_path t [leaf] \<longleftrightarrow> (\<nexists>sub. map_of t leaf = Some (VTable sub))"
proof
  assume free: "free_path t [leaf]"
  show "\<nexists>sub. map_of t leaf = Some (VTable sub)"
  proof
    assume "\<exists>sub. map_of t leaf = Some (VTable sub)"
    then obtain sub where sub: "map_of t leaf = Some (VTable sub)" ..
    with full_has_scalar [OF full_tableD [OF assms sub]]
    obtain p u where "p \<noteq> []" "is_scalar u" "get_path sub p = Some u" by auto
    with sub free show False
      unfolding free_path_def by (auto simp: get_path_Cons strict_prefix_def dest!: spec [of _ "leaf # p"])
  qed
next
  assume "\<nexists>sub. map_of t leaf = Some (VTable sub)"
  then show "free_path t [leaf]"
    unfolding free_path_def
  proof (intro allI impI)
    fix p u
    assume pu: "is_scalar u \<and> get_path t p = Some u"
    show "\<not> strict_prefix p [leaf] \<and> \<not> strict_prefix [leaf] p"
    proof (cases "(t, p)" rule: get_path.cases)
      case (3 t' a b q)
      then show ?thesis using pu \<open>\<nexists>sub. _\<close> by (auto split: option.splits setting.splits)
    qed (use pu in auto)
  qed
qed

lemma free_path_step:
  assumes "map_of t a = Some (VTable sub)" "q \<noteq> []"
  shows "free_path t (a # q) \<longleftrightarrow> free_path sub q"
proof
  assume free: "free_path t (a # q)"
  show "free_path sub q"
    unfolding free_path_def
  proof (intro allI impI)
    fix p u
    assume pu: "is_scalar u \<and> get_path sub p = Some u"
    then have "p \<noteq> []" by auto
    then have "get_path t (a # p) = Some u" using pu assms(1) by (simp add: get_path_Cons)
    with pu free have "\<not> strict_prefix (a # p) (a # q) \<and> \<not> strict_prefix (a # q) (a # p)"
      unfolding free_path_def by blast
    then show "\<not> strict_prefix p q \<and> \<not> strict_prefix q p" by simp
  qed
next
  assume free: "free_path sub q"
  show "free_path t (a # q)"
    unfolding free_path_def
  proof (intro allI impI)
    fix p u
    assume pu: "is_scalar u \<and> get_path t p = Some u"
    then obtain b r where p: "p = b # r" by (cases p) auto
    show "\<not> strict_prefix p (a # q) \<and> \<not> strict_prefix (a # q) p"
    proof (cases "b = a")
      case True
      then have "r \<noteq> []" using pu p assms(1) by auto
      then have "get_path sub r = Some u" using pu p True assms(1) by (simp add: get_path_Cons)
      with pu free p True show ?thesis unfolding free_path_def by auto
    qed (auto simp: p)
  qed
qed

lemma is_scalar_base [simp]:
  "is_scalar (VInt i)" "is_scalar (VFloat s)" "is_scalar (VString s)" "is_scalar (VBool b)"
  "is_scalar (VOther s)"
  by (simp_all add: is_scalar_def)

lemma free_path_blocked:
  "map_of t a = Some u \<Longrightarrow> is_scalar u \<Longrightarrow> q \<noteq> [] \<Longrightarrow> \<not> free_path t (a # q)"
  unfolding free_path_def by (auto simp: strict_prefix_def intro!: exI [of _ "[a]"])

lemma insert_path_ok:
  "full_table t \<Longrightarrow> segs \<noteq> [] \<Longrightarrow>
    (\<exists>t'. insert_path key walked segs v t = Inr t') \<longleftrightarrow> [] \<notin> set segs \<and> free_path t segs"
proof (induction key walked segs v t rule: insert_path.induct)
  case (2 key walked leaf v table)
  then show ?case
    by (auto simp: free_path_leaf split: option.splits setting.splits)
next
  case (3 key walked segment s ss v table)
  show ?case
  proof (cases "segment = []")
    case False
    show ?thesis
    proof (cases "map_of table segment")
      case None
      then have "free_path table (segment # s # ss)"
        by (auto simp: free_path_def strict_prefix_def prefix_Cons get_path_Cons elim!: prefixE)
      then show ?thesis using False None "3.IH" [of "[]"] free_path_empty
        by (auto simp: Let_def map_sum_def full_table_def split: sum.splits)
    next
      case (Some w)
      show ?thesis
      proof (cases w)
        case (VTable sub)
        have "full_table sub" using full_tableD [OF "3.prems"(1) Some] VTable by (simp add: full_table_def)
        then show ?thesis using False Some VTable "3.IH" [of sub] free_path_step [of table segment sub "s # ss"]
          by (auto simp: Let_def map_sum_def split: sum.splits)
      next
        case VNil
        then show ?thesis using full_tableD [OF "3.prems"(1) Some] by simp
      qed (use Some False free_path_blocked [OF Some] in auto)
    qed
  qed simp
qed simp

subsection \<open>The expansion as a whole\<close>

definition segments :: "string \<Rightarrow> string list" where
  "segments key = split_on (CHR ''.'') key"

lemma segments_inject [simp]: "segments a = segments b \<longleftrightarrow> a = b"
  unfolding segments_def by (metis join_split)

lemma segments_nonempty [simp]: "segments k \<noteq> []"
  by (simp add: segments_def)

text \<open>The scalars of the tables are those of the keys inserted so far.\<close>

definition holds_keys :: "settings \<Rightarrow> string set \<Rightarrow> settings \<Rightarrow> bool" where
  "holds_keys config ks t \<longleftrightarrow> full_table t \<and>
    (\<forall>p u. is_scalar u \<longrightarrow>
      (get_path t p = Some u \<longleftrightarrow> (\<exists>k \<in> ks. p = segments k \<and> map_of config k = Some u)))"

definition scalars_only :: "settings \<Rightarrow> bool" where
  "scalars_only config \<longleftrightarrow> (\<forall>(k, v) \<in> set config. is_scalar v)"

lemma scalars_onlyD: "scalars_only config \<Longrightarrow> map_of config k = Some v \<Longrightarrow> is_scalar v"
  by (auto simp: scalars_only_def dest: map_of_SomeD)

lemma is_scalar_full: "is_scalar v \<Longrightarrow> full v"
  by (cases v) auto

lemma holds_keys_insert:
  assumes "holds_keys config ks t" "scalars_only config" "map_of config k = Some v"
    "insert_path k [] (segments k) v t = Inr t'"
  shows "holds_keys config (insert k ks) t'"
proof -
  have v: "is_scalar v" using assms(2,3) by (rule scalars_onlyD)
  have "full_table t'"
    using insert_path_full [OF assms(4) is_scalar_full [OF v]] assms(1) by (simp add: holds_keys_def)
  moreover have "get_path t' p = Some u \<longleftrightarrow>
      (\<exists>k' \<in> insert k ks. p = segments k' \<and> map_of config k' = Some u)" if "is_scalar u" for p u
  proof (cases "p = segments k")
    case True
    then show ?thesis using insert_path_get [OF assms(4)] assms(3) by auto
  next
    case False
    then show ?thesis using insert_path_other [OF assms(4) v that False] assms(1) that
      by (auto simp: holds_keys_def)
  qed
  ultimately show ?thesis by (simp add: holds_keys_def)
qed

lemma free_path_holds:
  assumes "holds_keys config ks t" "scalars_only config" "ks \<subseteq> dom (map_of config)"
  shows "free_path t (segments k) \<longleftrightarrow>
    (\<forall>k' \<in> ks. \<not> strict_prefix (segments k') (segments k) \<and> \<not> strict_prefix (segments k) (segments k'))"
  using assms scalars_onlyD [OF assms(2)] unfolding free_path_def holds_keys_def
  by (auto; metis domD subsetD)

text \<open>The keys that can be expanded together with those already there.\<close>

fun compatible :: "string set \<Rightarrow> string list \<Rightarrow> bool" where
  "compatible done [] = True"
| "compatible done (k # ks) =
    ([] \<notin> set (segments k) \<and>
     (\<forall>k' \<in> done. \<not> strict_prefix (segments k') (segments k) \<and> \<not> strict_prefix (segments k) (segments k')) \<and>
     compatible (insert k done) ks)"

lemma nest_keys_spec:
  assumes "holds_keys config ks t" "scalars_only config" "ks \<subseteq> dom (map_of config)"
    "set keys \<subseteq> dom (map_of config)"
  shows "(if compatible ks keys
          then \<exists>root. nest_keys config keys t = Inr root \<and> holds_keys config (ks \<union> set keys) root
          else \<exists>e. nest_keys config keys t = Inl e)"
  using assms
proof (induction keys arbitrary: ks t)
  case Nil
  then show ?case by simp
next
  case (Cons k keys)
  obtain v where v: "map_of config k = Some v" using Cons.prems(4) by auto
  have ok: "(\<exists>t'. insert_path k [] (segments k) v t = Inr t') \<longleftrightarrow> [] \<notin> set (segments k) \<and>
      (\<forall>k' \<in> ks. \<not> strict_prefix (segments k') (segments k) \<and> \<not> strict_prefix (segments k) (segments k'))"
    using insert_path_ok [of t "segments k" k "[]" v] free_path_holds [OF Cons.prems(1-3), of k] Cons.prems(1)
    by (simp add: holds_keys_def)
  show ?case
  proof (cases "insert_path k [] (segments k) v t")
    case (Inl e)
    with ok have "\<not> compatible ks (k # keys)" by auto
    with Inl v show ?thesis by (simp add: segments_def)
  next
    case (Inr t')
    have step: "nest_keys config (k # keys) t = nest_keys config keys t'"
      using Inr v by (simp add: segments_def)
    have "compatible ks (k # keys) \<longleftrightarrow> compatible (insert k ks) keys" using ok Inr by auto
    then show ?thesis
      using Cons.IH [OF holds_keys_insert [OF Cons.prems(1,2) v Inr] Cons.prems(2)] Cons.prems(3,4) step
      by (auto split: if_splits)
  qed
qed

text \<open>No two keys where one names a table the other is in.\<close>

definition no_collision :: "settings \<Rightarrow> bool" where
  "no_collision config \<longleftrightarrow>
    (\<forall>k \<in> fst ` set config. [] \<notin> set (segments k) \<and>
      (\<forall>k' \<in> fst ` set config. \<not> strict_prefix (segments k) (segments k')))"

lemma compatible_iff:
  "compatible done ks \<longleftrightarrow> (\<forall>k \<in> set ks. [] \<notin> set (segments k) \<and>
     (\<forall>k' \<in> done \<union> set ks. \<not> strict_prefix (segments k) (segments k') \<and> \<not> strict_prefix (segments k') (segments k)))"
  by (induction ks arbitrary: "done") (auto 4 3)

lemma nestConfig_spec:
  assumes "scalars_only config"
  shows "(if no_collision config
          then \<exists>root. nestConfig config = Inr root \<and> holds_keys config (fst ` set config) root
          else \<exists>e. nestConfig config = Inl e)"
proof -
  have start: "holds_keys config {} []" by (simp add: holds_keys_def full_table_def)
  have keys: "set (sortedKeys config) = fst ` set config" by (simp add: sortedKeys_def)
  then have dom: "set (sortedKeys config) \<subseteq> dom (map_of config)" by (simp add: dom_map_of_conv_image_fst)
  have "compatible {} (sortedKeys config) \<longleftrightarrow> no_collision config"
    by (auto simp: compatible_iff no_collision_def keys)
  then show ?thesis
    using nest_keys_spec [OF start assms _ dom] by (auto simp: nestConfig_def keys split: if_splits)
qed

subsection \<open>Properties\<close>

text \<open>
  C16: the whole behaviour of \<open>nestConfig\<close> on a map of scalars. It returns an error exactly
  when some key has an empty segment or is a strict prefix, segment by segment, of another;
  otherwise the nested tables hold under each dotted key its value, and no other scalar.
\<close>

theorem nestConfig_correct:
  "scalars_only config \<Longrightarrow>
    (case nestConfig config of
      Inl e \<Rightarrow> \<not> no_collision config
    | Inr root \<Rightarrow> no_collision config \<and>
        (\<forall>p u. is_scalar u \<longrightarrow>
          get_path root p = Some u \<longleftrightarrow> (\<exists>k. p = segments k \<and> map_of config k = Some u)))"
proof -
  assume "scalars_only config"
  note spec = nestConfig_spec [OF this]
  have keys: "(\<exists>k \<in> fst ` set config. p = segments k \<and> map_of config k = Some u) \<longleftrightarrow>
      (\<exists>k. p = segments k \<and> map_of config k = Some u)" for p u
    by (metis domI dom_map_of_conv_image_fst)
  show ?thesis
    using spec by (cases "nestConfig config") (simp_all add: holds_keys_def keys del: bex_simps split: if_splits)
qed

theorem nestConfig_correct_witness:
  "nestConfig [(''a.b'', VInt 1), (''a.c'', VBool True), (''d'', VString ''x'')] =
     Inr [(''a'', VTable [(''b'', VInt 1), (''c'', VBool True)]), (''d'', VString ''x'')] \<and>
   no_collision [(''a.b'', VInt 1), (''a.c'', VBool True), (''d'', VString ''x'')]"
proof -
  let ?c = "[(''a.b'', VInt 1), (''a.c'', VBool True), (''d'', VString ''x'')]"
  have run: "nestConfig ?c =
      Inr [(''a'', VTable [(''b'', VInt 1), (''c'', VBool True)]), (''d'', VString ''x'')]"
    by code_simp
  have "scalars_only ?c" by (simp add: scalars_only_def)
  from nestConfig_correct [OF this] run show ?thesis by simp
qed

text \<open>
  \<open>mergeConfig\<close> is a key-wise overwrite: the overrides win, the defaults fill in, no key is
  lost or invented, and the result is again a map.
\<close>

lemma mergeConfig_correct:
  "distinct (map fst defaults) \<Longrightarrow> distinct (map fst overrides) \<Longrightarrow>
    map_of (mergeConfig defaults overrides) k =
      (case map_of overrides k of Some v \<Rightarrow> Some v | None \<Rightarrow> map_of defaults k) \<and>
    distinct (map fst (mergeConfig defaults overrides))"
  by (simp add: map_of_mergeConfig distinct_mergeConfig map_add_def)

lemma dotted_later: "k < k @ CHR ''.'' # (b :: string)"
  by (induction k) auto

lemma nest_two_keys:
  assumes "k < K" "split_on (CHR ''.'') k = [k]" "split_on (CHR ''.'') K = [k, b]" "k \<noteq> []" "b \<noteq> []"
  shows "nestConfig [(k, VTable t), (K, v)] =
    (case map_of t b of Some (VTable _) \<Rightarrow> Inl (key_is_table K) | _ \<Rightarrow> Inr [(k, VTable (AList.update b v t))])"
proof -
  have "k \<le> K" "K \<noteq> k" using assms(1) by auto
  with assms(2-) show ?thesis
    by (simp add: nestConfig_def sortedKeys_def Let_def split: option.split setting.split)
qed

text \<open>
  C18: a caller who passes a table as a value gets no such protection, whatever the table and the values are: a dotted
  key \<open>k.b\<close> takes the place of the entry \<open>b\<close> of the table at \<open>k\<close>, and nothing is reported, although the comment on
  \<open>nestConfig\<close> says that a collision is reported rather than one side dropped. Only if that entry is itself a
  table is there an error.
\<close>

theorem nestConfig_drops_nested:
  assumes "k \<noteq> []" "b \<noteq> []" "CHR ''.'' \<notin> set k" "CHR ''.'' \<notin> set b"
  shows "nestConfig [(k, VTable t), (k @ ''.'' @ b, v)] =
    (case map_of t b of
      Some (VTable _) \<Rightarrow> Inl (key_is_table (k @ ''.'' @ b))
    | _ \<Rightarrow> Inr [(k, VTable (AList.update b v t))])"
  using assms dotted_later [of k b]
  by (intro nest_two_keys) (simp_all add: split_on_append_sep split_on_no_sep)

theorem nestConfig_drops_nested_witness:
  "nestConfig [(''log'', VTable [(''level'', VString ''warn'')]), (''log.level'', VString ''debug'')] =
      Inr [(''log'', VTable [(''level'', VString ''debug'')])] \<and>
    nestConfig [(''log'', VTable [(''file'', VTable [])]), (''log.file'', VString ''f'')] =
      Inl (key_is_table ''log.file'')"
  using nestConfig_drops_nested [of "''log''" "''level''" "[(''level'', VString ''warn'')]" "VString ''debug''"]
    nestConfig_drops_nested [of "''log''" "''file''" "[(''file'', VTable [])]" "VString ''f''"]
  by simp

end
