(* ===== verification/Toml_Reference.thy ===== *)
theory Toml_Reference
  imports Toml
begin

text \<open>
  \<^verbatim>\<open>nestConfig\<close> of \<^verbatim>\<open>toml.go\<close> once more, with the tables where Go has them: a \<^verbatim>\<open>map[string]any\<close> is a reference to
  a table in a store, a table inside a table is a reference too, and \<open>table = existing\<close> walks on in the very
  table that the caller passed. \<open>Toml\<close> has the tables as values; here it is shown when that is the same, and what
  is different when it is not.
\<close>

subsection \<open>Tables by reference\<close>

text \<open>What a \<^verbatim>\<open>map[string]any\<close> holds: a value that is no such map, or a reference to one.\<close>

datatype any = Plain setting | Ref nat

record table_store =
  tables :: "nat \<Rightarrow> (string \<times> any) list option"
  fresh_ref :: nat

definition new_table :: "table_store \<Rightarrow> nat \<times> table_store" where
  "new_table st = (fresh_ref st, st\<lparr>tables := (tables st)(fresh_ref st \<mapsto> []), fresh_ref := Suc (fresh_ref st)\<rparr>)"

definition get_entry :: "table_store \<Rightarrow> nat \<Rightarrow> string \<Rightarrow> any option" where
  "get_entry st a k = (case tables st a of None \<Rightarrow> None | Some t \<Rightarrow> map_of t k)"

definition put_entry :: "nat \<Rightarrow> string \<Rightarrow> any \<Rightarrow> table_store \<Rightarrow> table_store" where
  "put_entry a k v st =
    (case tables st a of None \<Rightarrow> st | Some t \<Rightarrow> st\<lparr>tables := (tables st)(a \<mapsto> AList.update k v t)\<rparr>)"

text \<open>The switch of the inner loop: the table to walk on in, made if there is none; none on a conflict.\<close>

definition descend :: "nat \<Rightarrow> string \<Rightarrow> table_store \<Rightarrow> (nat \<times> table_store) option" where
  "descend table segment st =
    (let make = (case new_table st of (next, st1) \<Rightarrow> (next, put_entry table segment (Ref next) st1))
     in case get_entry st table segment of
       None \<Rightarrow> Some make
     | Some (Plain VNil) \<Rightarrow> Some make
     | Some (Ref existing) \<Rightarrow> Some (existing, st)
     | Some _ \<Rightarrow> None)"

text \<open>One round of the outer loop; what was written before an error stays written.\<close>

fun insert_ref ::
  "string \<Rightarrow> string list \<Rightarrow> string list \<Rightarrow> any \<Rightarrow> nat \<Rightarrow> table_store \<Rightarrow> unit result \<times> table_store" where
  "insert_ref key walked [] v table st = (Inl (invalid_key key), st)"
| "insert_ref key walked [leaf] v table st =
    (if leaf = [] then (Inl (invalid_key key), st)
     else case get_entry st table leaf of
       Some (Ref _) \<Rightarrow> (Inl (key_is_table key), st)
     | _ \<Rightarrow> (Inr (), put_entry table leaf v st))"
| "insert_ref key walked (segment # s # ss) v table st =
    (if segment = [] then (Inl (invalid_key key), st)
     else case descend table segment st of
       None \<Rightarrow> (Inl (conflicting_key key (join ''.'' (walked @ [segment]))), st)
     | Some (next, st1) \<Rightarrow> insert_ref key (walked @ [segment]) (s # ss) v next st1)"

fun nest_refs :: "(string \<times> any) list \<Rightarrow> string list \<Rightarrow> nat \<Rightarrow> table_store \<Rightarrow> unit result \<times> table_store" where
  "nest_refs config [] root st = (Inr (), st)"
| "nest_refs config (key # keys) root st =
    (case insert_ref key [] (split_on (CHR ''.'') key) (the (map_of config key)) root st of
      (Inl e, st1) \<Rightarrow> (Inl e, st1)
    | (Inr _, st1) \<Rightarrow> nest_refs config keys root st1)"

definition nestConfig_ref :: "(string \<times> any) list \<Rightarrow> table_store \<Rightarrow> nat result \<times> table_store" where
  "nestConfig_ref config st =
    (case new_table st of (root, st1) \<Rightarrow>
      (case nest_refs config (sortedKeys config) root st1 of
        (Inl e, st2) \<Rightarrow> (Inl e, st2) | (Inr _, st2) \<Rightarrow> (Inr root, st2)))"

subsection \<open>The value of a reference\<close>

text \<open>
  \<open>denotes st v s F\<close>: in the store, \<open>v\<close> is the value \<open>s\<close>, and the tables it consists of are those in \<open>F\<close>, each of
  them in one place only.
\<close>

fun is_table :: "setting \<Rightarrow> bool" where
  "is_table (VTable _) = True"
| "is_table _ = False"

inductive denotes :: "table_store \<Rightarrow> any \<Rightarrow> setting \<Rightarrow> nat set \<Rightarrow> bool"
  and denotes_all :: "table_store \<Rightarrow> (string \<times> any) list \<Rightarrow> settings \<Rightarrow> nat set \<Rightarrow> bool" for st where
  denotes_plain: "\<not> is_table s \<Longrightarrow> denotes st (Plain s) s {}"
| denotes_ref: "tables st a = Some t \<Longrightarrow> denotes_all st t ts F \<Longrightarrow> a \<notin> F \<Longrightarrow> denotes st (Ref a) (VTable ts) (insert a F)"
| denotes_none: "denotes_all st [] [] {}"
| denotes_more: "denotes st v s F \<Longrightarrow> denotes_all st t ts G \<Longrightarrow> F \<inter> G = {} \<Longrightarrow> denotes_all st ((k, v) # t) ((k, s) # ts) (F \<union> G)"

inductive_simps denotes_Plain [simp]: "denotes st (Plain x) s F"
inductive_simps denotes_Ref: "denotes st (Ref a) s F"
inductive_simps denotes_all_Nil [simp]: "denotes_all st [] ts F"
inductive_simps denotes_all_Cons: "denotes_all st (p # t) ts F"

text \<open>The value depends on its own tables only.\<close>

lemma denotes_frame:
  "denotes st v s F \<Longrightarrow> (\<forall>a \<in> F. tables st' a = tables st a) \<Longrightarrow> denotes st' v s F"
  "denotes_all st t ts F \<Longrightarrow> (\<forall>a \<in> F. tables st' a = tables st a) \<Longrightarrow> denotes_all st' t ts F"
proof (induction rule: denotes_denotes_all.inducts)
  case (denotes_more v s F t ts G k)
  then show ?case by (auto intro!: denotes_denotes_all.denotes_more)
qed (auto intro!: denotes_denotes_all.intros)

lemma denotes_all_keys: "denotes_all st t ts F \<Longrightarrow> map fst t = map fst ts"
  by (induction t arbitrary: ts F) (auto simp: denotes_all_Cons)

text \<open>One entry, apart from the rest; and what results when it is replaced.\<close>

lemma denotes_all_focus:
  assumes "denotes_all st t ts F"
  obtains G H where "F = G \<union> H" "G \<inter> H = {}"
    "case map_of t k of None \<Rightarrow> map_of ts k = None \<and> G = {} | Some v \<Rightarrow> \<exists>s. map_of ts k = Some s \<and> denotes st v s G"
    "\<And>st' v s G'. \<forall>a \<in> H. tables st' a = tables st a \<Longrightarrow> denotes st' v s G' \<Longrightarrow> G' \<inter> H = {} \<Longrightarrow>
      denotes_all st' (AList.update k v t) (AList.update k s ts) (G' \<union> H)"
  using assms
proof (induction t arbitrary: ts F thesis)
  case Nil
  then have "ts = []" "F = {}" by simp_all
  moreover have "denotes_all st' [(k, v)] [(k, s)] (G' \<union> {})" if "denotes st' v s G'" for st' v s G'
    by (rule denotes_more [OF that denotes_none]) simp
  ultimately show ?case using Nil(1) [of "{}" "{}"] by simp
next
  case (Cons p t)
  obtain k0 v0 where p: "p = (k0, v0)" by fastforce
  with Cons.prems(2) obtain s0 ts0 F0 G0 where s: "ts = (k0, s0) # ts0" "F = F0 \<union> G0" "F0 \<inter> G0 = {}"
    "denotes st v0 s0 F0" "denotes_all st t ts0 G0"
    by (auto simp: denotes_all_Cons)
  show ?case
  proof (cases "k0 = k")
    case True
    have "denotes_all st' (AList.update k v (p # t)) (AList.update k s' ts) (G' \<union> G0)"
      if "\<forall>a \<in> G0. tables st' a = tables st a" "denotes st' v s' G'" "G' \<inter> G0 = {}" for st' v s' G'
      using denotes_more [OF that(2) denotes_frame(2) [OF s(5) that(1)] that(3)] True by (simp add: p s(1))
    then show ?thesis using Cons.prems(1) [of F0 G0] s True by (simp add: p)
  next
    case False
    show ?thesis
    proof (rule Cons.IH [OF _ s(5)])
      fix G H
      assume g: "G0 = G \<union> H" "G \<inter> H = {}"
        "case map_of t k of None \<Rightarrow> map_of ts0 k = None \<and> G = {} | Some v \<Rightarrow> \<exists>s. map_of ts0 k = Some s \<and> denotes st v s G"
        "\<And>st' v s G'. \<forall>a \<in> H. tables st' a = tables st a \<Longrightarrow> denotes st' v s G' \<Longrightarrow> G' \<inter> H = {} \<Longrightarrow>
          denotes_all st' (AList.update k v t) (AList.update k s ts0) (G' \<union> H)"
      have upd: "denotes_all st' (AList.update k v (p # t)) (AList.update k s' ts) (G' \<union> (F0 \<union> H))"
        if f: "\<forall>a \<in> F0 \<union> H. tables st' a = tables st a" "denotes st' v s' G'" "G' \<inter> (F0 \<union> H) = {}" for st' v s' G'
      proof -
        have "denotes st' v0 s0 F0" using denotes_frame(1) [OF s(4)] f(1) by blast
        moreover have "denotes_all st' (AList.update k v t) (AList.update k s' ts0) (G' \<union> H)" using g(4) f by blast
        moreover have "F0 \<inter> (G' \<union> H) = {}" using f(3) s(3) g(1) by blast
        ultimately have "denotes_all st' (p # AList.update k v t) ((k0, s0) # AList.update k s' ts0) (F0 \<union> (G' \<union> H))"
          unfolding p by (rule denotes_more)
        then show ?thesis using False by (simp add: p s(1) Un_left_commute)
      qed
      have F: "F = G \<union> (F0 \<union> H)" "G \<inter> (F0 \<union> H) = {}" using s(2,3) g(1,2) by auto
      show thesis by (rule Cons.prems(1) [OF F _ upd]) (use g(3) False s(1) p in \<open>auto split: option.splits\<close>)
    qed
  qed
qed


subsection \<open>By reference and by value\<close>

lemma get_put_other [simp]: "b \<noteq> a \<Longrightarrow> tables (put_entry a k v st) b = tables st b"
  by (simp add: put_entry_def split: option.split)

lemma put_entry_same: "tables st a = Some t \<Longrightarrow> tables (put_entry a k v st) a = Some (AList.update k v t)"
  by (simp add: put_entry_def)

lemma fresh_ref_put [simp]: "fresh_ref (put_entry a k v st) = fresh_ref st"
  by (simp add: put_entry_def split: option.split)

text \<open>What a call leaves alone: every table there was, but those it may write to.\<close>

definition spares :: "nat set \<Rightarrow> table_store \<Rightarrow> table_store \<Rightarrow> bool" where
  "spares F st st' \<longleftrightarrow> fresh_ref st \<le> fresh_ref st' \<and> (\<forall>a < fresh_ref st. a \<notin> F \<longrightarrow> tables st' a = tables st a)"

lemma spares_trans:
  assumes "spares F st st1" "spares F1 st1 st2" "F \<subseteq> F'" "F1 \<subseteq> F' \<union> {fresh_ref st..}"
  shows "spares F' st st2"
  unfolding spares_def
proof (intro conjI allI impI)
  show "fresh_ref st \<le> fresh_ref st2" using assms(1,2) by (simp add: spares_def)
  fix c assume c: "c < fresh_ref st" "c \<notin> F'"
  then have "c \<notin> F" "c \<notin> F1" using assms(3,4) by auto
  with c(1) assms(1,2) show "tables st2 c = tables st c" by (simp add: spares_def)
qed

lemma denotes_spares:
  assumes "denotes st v s G" "spares F st st'" "G \<subseteq> {..<fresh_ref st}" "F \<inter> G = {}"
  shows "denotes st' v s G"
proof (rule denotes_frame(1) [OF assms(1)], intro ballI)
  fix c assume "c \<in> G"
  with assms(3,4) have "c < fresh_ref st" "c \<notin> F" by auto
  with assms(2) show "tables st' c = tables st c" by (simp add: spares_def)
qed

text \<open>
  Going down one segment, by reference and by value. The table \<open>b\<close> to walk on in consists of \<open>F1\<close>; when it has
  become \<open>sub'\<close>, and nothing else has changed, the table \<open>a\<close> has the value that the update by value has.
\<close>

lemma descend_value:
  assumes "denotes st (Ref a) (VTable ts) F" "F \<subseteq> {..<fresh_ref st}" "segment \<noteq> []"
  obtains (blocked) "descend a segment st = None"
    "\<And>key walked s' ss s. insert_path key walked (segment # s' # ss) s ts =
      Inl (conflicting_key key (join ''.'' (walked @ [segment])))"
  | (down) b st1 sub F1 H where "descend a segment st = Some (b, st1)"
    "\<And>key walked s' ss s. insert_path key walked (segment # s' # ss) s ts =
      map_sum id (\<lambda>sub'. AList.update segment (VTable sub') ts) (insert_path key (walked @ [segment]) (s' # ss) s sub)"
    "denotes st1 (Ref b) (VTable sub) F1" "F1 \<subseteq> F \<union> {fresh_ref st..<fresh_ref st1}" "spares F st st1"
    "insert a H \<subseteq> F" "insert a H \<inter> F1 = {}"
    "\<And>st' sub' F'. \<forall>c \<in> insert a H. tables st' c = tables st1 c \<Longrightarrow> denotes st' (Ref b) (VTable sub') F' \<Longrightarrow>
      F' \<inter> insert a H = {} \<Longrightarrow> denotes st' (Ref a) (VTable (AList.update segment (VTable sub') ts)) (insert a (F' \<union> H))"
proof -
  obtain t F0 where F: "F = insert a F0" "a \<notin> F0" and t: "tables st a = Some t" "denotes_all st t ts F0"
    using assms(1) by (auto simp: denotes_Ref)
  have a: "a < fresh_ref st" using assms(2) F(1) by simp
  have entry: "get_entry st a segment = map_of t segment" by (simp add: get_entry_def t(1))
  from t(2) show thesis
  proof (rule denotes_all_focus [where k = segment])
    fix G0 H
    assume f: "F0 = G0 \<union> H" "G0 \<inter> H = {}"
      "case map_of t segment of None \<Rightarrow> map_of ts segment = None \<and> G0 = {} | Some v \<Rightarrow> \<exists>s. map_of ts segment = Some s \<and> denotes st v s G0"
      "\<And>st' v s G'. \<forall>a \<in> H. tables st' a = tables st a \<Longrightarrow> denotes st' v s G' \<Longrightarrow> G' \<inter> H = {} \<Longrightarrow>
        denotes_all st' (AList.update segment v t) (AList.update segment s ts) (G' \<union> H)"
    have H: "insert a H \<subseteq> F" using F(1) f(1) by auto
    have whole: "denotes st' (Ref a) (VTable (AList.update segment (VTable sub') ts)) (insert a (F' \<union> H))"
      if "tables st' a = Some (AList.update segment (Ref b) t)" "\<forall>c \<in> H. tables st' c = tables st c"
        "denotes st' (Ref b) (VTable sub') F'" "F' \<inter> insert a H = {}" for st' b sub' F'
      using that F(2) f(1) by (intro denotes_ref [OF that(1)] f(4)) auto
    show thesis
    proof (cases "map_of t segment = None \<or> map_of t segment = Some (Plain VNil)")
      case True
      let ?b = "fresh_ref st" and ?st = "put_entry a segment (Ref (fresh_ref st)) (snd (new_table st))"
      have val: "map_of ts segment = None \<or> map_of ts segment = Some VNil" using True f(3) by auto
      have tab: "tables ?st a = Some (AList.update segment (Ref ?b) t)" "tables ?st ?b = Some []"
        using a put_entry_same [of "snd (new_table st)" a t] t(1) by (simp_all add: new_table_def)
      have other: "tables ?st c = tables st c" if "c \<noteq> a" "c \<noteq> ?b" for c using that by (simp add: new_table_def)
      have fr: "fresh_ref ?st = Suc ?b" by (simp add: new_table_def)
      show thesis
      proof (rule down)
        show "descend a segment st = Some (?b, ?st)" using True entry by (auto simp: descend_def new_table_def)
        show "insert_path key walked (segment # s' # ss) s ts =
          map_sum id (\<lambda>sub'. AList.update segment (VTable sub') ts) (insert_path key (walked @ [segment]) (s' # ss) s [])"
          for key walked s' ss s using val assms(3) by auto
        show "denotes ?st (Ref ?b) (VTable []) {?b}" using denotes_ref [OF tab(2) denotes_none] by simp
        show "spares F st ?st" using other F(1) fr by (simp add: spares_def)
        show "insert a H \<inter> {?b} = {}" using H assms(2) by auto
        fix st' sub' F'
        assume st': "\<forall>c \<in> insert a H. tables st' c = tables ?st c" "denotes st' (Ref ?b) (VTable sub') F'" "F' \<inter> insert a H = {}"
        have "tables st' c = tables st c" if "c \<in> H" for c
        proof -
          have "c \<noteq> a" "c \<noteq> ?b" using that F(2) f(1) H assms(2) by auto
          with that st'(1) other show ?thesis by simp
        qed
        with st' tab(1) show "denotes st' (Ref a) (VTable (AList.update segment (VTable sub') ts)) (insert a (F' \<union> H))"
          by (intro whole) simp_all
      qed (use H fr in auto)
    next
      case False
      then obtain x s1 where x: "map_of t segment = Some x" "map_of ts segment = Some s1" "denotes st x s1 G0"
        using f(3) by (auto split: option.splits)
      show thesis
      proof (cases x)
        case (Plain y)
        with x False have "s1 = y" "\<not> is_table y" "y \<noteq> VNil" by simp_all
        with x Plain show thesis
          by (intro blocked) (cases y; simp add: descend_def entry assms(3) Let_def)+
      next
        case (Ref b)
        with x obtain sub where s1: "s1 = VTable sub" by (auto simp: denotes_Ref)
        show thesis
        proof (rule down)
          show "descend a segment st = Some (b, st)" using x Ref by (simp add: descend_def entry Let_def)
          show "insert_path key walked (segment # s' # ss) s ts =
            map_sum id (\<lambda>sub'. AList.update segment (VTable sub') ts) (insert_path key (walked @ [segment]) (s' # ss) s sub)"
            for key walked s' ss s using x s1 assms(3) by simp
          show "denotes st (Ref b) (VTable sub) G0" using x Ref s1 by simp
          show "spares F st st" by (simp add: spares_def)
          show "insert a H \<inter> G0 = {}" using F f(1,2) by auto
          fix st' sub' F'
          assume st': "\<forall>c \<in> insert a H. tables st' c = tables st c" "denotes st' (Ref b) (VTable sub') F'" "F' \<inter> insert a H = {}"
          have "tables st' a = Some (AList.update segment (Ref b) t)"
            using st'(1) t(1) AList.update_triv [of t segment x] x(1) Ref by simp
          with st' show "denotes st' (Ref a) (VTable (AList.update segment (VTable sub') ts)) (insert a (F' \<union> H))"
            by (intro whole) simp_all
        qed (use H F(1) f(1) in auto)
      qed
    qed
  qed
qed

lemma insert_leaf_value:
  assumes "denotes st (Ref a) (VTable ts) F" "denotes st v s G" "F \<inter> G = {}"
    and "insert_ref key walked [leaf] v a st = (r, st')"
  shows "spares F st st' \<and>
    (case insert_path key walked [leaf] s ts of
      Inl e \<Rightarrow> r = Inl e
    | Inr ts' \<Rightarrow> r = Inr () \<and>
        (\<exists>F'. denotes st' (Ref a) (VTable ts') F' \<and> F' \<subseteq> F \<union> G \<union> {fresh_ref st..<fresh_ref st'}))"
proof -
  from assms(1) obtain t F0 where F: "F = insert a F0" "a \<notin> F0" and t: "tables st a = Some t" "denotes_all st t ts F0"
    by (auto simp: denotes_Ref)
  from t(2) show ?thesis
  proof (rule denotes_all_focus [where k = leaf])
    fix G0 H
    assume f: "F0 = G0 \<union> H" "G0 \<inter> H = {}"
      "case map_of t leaf of None \<Rightarrow> map_of ts leaf = None \<and> G0 = {} | Some v \<Rightarrow> \<exists>s. map_of ts leaf = Some s \<and> denotes st v s G0"
      "\<And>st' v s G'. \<forall>a \<in> H. tables st' a = tables st a \<Longrightarrow> denotes st' v s G' \<Longrightarrow> G' \<inter> H = {} \<Longrightarrow>
        denotes_all st' (AList.update leaf v t) (AList.update leaf s ts) (G' \<union> H)"
    let ?st = "put_entry a leaf v st"
    have "denotes_all ?st (AList.update leaf v t) (AList.update leaf s ts) (G \<union> H)"
      using f(1) F assms(2,3) by (intro f(4) denotes_frame(1) [OF assms(2)]) (auto intro!: get_put_other)
    with put_entry_same [OF t(1)] F f(1) assms(3)
    have new: "denotes ?st (Ref a) (VTable (AList.update leaf s ts)) (insert a (G \<union> H))"
      by (intro denotes_ref) auto
    have entry: "get_entry st a leaf = map_of t leaf" by (simp add: get_entry_def t(1))
    have spares: "spares F st ?st" by (simp add: spares_def F(1))
    have sub: "insert a (G \<union> H) \<subseteq> F \<union> G" using F(1) f(1) by auto
    show ?thesis
    proof (cases "map_of t leaf")
      case None
      with f(3) assms(4) entry new spares sub show ?thesis by (auto simp: spares_def)
    next
      case (Some x)
      with f(3) obtain s1 where s1: "map_of ts leaf = Some s1" "denotes st x s1 G0" by auto
      show ?thesis
      proof (cases x)
        case (Plain y)
        with s1 have "s1 = y" "\<not> is_table y" by simp_all
        with assms(4) entry Some Plain s1 new spares sub show ?thesis by (cases y) (auto simp: spares_def)
      next
        case (Ref b)
        with s1(2) obtain us where "s1 = VTable us" by (auto simp: denotes_Ref)
        with assms(4) entry Some Ref s1 show ?thesis by (auto simp: spares_def)
      qed
    qed
  qed
qed

lemma insert_ref_value:
  assumes "denotes st (Ref a) (VTable ts) F" "denotes st v s G" "F \<inter> G = {}" "F \<union> G \<subseteq> {..<fresh_ref st}"
    and "insert_ref key walked segs v a st = (r, st')"
  shows "spares F st st' \<and>
    (case insert_path key walked segs s ts of
      Inl e \<Rightarrow> r = Inl e
    | Inr ts' \<Rightarrow> r = Inr () \<and>
        (\<exists>F'. denotes st' (Ref a) (VTable ts') F' \<and> F' \<subseteq> F \<union> G \<union> {fresh_ref st..<fresh_ref st'}))"
  using assms
proof (induction key walked segs v a st arbitrary: ts F rule: insert_ref.induct)
  case (1 key walked v table st)
  then show ?case by (simp add: spares_def)
next
  case (2 key walked leaf v a st)
  then show ?case using insert_leaf_value by blast
next
  case (3 key walked segment s' ss v a st)
  show ?case
  proof (cases "segment = []")
    case True
    with "3.prems"(5) show ?thesis by (simp add: spares_def)
  next
    case False
    have below: "F \<subseteq> {..<fresh_ref st}" using "3.prems"(4) by simp
    from "3.prems"(1) below False show ?thesis
    proof (cases rule: descend_value)
      case blocked
      with "3.prems"(5) False show ?thesis by (simp add: spares_def)
    next
      case (down b st1 sub F1 H)
      have run: "insert_ref key (walked @ [segment]) (s' # ss) v b st1 = (r, st')" using "3.prems"(5) False down(1) by simp
      have G: "G \<subseteq> {..<fresh_ref st}" "F \<inter> G = {}" using "3.prems"(3,4) by auto
      have v1: "denotes st1 v s G"
        by (rule denotes_spares [OF "3.prems"(2) down(5) G])
      have le: "fresh_ref st \<le> fresh_ref st1" using down(5) by (simp add: spares_def)
      have "F1 \<inter> G = {}" "F1 \<union> G \<subseteq> {..<fresh_ref st1}" using down(4) G below le by fastforce+
      note IH = "3.IH" [OF False down(1) refl down(3) v1 this run]
      have kept: "tables st' c = tables st1 c" if "c \<in> insert a H" for c
      proof -
        have "c < fresh_ref st1" "c \<notin> F1" using that down(6,7) below le by fastforce+
        with IH show ?thesis by (simp add: spares_def)
      qed
      have le': "fresh_ref st1 \<le> fresh_ref st'" using IH by (simp add: spares_def)
      have "spares F1 st1 st'" using IH by simp
      then have "spares F st st'" by (rule spares_trans [OF down(5)]) (use down(4) in auto)
      moreover have "\<exists>F'. denotes st' (Ref a) (VTable (AList.update segment (VTable sub') ts)) F' \<and>
          F' \<subseteq> F \<union> G \<union> {fresh_ref st..<fresh_ref st'}"
        if "denotes st' (Ref b) (VTable sub') F'" "F' \<subseteq> F1 \<union> G \<union> {fresh_ref st1..<fresh_ref st'}" for sub' F'
      proof (intro exI conjI)
        have "c \<notin> F'" if c: "c \<in> insert a H" for c
        proof -
          have "c \<in> F" "c \<notin> F1" using c down(6,7) by auto
          moreover from this have "c \<notin> G" "c < fresh_ref st1" using G(2) below le by auto
          ultimately show ?thesis using \<open>F' \<subseteq> F1 \<union> G \<union> _\<close> by auto
        qed
        then have "F' \<inter> insert a H = {}" by blast
        with kept that(1) show "denotes st' (Ref a) (VTable (AList.update segment (VTable sub') ts)) (insert a (F' \<union> H))"
          by (intro down(8)) blast+
        show "insert a (F' \<union> H) \<subseteq> F \<union> G \<union> {fresh_ref st..<fresh_ref st'}"
          using that(2) down(4,6) le le' by fastforce
      qed
      ultimately show ?thesis
        using IH unfolding down(2)
        by (cases "insert_path key (walked @ [segment]) (s' # ss) s sub") (simp, simp, blast)
    qed
  qed
qed


lemma nest_refs_value:
  assumes "denotes st (Ref a) (VTable ts) F" "F \<subseteq> {..<fresh_ref st}" "distinct keys"
    and "\<And>k. k \<in> set keys \<Longrightarrow> denotes st (the (map_of config k)) (the (map_of tree k)) (f k)"
    and "\<And>k. k \<in> set keys \<Longrightarrow> f k \<inter> F = {}" "\<And>k. k \<in> set keys \<Longrightarrow> f k \<subseteq> {..<fresh_ref st}"
    and "\<And>k k'. k \<in> set keys \<Longrightarrow> k' \<in> set keys \<Longrightarrow> k \<noteq> k' \<Longrightarrow> f k \<inter> f k' = {}"
    and "nest_refs config keys a st = (r, st')"
  shows "spares (F \<union> \<Union> (f ` set keys)) st st' \<and>
    (case nest_keys tree keys ts of
      Inl e \<Rightarrow> r = Inl e
    | Inr ts' \<Rightarrow> r = Inr () \<and> (\<exists>F'. denotes st' (Ref a) (VTable ts') F'))"
  using assms
proof (induction keys arbitrary: st ts F)
  case Nil
  then show ?case by (auto simp: spares_def)
next
  case (Cons k keys)
  let ?segs = "split_on (CHR ''.'') k"
  obtain r1 st1 where 1: "insert_ref k [] ?segs (the (map_of config k)) a st = (r1, st1)" by fastforce
  have v: "denotes st (the (map_of config k)) (the (map_of tree k)) (f k)" "F \<inter> f k = {}" "F \<union> f k \<subseteq> {..<fresh_ref st}"
    using Cons.prems(2,4,5,6) by auto
  note ins = insert_ref_value [OF Cons.prems(1) v 1]
  show ?case
  proof (cases "insert_path k [] ?segs (the (map_of tree k)) ts")
    case (Inl e)
    with ins 1 Cons.prems(8) show ?thesis by (auto simp: spares_def)
  next
    case (Inr ts1)
    with ins obtain F1 where r1: "r1 = Inr ()" and F1: "denotes st1 (Ref a) (VTable ts1) F1"
      "F1 \<subseteq> F \<union> f k \<union> {fresh_ref st..<fresh_ref st1}" by auto
    have sp: "spares F st st1" using ins by simp
    then have le: "fresh_ref st \<le> fresh_ref st1" by (simp add: spares_def)
    have run: "nest_refs config keys a st1 = (r, st')" using Cons.prems(8) 1 r1 by simp
    have below: "F1 \<subseteq> {..<fresh_ref st1}" using F1(2) v(3) le by fastforce
    have rest: "denotes st1 (the (map_of config k')) (the (map_of tree k')) (f k')" "f k' \<inter> F1 = {}" "f k' \<subseteq> {..<fresh_ref st1}"
      if k': "k' \<in> set keys" for k'
    proof -
      have d: "f k' \<inter> F = {}" "f k' \<subseteq> {..<fresh_ref st}" "f k' \<inter> f k = {}"
        using Cons.prems(3,5,6) Cons.prems(7) [of k' k] k' by auto
      show "denotes st1 (the (map_of config k')) (the (map_of tree k')) (f k')"
        using k' d by (intro denotes_spares [OF Cons.prems(4) sp]) auto
      show "f k' \<inter> F1 = {}" using d F1(2) by fastforce
      show "f k' \<subseteq> {..<fresh_ref st1}" using d(2) le by auto
    qed
    have "spares (F1 \<union> \<Union> (f ` set keys)) st1 st' \<and>
      (case nest_keys tree keys ts1 of Inl e \<Rightarrow> r = Inl e
       | Inr ts' \<Rightarrow> r = Inr () \<and> (\<exists>F'. denotes st' (Ref a) (VTable ts') F'))"
      using Cons.IH [OF F1(1) below _ rest _ run] Cons.prems(3,7) by simp
    moreover have "spares (F \<union> \<Union> (f ` set (k # keys))) st st'"
      if "spares (F1 \<union> \<Union> (f ` set keys)) st1 st'"
      using sp that by (rule spares_trans) (use F1(2) in auto)
    ultimately show ?thesis using Inr by simp
  qed
qed

text \<open>The tables of a whole configuration, key by key.\<close>

lemma denotes_all_parts:
  assumes "denotes_all st t ts F" "distinct (map fst t)"
  obtains f where "\<And>k. k \<in> fst ` set t \<Longrightarrow> denotes st (the (map_of t k)) (the (map_of ts k)) (f k)"
    "F = \<Union> (f ` fst ` set t)"
    "\<And>k k'. k \<in> fst ` set t \<Longrightarrow> k' \<in> fst ` set t \<Longrightarrow> k \<noteq> k' \<Longrightarrow> f k \<inter> f k' = {}"
  using assms
proof (induction t arbitrary: ts F thesis)
  case Nil
  then show ?case by simp
next
  case (Cons p t)
  obtain k0 v0 where p: "p = (k0, v0)" by fastforce
  with Cons.prems(2) obtain s0 ts0 F0 G0 where s: "ts = (k0, s0) # ts0" "F = F0 \<union> G0" "F0 \<inter> G0 = {}"
    "denotes st v0 s0 F0" "denotes_all st t ts0 G0"
    by (auto simp: denotes_all_Cons)
  have k0: "k0 \<notin> fst ` set t" "distinct (map fst t)" using Cons.prems(3) p by simp_all
  show ?case
  proof (rule Cons.IH [OF _ s(5) k0(2)])
    fix f
    assume f: "\<And>k. k \<in> fst ` set t \<Longrightarrow> denotes st (the (map_of t k)) (the (map_of ts0 k)) (f k)"
      "G0 = \<Union> (f ` fst ` set t)"
      "\<And>k k'. k \<in> fst ` set t \<Longrightarrow> k' \<in> fst ` set t \<Longrightarrow> k \<noteq> k' \<Longrightarrow> f k \<inter> f k' = {}"
    show thesis
    proof (rule Cons.prems(1) [of "f(k0 := F0)"])
      show "denotes st (the (map_of (p # t) k)) (the (map_of ts k)) ((f(k0 := F0)) k)" if "k \<in> fst ` set (p # t)" for k
        using that f(1) s(4) k0(1) by (auto simp: p s(1))
      show "F = \<Union> ((f(k0 := F0)) ` fst ` set (p # t))" using k0(1) s(2) f(2) by (auto simp: p)
      show "(f(k0 := F0)) k \<inter> (f(k0 := F0)) k' = {}"
        if "k \<in> fst ` set (p # t)" "k' \<in> fst ` set (p # t)" "k \<noteq> k'" for k k'
        using that f(2,3) s(3) by (auto simp: p)
    qed
  qed
qed

subsection \<open>The property\<close>

text \<open>
  C17: \<open>nestConfig\<close> over shared memory. If every nested table of a configuration is in one place only, the code,
  which walks and writes by reference, fails exactly when the expansion by value fails, with the same error, and
  otherwise returns a reference to the very value that \<open>nestConfig\<close> computes. In either case, of the tables
  there were, only those that the configuration itself brought along are written to.
\<close>

theorem nestConfig_by_reference:
  assumes "denotes_all st config tree G" "distinct (map fst config)" "G \<subseteq> {..<fresh_ref st}"
    and "nestConfig_ref config st = (r, st')"
  shows "spares G st st' \<and>
    (case nestConfig tree of
      Inl e \<Rightarrow> r = Inl e
    | Inr ts \<Rightarrow> \<exists>root F. r = Inr root \<and> denotes st' (Ref root) (VTable ts) F)"
  using assms(1,2)
proof (rule denotes_all_parts)
  fix f
  assume f: "\<And>k. k \<in> fst ` set config \<Longrightarrow> denotes st (the (map_of config k)) (the (map_of tree k)) (f k)"
    "G = \<Union> (f ` fst ` set config)"
    "\<And>k k'. k \<in> fst ` set config \<Longrightarrow> k' \<in> fst ` set config \<Longrightarrow> k \<noteq> k' \<Longrightarrow> f k \<inter> f k' = {}"
  let ?root = "fresh_ref st" and ?keys = "sortedKeys config"
  define st1 where "st1 = snd (new_table st)"
  have new: "new_table st = (?root, st1)" and st1: "tables st1 = (tables st)(?root \<mapsto> [])" "fresh_ref st1 = Suc ?root"
    by (simp_all add: st1_def new_table_def)
  obtain q st2 where run: "nest_refs config ?keys ?root st1 = (q, st2)" by fastforce
  have keys: "set ?keys = fst ` set config" "distinct ?keys" using assms(2) by (simp_all add: sortedKeys_def)
  have sp: "spares {} st st1" by (simp add: spares_def st1)
  have root: "denotes st1 (Ref ?root) (VTable []) {?root}"
    using denotes_ref [of st1 ?root "[]" "[]" "{}"] by (simp add: st1 denotes_none)
  have parts: "denotes st1 (the (map_of config k)) (the (map_of tree k)) (f k)" "f k \<inter> {?root} = {}" "f k \<subseteq> {..<fresh_ref st1}"
    if k: "k \<in> set ?keys" for k
  proof -
    have "f k \<subseteq> G" using k keys(1) f(2) by auto
    then have below: "f k \<subseteq> {..<?root}" using assms(3) by auto
    then show "f k \<inter> {?root} = {}" "f k \<subseteq> {..<fresh_ref st1}" by (auto simp: st1)
    show "denotes st1 (the (map_of config k)) (the (map_of tree k)) (f k)"
      using k keys(1) f(1) below by (intro denotes_spares [OF _ sp]) auto
  qed
  have res: "spares ({?root} \<union> \<Union> (f ` set ?keys)) st1 st2 \<and>
    (case nest_keys tree ?keys [] of
      Inl e \<Rightarrow> q = Inl e
    | Inr ts' \<Rightarrow> q = Inr () \<and> (\<exists>F'. denotes st2 (Ref ?root) (VTable ts') F'))"
    by (rule nest_refs_value [OF root _ keys(2) parts _ run]) (use f(3) keys(1) in \<open>simp_all add: st1\<close>)
  have tree: "nestConfig tree = nest_keys tree ?keys []"
    using denotes_all_keys [OF assms(1)] by (simp add: nestConfig_def sortedKeys_def)
  have out: "st' = st2" "r = (case q of Inl e \<Rightarrow> Inl e | Inr _ \<Rightarrow> Inr ?root)"
    using assms(4) new run by (auto simp: nestConfig_ref_def split: sum.splits)
  have "spares G st st2" using res f(2) keys(1) by (auto simp: spares_def st1)
  with res show ?thesis unfolding tree out by (auto split: sum.splits)
qed

text \<open>One nested table of the caller's, and a dotted key elsewhere.\<close>

definition one_table :: table_store where
  "one_table = \<lparr>tables = [0 \<mapsto> []], fresh_ref = 1\<rparr>"

theorem nestConfig_by_reference_witness:
  "spares {0} one_table (snd (nestConfig_ref [(''a'', Ref 0), (''b.x'', Plain (VInt 1))] one_table)) \<and>
    (\<exists>root F. fst (nestConfig_ref [(''a'', Ref 0), (''b.x'', Plain (VInt 1))] one_table) = Inr root \<and>
      denotes (snd (nestConfig_ref [(''a'', Ref 0), (''b.x'', Plain (VInt 1))] one_table)) (Ref root)
        (VTable [(''a'', VTable []), (''b'', VTable [(''x'', VInt 1)])]) F)"
proof -
  let ?config = "[(''a'', Ref 0), (''b.x'', Plain (VInt 1))]" and ?tree = "[(''a'', VTable []), (''b.x'', VInt 1)]"
  obtain r st' where run: "nestConfig_ref ?config one_table = (r, st')" by fastforce
  have "denotes one_table (Ref 0) (VTable []) {0}"
    using denotes_ref [of one_table 0 "[]" "[]" "{}"] by (simp add: one_table_def denotes_none)
  from denotes_more [OF this denotes_more [OF denotes_plain denotes_none]]
  have all: "denotes_all one_table ?config ?tree ({0} \<union> ({} \<union> {}))" by simp
  have tree: "nestConfig ?tree = Inr [(''a'', VTable []), (''b'', VTable [(''x'', VInt 1)])]" by code_simp
  have keys: "distinct (map fst ?config)" by code_simp
  have "{0} \<union> ({} \<union> {}) \<subseteq> {..<fresh_ref one_table}" by (simp add: one_table_def)
  from nestConfig_by_reference [OF all keys this run] show ?thesis by (simp add: run tree)
qed

subsection \<open>What the caller sees\<close>

text \<open>
  A dotted key below a nested table is written into the caller's own map, and a table passed under two keys
  gets the entry under both: the expansion by value says otherwise.
\<close>

lemma callers_table_written:
  "tables (snd (nestConfig_ref [(''a'', Ref 0), (''a.x'', Plain (VInt 1)), (''b'', Ref 0)] one_table)) 0 =
      Some [(''x'', Plain (VInt 1))]"
  "tables (snd (nestConfig_ref [(''a'', Ref 0), (''a.x'', Plain (VInt 1)), (''b'', Ref 0)] one_table)) 1 =
      Some [(''a'', Ref 0), (''b'', Ref 0)]"
  "nestConfig [(''a'', VTable []), (''a.x'', VInt 1), (''b'', VTable [])] =
      Inr [(''a'', VTable [(''x'', VInt 1)]), (''b'', VTable [])]"
  by code_simp+

end
