(* ===== verification/Binaries.thy ===== *)
theory Binaries
  imports Registry_Records
begin

text \<open>
  \<^verbatim>\<open>binaries.go\<close>: finding pd-server and tikv-server, and downloading them from a TiUP mirror.

  The decoders of the standard library are a record of functions, \<open>codecs\<close>: SHA-256 in
  hexadecimal, and the members a gzipped tar stream yields, in order, up to an error. Nothing is
  assumed of them. An HTTP body that breaks off is \<open>body_error\<close> of its URL.
\<close>

definition componentPD :: string where "componentPD = ''pd''"
definition componentTiKV :: string where "componentTiKV = ''tikv''"
definition binaryPD :: string where "binaryPD = ''pd-server''"
definition binaryTiKV :: string where "binaryTiKV = ''tikv-server''"

record binaries =
  bin_pd :: string
  bin_tikv :: string

text \<open>A member: is it a regular file, its name, its content, and an error that cuts it short.\<close>

datatype archive_item = Member bool string string "go_error option" | Broken go_error

record codecs =
  sha256_hex :: "string \<Rightarrow> string"
  open_archive :: "string \<Rightarrow> go_error + archive_item list"
  body_error :: "string \<Rightarrow> go_error option"

subsection \<open>Directories supplied by the caller\<close>

definition suppliedBinariesDir :: "host \<Rightarrow> Config \<Rightarrow> string" where
  "suppliedBinariesDir h cfg =
    (if cfg_binariesPath cfg \<noteq> [] then cfg_binariesPath cfg else getenv h BinariesPathEnv)"

definition isExecutable :: "host \<Rightarrow> string \<Rightarrow> world \<Rightarrow> bool" where
  "isExecutable h p w = executable_file h p w"

definition missing_binary :: "string \<Rightarrow> go_error" where
  "missing_binary p = ''embedded-tikv: '' @ p @ '' is missing or not executable; a directory given via BinariesPath or EMBEDDED_TIKV_BINARIES must contain both pd-server and tikv-server''"

definition suppliedBinaries :: "host \<Rightarrow> string \<Rightarrow> world \<Rightarrow> binaries result" where
  "suppliedBinaries h dir w =
    (let b = \<lparr>bin_pd = path_join [dir, binaryPD], bin_tikv = path_join [dir, binaryTiKV]\<rparr>
     in if \<not> isExecutable h (bin_pd b) w then Inl (missing_binary (bin_pd b))
        else if \<not> isExecutable h (bin_tikv b) w then Inl (missing_binary (bin_tikv b))
        else Inr b)"

definition unsupported_os :: "string \<Rightarrow> go_error" where
  "unsupported_os s = ''embedded-tikv: unsupported operating system '' @ quote s @ '', TiKV publishes binaries for linux and darwin only''"

definition unsupported_arch :: "string \<Rightarrow> go_error" where
  "unsupported_arch s = ''embedded-tikv: unsupported architecture '' @ quote s @ '', TiKV publishes binaries for amd64 and arm64 only''"

definition platformFor :: "string \<Rightarrow> string \<Rightarrow> (string \<times> string) result" where
  "platformFor os arch =
    (if os \<noteq> ''linux'' \<and> os \<noteq> ''darwin'' then Inl (unsupported_os os)
     else if arch \<noteq> ''amd64'' \<and> arch \<noteq> ''arm64'' then Inl (unsupported_arch arch)
     else Inr (os @ ''/'' @ arch, os @ ''-'' @ arch))"

subsection \<open>Versions\<close>

text \<open>\<open>strings.Compare\<close>, byte by byte.\<close>

definition compare_text :: "string \<Rightarrow> string \<Rightarrow> int" where
  "compare_text a b = (if a < b then - 1 else if a = b then 0 else 1)"

fun compare_fields :: "string list \<Rightarrow> string list \<Rightarrow> int" where
  "compare_fields (a # as) (b # bs) =
    (if a \<noteq> b then
       (if length a \<noteq> length b then int (length a) - int (length b) else compare_text a b)
     else compare_fields as bs)"
| "compare_fields as bs = int (length as) - int (length bs)"

definition compareVersions :: "string \<Rightarrow> string \<Rightarrow> int" where
  "compareVersions a b =
    compare_fields (split_on (CHR ''.'') (trimPrefix a ''v'')) (split_on (CHR ''.'') (trimPrefix b ''v''))"

text \<open>\<open>slices.SortFunc\<close>, as an insertion sort.\<close>

fun insert_by :: "('a \<Rightarrow> 'a \<Rightarrow> int) \<Rightarrow> 'a \<Rightarrow> 'a list \<Rightarrow> 'a list" where
  "insert_by cmp x [] = [x]"
| "insert_by cmp x (y # ys) = (if cmp x y \<le> 0 then x # y # ys else y # insert_by cmp x ys)"

definition sortFunc :: "('a \<Rightarrow> 'a \<Rightarrow> int) \<Rightarrow> 'a list \<Rightarrow> 'a list" where
  "sortFunc cmp xs = foldr (insert_by cmp) xs []"

definition recentVersions :: "(string \<times> 'e) list \<Rightarrow> string list" where
  "recentVersions platforms =
    (let stable = sortFunc compareVersions (filter (\<lambda>v. \<not> containsAny v ''-'') (map fst platforms))
     in drop (length stable - 8) stable)"

subsection \<open>Manifests\<close>

record mirrorEntry =
  me_Entry :: string
  me_URL :: string
  me_Length :: int
  me_Yanked :: bool
  me_SHA256 :: string

definition zero_entry :: mirrorEntry where
  "zero_entry = \<lparr>me_Entry = [], me_URL = [], me_Length = 0, me_Yanked = False, me_SHA256 = []\<rparr>"

text \<open>A Go map from strings: the last value of a key that occurs twice is the one that stays.\<close>

fun decode_entries :: "(json \<Rightarrow> 'b option) \<Rightarrow> (string \<times> json) list \<Rightarrow> (string \<times> 'b) list \<Rightarrow> (string \<times> 'b) list option" where
  "decode_entries f [] m = Some m"
| "decode_entries f ((k, v) # kvs) m =
    (case f v of None \<Rightarrow> None | Some x \<Rightarrow> decode_entries f kvs (AList.update k x m))"

definition decode_map :: "(json \<Rightarrow> 'b option) \<Rightarrow> json \<Rightarrow> (string \<times> 'b) list option" where
  "decode_map f v = (case v of JObject kvs \<Rightarrow> decode_entries f kvs [] | JNull \<Rightarrow> Some [] | _ \<Rightarrow> None)"

text \<open>A struct with one field that matters. (A manifest does not repeat a key within an object.)\<close>

definition decode_field :: "string \<Rightarrow> (json \<Rightarrow> 'b option) \<Rightarrow> 'b \<Rightarrow> json \<Rightarrow> 'b option" where
  "decode_field name f zero v =
    (case v of
      JObject kvs \<Rightarrow> fold_fields (\<lambda>(k, x) old. if toLower k \<noteq> name then Some old
        else if x = JNull then Some old else f x) kvs zero
    | JNull \<Rightarrow> Some zero
    | _ \<Rightarrow> None)"

definition decode_string :: "json \<Rightarrow> string option" where
  "decode_string v = (case v of JString s \<Rightarrow> Some s | _ \<Rightarrow> None)"

definition decode_int :: "json \<Rightarrow> int option" where
  "decode_int v = (case v of JNumber s \<Rightarrow> atoi s | _ \<Rightarrow> None)"

definition entry_field :: "string \<times> json \<Rightarrow> mirrorEntry \<Rightarrow> mirrorEntry option" where
  "entry_field kv e =
    (let k = toLower (fst kv); v = snd kv
     in if v = JNull then Some e
        else if k = ''entry'' then map_option (\<lambda>s. e\<lparr>me_Entry := s\<rparr>) (decode_string v)
        else if k = ''url'' then map_option (\<lambda>s. e\<lparr>me_URL := s\<rparr>) (decode_string v)
        else if k = ''length'' then map_option (\<lambda>i. e\<lparr>me_Length := i\<rparr>) (decode_int v)
        else if k = ''yanked'' then (case v of JBool b \<Rightarrow> Some (e\<lparr>me_Yanked := b\<rparr>) | _ \<Rightarrow> None)
        else if k = ''hashes'' then
          map_option (\<lambda>s. e\<lparr>me_SHA256 := s\<rparr>) (decode_field ''sha256'' decode_string (me_SHA256 e) v)
        else Some e)"

definition decode_mirrorEntry :: "json \<Rightarrow> mirrorEntry option" where
  "decode_mirrorEntry v =
    (case v of JObject kvs \<Rightarrow> fold_fields entry_field kvs zero_entry | JNull \<Rightarrow> Some zero_entry | _ \<Rightarrow> None)"

text \<open>\<open>snapshotManifest\<close> and \<open>componentManifest\<close>: the map inside \<open>signed\<close>.\<close>

definition decode_snapshot :: "json \<Rightarrow> (string \<times> int) list option" where
  "decode_snapshot =
    decode_field ''signed'' (decode_field ''meta'' (decode_map (decode_field ''version'' decode_int 0)) []) []"

definition decode_component :: "json \<Rightarrow> (string \<times> (string \<times> mirrorEntry) list) list option" where
  "decode_component =
    decode_field ''signed'' (decode_field ''platforms'' (decode_map (decode_map decode_mirrorEntry)) []) []"

subsection \<open>The mirror\<close>

record mirror =
  m_baseURL :: string
  m_snapshot :: "(string \<times> int) list option"

definition newMirror :: "string \<Rightarrow> mirror" where
  "newMirror baseURL = \<lparr>m_baseURL = trimSuffix baseURL ''/'', m_snapshot = None\<rparr>"

definition unreachable_mirror :: "string \<Rightarrow> go_error \<Rightarrow> go_error" where
  "unreachable_mirror url e = ''embedded-tikv: unable to reach mirror '' @ url @ '': '' @ e"

definition mirror_status :: "string \<Rightarrow> string \<Rightarrow> go_error" where
  "mirror_status url status = ''embedded-tikv: mirror '' @ url @ '' returned '' @ status"

definition bad_manifest :: "string \<Rightarrow> go_error" where
  "bad_manifest url = ''embedded-tikv: unable to parse manifest '' @ url @ '': invalid JSON value''"

definition mirror_getJSON :: "host \<Rightarrow> mirror \<Rightarrow> string \<Rightarrow> (json \<Rightarrow> 'a option) \<Rightarrow> world \<Rightarrow> 'a result" where
  "mirror_getJSON h m path decode w =
    (let url = m_baseURL m @ path
     in case http_get h url (now w) of
       HttpError e \<Rightarrow> Inl (unreachable_mirror url e)
     | HttpResponse code status body \<Rightarrow>
         if code \<noteq> 200 then Inl (mirror_status url status)
         else (case unmarshal body of None \<Rightarrow> Inl (bad_manifest url)
               | Some v \<Rightarrow> (case decode v of None \<Rightarrow> Inl (bad_manifest url) | Some x \<Rightarrow> Inr x)))"

definition unknown_component :: "mirror \<Rightarrow> string \<Rightarrow> go_error" where
  "unknown_component m cname =
    ''embedded-tikv: mirror '' @ m_baseURL m @ '' does not publish component '' @ quote cname"

definition unknown_platform :: "string \<Rightarrow> string \<Rightarrow> string list \<Rightarrow> go_error" where
  "unknown_platform cname platformKey available = ''embedded-tikv: '' @ cname @ '' publishes no '' @
     platformKey @ '' build; available platforms are '' @ join '', '' available"

definition unknown_version :: "string \<Rightarrow> string \<Rightarrow> string \<Rightarrow> string list \<Rightarrow> go_error" where
  "unknown_version cname version platformKey recent = ''embedded-tikv: '' @ cname @ '' has no version '' @
     version @ '' for '' @ platformKey @ ''; recent releases are '' @ join '', '' recent"

definition yanked_version :: "string \<Rightarrow> string \<Rightarrow> go_error" where
  "yanked_version cname version = ''embedded-tikv: '' @ cname @ '' '' @ version @
     '' has been yanked upstream, pick another version''"

definition incomplete_entry :: "string \<Rightarrow> string \<Rightarrow> go_error" where
  "incomplete_entry cname version =
    ''embedded-tikv: manifest entry for '' @ cname @ '' '' @ version @ '' is incomplete''"

text \<open>The choice of an entry, once the manifest of the component is there.\<close>

definition pick_entry :: "string \<Rightarrow> string \<Rightarrow> string \<Rightarrow> (string \<times> (string \<times> mirrorEntry) list) list \<Rightarrow> mirrorEntry result" where
  "pick_entry cname version platformKey manifest =
    (case map_of manifest platformKey of
      None \<Rightarrow> Inl (unknown_platform cname platformKey (sort (map fst manifest)))
    | Some platforms \<Rightarrow>
      (case map_of platforms version of
        None \<Rightarrow> Inl (unknown_version cname version platformKey (recentVersions platforms))
      | Some entry \<Rightarrow>
          if me_Yanked entry then Inl (yanked_version cname version)
          else if me_Entry entry = [] \<or> me_URL entry = [] then Inl (incomplete_entry cname version)
          else Inr entry))"

text \<open>The snapshot is fetched once per mirror and kept.\<close>

definition load_snapshot :: "host \<Rightarrow> mirror \<Rightarrow> world \<Rightarrow> ((string \<times> int) list) result \<times> mirror" where
  "load_snapshot h m w =
    (case m_snapshot m of
      Some s \<Rightarrow> (Inr s, m)
    | None \<Rightarrow>
        (case mirror_getJSON h m ''/snapshot.json'' decode_snapshot w of
          Inl e \<Rightarrow> (Inl e, m) | Inr s \<Rightarrow> (Inr s, m\<lparr>m_snapshot := Some s\<rparr>)))"

definition resolve :: "host \<Rightarrow> string \<Rightarrow> string \<Rightarrow> string \<Rightarrow> mirror \<Rightarrow> world \<Rightarrow> mirrorEntry result \<times> mirror" where
  "resolve h cname version platformKey m w =
    (case load_snapshot h m w of
      (Inl e, m1) \<Rightarrow> (Inl e, m1)
    | (Inr meta, m1) \<Rightarrow>
        (case map_of meta (''/'' @ cname @ ''.json'') of
          None \<Rightarrow> (Inl (unknown_component m1 cname), m1)
        | Some v \<Rightarrow>
            (case mirror_getJSON h m1 (''/'' @ itoa v @ ''.'' @ cname @ ''.json'') decode_component w of
              Inl e \<Rightarrow> (Inl e, m1)
            | Inr manifest \<Rightarrow> (pick_entry cname version platformKey manifest, m1))))"

subsection \<open>Downloading\<close>

definition not_in_archive :: "string \<Rightarrow> go_error" where
  "not_in_archive name = ''archive does not contain '' @ name"

fun extract_loop :: "host \<Rightarrow> string \<Rightarrow> string \<Rightarrow> archive_item list \<Rightarrow> unit io" where
  "extract_loop h name temp [] w = (Inl (not_in_archive name), w)"
| "extract_loop h name temp (Broken e # items) w = (Inl e, w)"
| "extract_loop h name temp (Member regular n bytes broken # items) w =
    (if \<not> regular \<or> base n \<noteq> name then extract_loop h name temp items w
     else case writeFd h temp bytes w of
       (Inl e, w1) \<Rightarrow> (Inl e, w1)
     | (Inr _, w1) \<Rightarrow> (case broken of Some e \<Rightarrow> (Inl e, w1) | None \<Rightarrow> (Inr (), w1)))"

definition extractEntry :: "host \<Rightarrow> codecs \<Rightarrow> string \<Rightarrow> string \<Rightarrow> string \<Rightarrow> unit io" where
  "extractEntry h c archive name temp w =
    (case open_archive c archive of Inl e \<Rightarrow> (Inl e, w) | Inr items \<Rightarrow> extract_loop h name temp items w)"

definition download_error :: "string \<Rightarrow> string \<Rightarrow> go_error \<Rightarrow> go_error" where
  "download_error what url e = ''embedded-tikv: '' @ what @ '' '' @ url @ '': '' @ e"

definition chmod_error :: "string \<Rightarrow> go_error \<Rightarrow> go_error" where
  "chmod_error temp e = ''embedded-tikv: unable to make '' @ temp @ '' executable: '' @ e"

definition download_status :: "string \<Rightarrow> string \<Rightarrow> go_error" where
  "download_status url status = ''embedded-tikv: downloading '' @ url @ '' returned '' @ status"

definition checksum_mismatch :: "string \<Rightarrow> string \<Rightarrow> string \<Rightarrow> go_error" where
  "checksum_mismatch url want got = ''embedded-tikv: checksum mismatch for '' @ url @ '': manifest says '' @ want @
     '', download was '' @ got"

text \<open>What happens to the temporary file once it exists: the whole content, or an error.\<close>

definition fill_temporary :: "host \<Rightarrow> codecs \<Rightarrow> string \<Rightarrow> string \<Rightarrow> mirrorEntry \<Rightarrow> string \<Rightarrow> string \<Rightarrow> unit io" where
  "fill_temporary h c url body entry destination temp =
    seqE (wrapE (download_error (''extracting '' @ me_Entry entry @ '' from'') url)
        (extractEntry h c body (me_Entry entry) temp))
      (\<lambda>_. case body_error c url of
        Some e \<Rightarrow> failE (download_error ''unable to finish reading'' url e)
      | None \<Rightarrow>
          if sha256_hex c body \<noteq> me_SHA256 entry
          then failE (checksum_mismatch url (me_SHA256 entry) (sha256_hex c body))
          else seqE (wrapE (chmod_error temp) (chmodExec h temp))
            (\<lambda>_. seqE (wrapE (download_error ''unable to close'' temp) (closeFd h temp))
              (\<lambda>_. wrapE (download_error ''unable to install'' destination) (rename h temp destination))))"

definition download :: "host \<Rightarrow> codecs \<Rightarrow> mirror \<Rightarrow> mirrorEntry \<Rightarrow> string \<Rightarrow> unit io" where
  "download h c m entry destination w =
    (let url = m_baseURL m @ me_URL entry
     in case http_get h url (now w) of
       HttpError e \<Rightarrow> (Inl (download_error ''unable to download'' url e), w)
     | HttpResponse code status body \<Rightarrow>
         if code \<noteq> 200 then (Inl (download_status url status), w)
         else (case createTemp h (dir_of destination) (''.'' @ base destination @ ''.'') [] w of
           (Inl e, w1) \<Rightarrow> (Inl (''embedded-tikv: unable to create temporary file: '' @ e), w1)
         | (Inr temp, w1) \<Rightarrow>
             (case fill_temporary h c url body entry destination temp w1 of
               (Inl e, w2) \<Rightarrow> (Inl e, snd (remove h temp w2))
             | (Inr _, w2) \<Rightarrow> (Inr (), w2))))"

subsection \<open>Resolving\<close>

definition install :: "host \<Rightarrow> codecs \<Rightarrow> Config \<Rightarrow> string \<Rightarrow> string \<Rightarrow> string \<Rightarrow> mirror \<Rightarrow> world \<Rightarrow> (unit result \<times> mirror) \<times> world" where
  "install h c cfg platformKey cname path m w =
    (if isExecutable h path w then ((Inr (), m), w)
     else case resolve h cname (cfg_version cfg) platformKey m w of
       (Inl e, m1) \<Rightarrow> ((Inl e, m1), w)
     | (Inr entry, m1) \<Rightarrow> (case download h c m1 entry path w of (r, w1) \<Rightarrow> ((r, m1), w1)))"

definition install_both :: "host \<Rightarrow> codecs \<Rightarrow> Config \<Rightarrow> string \<Rightarrow> binaries \<Rightarrow> unit io" where
  "install_both h c cfg platformKey found w =
    (case install h c cfg platformKey componentPD (bin_pd found) (newMirror (cfg_mirrorURL cfg)) w of
      ((Inl e, _), w1) \<Rightarrow> (Inl e, w1)
    | ((Inr _, m), w1) \<Rightarrow>
        (case install h c cfg platformKey componentTiKV (bin_tikv found) m w1 of ((r, _), w2) \<Rightarrow> (r, w2)))"

definition cache_error :: "string \<Rightarrow> go_error \<Rightarrow> go_error" where
  "cache_error binDir e = ''embedded-tikv: unable to create binary cache '' @ binDir @ '': '' @ e"

definition cached_binaries :: "string \<Rightarrow> binaries" where
  "cached_binaries binDir = \<lparr>bin_pd = path_join [binDir, binaryPD], bin_tikv = path_join [binDir, binaryTiKV]\<rparr>"

definition resolveBinaries :: "host \<Rightarrow> codecs \<Rightarrow> Config \<Rightarrow> binaries io" where
  "resolveBinaries h c cfg w =
    (let dir = suppliedBinariesDir h cfg
     in if dir \<noteq> [] then (suppliedBinaries h dir w, w)
        else case platformFor (goos h) (goarch h) of
          Inl e \<Rightarrow> (Inl e, w)
        | Inr (platformKey, slug) \<Rightarrow>
            (let binDir = path_join [cacheDirectory h cfg, ''bin'', cfg_version cfg @ ''-'' @ slug];
                 found = cached_binaries binDir
             in if isExecutable h (bin_pd found) w \<and> isExecutable h (bin_tikv found) w then (Inr found, w)
                else seqE (wrapE (cache_error binDir) (mkdirAll h binDir))
                  (\<lambda>_. seqE (withFileLock h (binDir @ ''.lock'') (install_both h c cfg platformKey found))
                    (\<lambda>_. returnE found)) w))"


subsection \<open>Sorting by a comparison\<close>

text \<open>What \<open>slices.SortFunc\<close> needs of its comparison: a total preorder, read off the sign.\<close>

locale comparison =
  fixes cmp :: "'a \<Rightarrow> 'a \<Rightarrow> int"
  assumes cmp_refl: "cmp a a = 0"
    and cmp_swap: "cmp a b < 0 \<longleftrightarrow> 0 < cmp b a"
    and cmp_trans: "cmp a b \<le> 0 \<Longrightarrow> cmp b c \<le> 0 \<Longrightarrow> cmp a c \<le> 0"
begin

lemma cmp_total: "\<not> cmp a b \<le> 0 \<Longrightarrow> cmp b a \<le> 0"
  using cmp_swap [of b a] by simp

lemma set_insert_by: "set (insert_by cmp x ys) = insert x (set ys)"
  by (induction ys) auto

lemma length_insert_by: "length (insert_by cmp x ys) = Suc (length ys)"
  by (induction ys) auto

lemma sorted_insert_by:
  "sorted_wrt (\<lambda>a b. cmp a b \<le> 0) ys \<Longrightarrow> sorted_wrt (\<lambda>a b. cmp a b \<le> 0) (insert_by cmp x ys)"
proof (induction ys)
  case Nil
  then show ?case by simp
next
  case (Cons y ys)
  then show ?case using cmp_total [of x y] by (auto simp: set_insert_by intro: cmp_trans)
qed

lemma sortFunc_correct:
  "sorted_wrt (\<lambda>a b. cmp a b \<le> 0) (sortFunc cmp xs)" "set (sortFunc cmp xs) = set xs"
  "length (sortFunc cmp xs) = length xs"
  by (induction xs) (auto simp: sortFunc_def sorted_insert_by set_insert_by length_insert_by)

text \<open>The last \<open>n\<close> of a sorted list are its greatest.\<close>

lemma newest:
  assumes "x \<in> set xs" "x \<notin> set (drop (length xs - n) (sortFunc cmp xs))"
    and "y \<in> set (drop (length xs - n) (sortFunc cmp xs))"
  shows "cmp x y \<le> 0"
proof -
  let ?s = "sortFunc cmp xs" and ?k = "length xs - n"
  have "x \<in> set (take ?k ?s @ drop ?k ?s)" using assms(1) by (simp add: sortFunc_correct)
  then have "x \<in> set (take ?k ?s)" using assms(2) unfolding set_append by blast
  moreover have "sorted_wrt (\<lambda>a b. cmp a b \<le> 0) (take ?k ?s @ drop ?k ?s)" by (simp add: sortFunc_correct)
  ultimately show ?thesis using assms(3) unfolding sorted_wrt_append by blast
qed

lemma distinct_insert_by: "distinct (insert_by cmp x ys) \<longleftrightarrow> x \<notin> set ys \<and> distinct ys"
  by (induction ys) (auto simp: set_insert_by)

lemma distinct_sortFunc: "distinct xs \<Longrightarrow> distinct (sortFunc cmp xs)"
proof (induction xs)
  case (Cons x xs)
  moreover have "set (foldr (insert_by cmp) xs []) = set xs" using sortFunc_correct(2) [of xs] by (simp add: sortFunc_def)
  ultimately show ?case by (simp add: sortFunc_def distinct_insert_by)
qed (simp add: sortFunc_def)

end

lemma compare_text_swap: "compare_text a b < 0 \<longleftrightarrow> 0 < compare_text b a"
  by (auto simp: compare_text_def)

lemma compare_fields_refl: "compare_fields as as = 0"
  by (induction as) auto

lemma compare_fields_swap: "compare_fields as bs < 0 \<longleftrightarrow> 0 < compare_fields bs as"
  by (induction as bs rule: compare_fields.induct) (auto simp: compare_text_swap)

lemma compare_fields_trans:
  "compare_fields as bs \<le> 0 \<Longrightarrow> compare_fields bs cs \<le> 0 \<Longrightarrow> compare_fields as cs \<le> 0"
proof (induction as arbitrary: bs cs)
  case Nil
  then show ?case by (cases bs; cases cs) auto
next
  case (Cons a as)
  then show ?case
    by (cases bs; cases cs) (auto simp: compare_text_def split: if_splits)
qed

interpretation versions: comparison compareVersions
  by unfold_locales
    (auto simp: compareVersions_def compare_fields_refl intro: compare_fields_trans
      dest: compare_fields_swap [THEN iffD1] compare_fields_swap [THEN iffD2])

subsection \<open>The order of the versions\<close>

lemma digit_char_less: "a < 10 \<Longrightarrow> b < 10 \<Longrightarrow> digit_char a < digit_char b \<longleftrightarrow> a < b"
  by (simp add: digit_char_def less_char_def of_char_of_nat)

lemma list_less_snoc:
  "length xs = length ys \<Longrightarrow> xs @ [x] < ys @ [y] \<longleftrightarrow> xs < ys \<or> xs = ys \<and> x < (y :: 'a :: linorder)"
  by (induction xs ys rule: list_induct2) auto

text \<open>Numerals without leading zeros: the shorter is the smaller, and of two equally long ones the first in the alphabet.\<close>

lemma length_show_nat_mono: "a \<le> b \<Longrightarrow> length (show_nat a) \<le> length (show_nat b)"
proof (induction b arbitrary: a rule: show_nat.induct)
  case (1 b)
  show ?case
  proof (cases "a < 10")
    case True
    then have "length (show_nat a) = 1" by (simp add: show_nat.simps [of a])
    then show ?thesis by (simp add: Suc_le_eq)
  next
    case False
    with "1.prems" have "\<not> b < 10" "a div 10 \<le> b div 10" by (simp_all add: div_le_mono)
    with "1.IH" False show ?thesis by (simp add: show_nat.simps [of a] show_nat.simps [of b])
  qed
qed

lemma decimal_less: "a < 10 \<Longrightarrow> b < (10::nat) \<Longrightarrow> x < y \<or> x = y \<and> a < b \<longleftrightarrow> 10 * x + a < 10 * y + b"
  by arith

lemma show_nat_less:
  "length (show_nat a) = length (show_nat b) \<Longrightarrow> show_nat a < show_nat b \<longleftrightarrow> a < b"
proof (induction a arbitrary: b rule: show_nat.induct)
  case (1 a)
  show ?case
  proof (cases "a < 10")
    case True
    with "1.prems" have "length (show_nat b) = 1" by (simp add: show_nat.simps [of a])
    then have "b < 10" by (simp add: show_nat.simps [of b] split: if_splits)
    with True show ?thesis by (simp add: show_nat.simps [of a] show_nat.simps [of b] digit_char_less)
  next
    case False
    have "\<not> b < 10"
    proof
      assume "b < 10"
      with False "1.prems" show False by (simp add: show_nat.simps [of a] show_nat.simps [of b])
    qed
    with False "1.prems" have len: "length (show_nat (a div 10)) = length (show_nat (b div 10))"
      by (simp add: show_nat.simps [of a] show_nat.simps [of b])
    have "show_nat a < show_nat b \<longleftrightarrow>
        a div 10 < b div 10 \<or> a div 10 = b div 10 \<and> a mod 10 < b mod 10"
      using False \<open>\<not> b < 10\<close> "1.IH" [OF False len] list_less_snoc [OF len]
      by (simp add: show_nat.simps [of a] show_nat.simps [of b] digit_char_less)
    also have "\<dots> \<longleftrightarrow> a < b"
      using decimal_less [of "a mod 10" "b mod 10" "a div 10" "b div 10"] by simp
    finally show ?thesis .
  qed
qed

lemma compare_numerals:
  "(if length (show_nat a) \<noteq> length (show_nat b) then int (length (show_nat a)) - int (length (show_nat b))
    else compare_text (show_nat a) (show_nat b)) \<le> 0 \<longleftrightarrow> a \<le> b"
  using length_show_nat_mono [of a b] length_show_nat_mono [of b a] show_nat_less [of a b]
  by (cases a b rule: linorder_cases) (auto simp: compare_text_def)

lemma compare_fields_numerals:
  "compare_fields (map show_nat xs) (map show_nat ys) \<le> 0 \<longleftrightarrow> xs \<le> ys"
proof (induction xs arbitrary: ys)
  case Nil
  then show ?case by (cases ys) simp_all
next
  case (Cons x xs)
  show ?case
  proof (cases ys)
    case Nil
    then show ?thesis by simp
  next
    case (Cons y zs)
    then show ?thesis using Cons.IH [of zs] compare_numerals [of x y] by auto
  qed
qed

text \<open>A release as TiKV numbers them, \<^verbatim>\<open>v7.5.0\<close>: numbers of any size, and any number of them.\<close>

definition version_text :: "nat list \<Rightarrow> string" where
  "version_text ns = ''v'' @ join ''.'' (map show_nat ns)"

lemma split_version_text:
  assumes "ns \<noteq> []"
  shows "split_on (CHR ''.'') (trimPrefix (version_text ns) ''v'') = map show_nat ns"
proof -
  have "CHR ''.'' \<notin> set (show_nat n)" for n
    using is_digit_show_nat [of "CHR ''.''" n] by (auto simp: is_digit_def)
  with assms show ?thesis
    unfolding version_text_def trimPrefix_append by (intro split_join) auto
qed

lemma compareVersions_numeric:
  "xs \<noteq> [] \<Longrightarrow> ys \<noteq> [] \<Longrightarrow> compareVersions (version_text xs) (version_text ys) \<le> 0 \<longleftrightarrow> xs \<le> ys"
  by (simp add: compareVersions_def split_version_text compare_fields_numerals)

lemma insert_numeric:
  "[] \<notin> set (x # ys) \<Longrightarrow>
    insert_by compareVersions (version_text x) (map version_text ys) = map version_text (insort x ys)"
proof (induction ys)
  case (Cons y ys)
  then have "x \<noteq> []" "y \<noteq> []" by auto
  with Cons show ?case by (simp add: compareVersions_numeric)
qed simp

lemma sort_numeric:
  "[] \<notin> set vs \<Longrightarrow> sortFunc compareVersions (map version_text vs) = map version_text (sort vs)"
  by (induction vs) (simp_all add: sortFunc_def insert_numeric)

lemma recent_numeric:
  assumes "filter (\<lambda>v. \<not> containsAny v ''-'') (map fst platforms) = map version_text vs" "[] \<notin> set vs"
  shows "recentVersions platforms = map version_text (drop (length vs - 8) (sort vs))"
  using assms by (simp add: recentVersions_def Let_def sort_numeric drop_map)

text \<open>
  C32: \<open>recentVersions\<close> lists releases of the manifest that are no pre-releases, eight at most, none twice,
  in ascending order, and no release that is left out is newer than one that is listed. Newer is meant by number: if
  the releases are numbered as TiKV does, \<^verbatim>\<open>v7.10.0\<close> for \<open>[7, 10, 0]\<close> with any number of fields of any size, the result is
  the last eight of them in the lexicographic order of their numbers.
\<close>

theorem recentVersions_correct:
  "(let stable = filter (\<lambda>v. \<not> containsAny v ''-'') (map fst platforms); recent = recentVersions platforms
    in set recent \<subseteq> set stable \<and> length recent = min 8 (length stable) \<and>
       (distinct (map fst platforms) \<longrightarrow> distinct recent) \<and>
       sorted_wrt (\<lambda>a b. compareVersions a b \<le> 0) recent \<and>
       (\<forall>x \<in> set stable - set recent. \<forall>y \<in> set recent. compareVersions x y \<le> 0) \<and>
       (\<forall>vs. stable = map version_text vs \<and> [] \<notin> set vs \<longrightarrow>
          recent = map version_text (drop (length vs - 8) (sort vs))))"
proof -
  let ?stable = "filter (\<lambda>v. \<not> containsAny v ''-'') (map fst platforms)"
  have recent: "recentVersions platforms = drop (length ?stable - 8) (sortFunc compareVersions ?stable)"
    by (simp add: recentVersions_def Let_def versions.sortFunc_correct)
  have "set (recentVersions platforms) \<subseteq> set ?stable"
    unfolding recent using set_drop_subset versions.sortFunc_correct(2) by metis
  moreover have "length (recentVersions platforms) = min 8 (length ?stable)"
    unfolding recent by (simp add: versions.sortFunc_correct)
  moreover have "distinct (recentVersions platforms)" if "distinct (map fst platforms)"
    unfolding recent by (intro distinct_drop versions.distinct_sortFunc distinct_filter that)
  moreover have "sorted_wrt (\<lambda>a b. compareVersions a b \<le> 0) (recentVersions platforms)"
    unfolding recent by (rule sorted_wrt_drop [OF versions.sortFunc_correct(1)])
  moreover have "\<forall>x \<in> set ?stable - set (recentVersions platforms). \<forall>y \<in> set (recentVersions platforms).
      compareVersions x y \<le> 0"
    unfolding recent using versions.newest by blast
  moreover have "recentVersions platforms = map version_text (drop (length vs - 8) (sort vs))"
    if "?stable = map version_text vs \<and> [] \<notin> set vs" for vs
    using recent_numeric [of platforms vs] that by blast
  ultimately show ?thesis unfolding Let_def by blast
qed

theorem recentVersions_correct_witness:
  "recentVersions (map (\<lambda>n. (version_text [7, n, 0], ())) [10, 2, 1, 9, 3, 4, 5, 6, 8, 7] @ [(''v8.0.0-alpha'', ())]) =
    map version_text [[7, 3, 0], [7, 4, 0], [7, 5, 0], [7, 6, 0], [7, 7, 0], [7, 8, 0], [7, 9, 0], [7, 10, 0]]"
proof -
  let ?vs = "map (\<lambda>n. [7, n, 0]) [10, 2, 1, 9, 3, 4, 5, 6, 8, 7] :: nat list list"
  let ?platforms = "map (\<lambda>n. (version_text [7, n, 0], ())) [10, 2, 1, 9, 3, 4, 5, 6, 8, 7] @ [(''v8.0.0-alpha'', ())]"
  have stable: "filter (\<lambda>v. \<not> containsAny v ''-'') (map fst ?platforms) = map version_text ?vs" by code_simp
  have "[] \<notin> set ?vs" by simp
  with recentVersions_correct [of ?platforms] stable
  have "recentVersions ?platforms = map version_text (drop (length ?vs - 8) (sort ?vs))"
    unfolding Let_def by blast
  also have "drop (length ?vs - 8) (sort ?vs) =
      [[7, 3, 0], [7, 4, 0], [7, 5, 0], [7, 6, 0], [7, 7, 0], [7, 8, 0], [7, 9, 0], [7, 10, 0]]" by code_simp
  finally show ?thesis .
qed

text \<open>The four platforms for which binaries are published, and no other.\<close>

lemma platformFor_correct:
  "(case platformFor os arch of
      Inr (key, slug) \<Rightarrow> (os = ''linux'' \<or> os = ''darwin'') \<and> (arch = ''amd64'' \<or> arch = ''arm64'') \<and>
        split_on (CHR ''/'') key = [os, arch] \<and> split_on (CHR ''-'') slug = [os, arch]
    | Inl _ \<Rightarrow> \<not> ((os = ''linux'' \<or> os = ''darwin'') \<and> (arch = ''amd64'' \<or> arch = ''arm64'')))"
  by (auto simp: platformFor_def)

subsection \<open>Picking an entry\<close>

lemma pick_entry_iff:
  "pick_entry cname version platformKey manifest = Inr entry \<longleftrightarrow>
    (case map_of manifest platformKey of None \<Rightarrow> False
     | Some platforms \<Rightarrow> map_of platforms version = Some entry) \<and>
    \<not> me_Yanked entry \<and> me_Entry entry \<noteq> [] \<and> me_URL entry \<noteq> []"
  by (auto simp: pick_entry_def split: option.splits if_splits)

subsection \<open>What a download leaves\<close>

text \<open>The content of the first regular member of this base name, if the stream gets that far.\<close>

fun find_member :: "string \<Rightarrow> archive_item list \<Rightarrow> string option" where
  "find_member name [] = None"
| "find_member name (Broken e # items) = None"
| "find_member name (Member regular n bytes broken # items) =
    (if \<not> regular \<or> base n \<noteq> name then find_member name items
     else if broken = None then Some bytes else None)"

definition published :: "codecs \<Rightarrow> mirrorEntry \<Rightarrow> string \<Rightarrow> string option" where
  "published c entry body =
    (if sha256_hex c body \<noteq> me_SHA256 entry then None
     else case open_archive c body of Inl _ \<Rightarrow> None | Inr items \<Rightarrow> find_member (me_Entry entry) items)"

lemma file_text_writeFd_other: "p \<noteq> t \<Longrightarrow> file_text (snd (writeFd h t s w)) p = file_text w p"
  by (auto simp: writeFd_def append_text_def split: option.split node.split)

lemma extract_loop_cases:
  assumes "extract_loop h name temp items w = (r, w')"
  shows "(\<forall>p. p \<noteq> temp \<longrightarrow> file_text w' p = file_text w p) \<and>
    (r = Inr () \<longrightarrow> (\<exists>bytes. find_member name items = Some bytes \<and> writeFd h temp bytes w = (Inr (), w')))"
  using assms
proof (induction h name temp items w rule: extract_loop.induct)
  case (3 h name temp regular n bytes broken items w)
  obtain r1 w1 where wr: "writeFd h temp bytes w = (r1, w1)" by fastforce
  then have other: "p \<noteq> temp \<Longrightarrow> file_text w1 p = file_text w p" for p
    using file_text_writeFd_other [of p temp h bytes w] by simp
  show ?case
  proof (cases "\<not> regular \<or> base n \<noteq> name")
    case True
    with 3 show ?thesis by simp
  next
    case False
    with "3.prems" wr other show ?thesis by (cases r1; cases broken) auto
  qed
qed auto

lemma file_text_chmod: "file_text (snd (chmodExec h t w)) = file_text w"
proof (cases "lookup w t")
  case (Some n)
  then show ?thesis
    by (cases n) (auto simp: chmodExec_def fun_eq_iff file_text_def lookup_put_node split: option.split)
qed (simp add: chmodExec_def split: option.split)

lemma rename_lookup:
  assumes "rename h p q w = (Inr u, w')" "p \<noteq> q" "lookup w p = Some (Regular i s x)"
  shows "lookup w' q = Some (Regular i s x)"
  using assms
  by (auto simp: rename_def Let_def lookup_drop_entries lookup_add_Regular split: option.splits if_splits)

lemma fill_temporary_cases:
  assumes "fill_temporary h c url body entry dst temp w = (r, w')" "temp \<noteq> dst"
    and "lookup w temp = Some (Regular i [] x)"
  shows "(case r of
      Inl _ \<Rightarrow> file_text w' dst = file_text w dst
    | Inr _ \<Rightarrow> \<exists>bytes. published c entry body = Some bytes \<and> lookup w' dst = Some (Regular i bytes True))"
proof -
  obtain r1 w1 where 1: "extractEntry h c body (me_Entry entry) temp w = (r1, w1)" by fastforce
  have keep1: "file_text w1 dst = file_text w dst"
    using 1 assms(2) extract_loop_cases by (cases "open_archive c body") (auto simp: extractEntry_def)
  show ?thesis
  proof (cases "r1 = Inr () \<and> body_error c url = None \<and> sha256_hex c body = me_SHA256 entry")
    case False
    with 1 keep1 assms(1) show ?thesis
      by (cases r1) (auto simp: fill_temporary_def seqE_def wrapE_def failE_def split: option.splits)
  next
    case True
    with 1 obtain items where open': "open_archive c body = Inr items"
      and loop: "extract_loop h (me_Entry entry) temp items w = (Inr (), w1)"
      by (cases "open_archive c body") (auto simp: extractEntry_def)
    from extract_loop_cases [OF loop] obtain bytes where
      found: "find_member (me_Entry entry) items = Some bytes" "writeFd h temp bytes w = (Inr (), w1)"
      by auto
    have t1: "lookup w1 temp = Some (Regular i bytes x)"
      using found(2) assms(3) by (auto simp: writeFd_def append_text_def lookup_put_node split: option.splits)
    obtain r2 w2 where 2: "chmodExec h temp w1 = (r2, w2)" by fastforce
    have keep2: "file_text w2 dst = file_text w dst" using file_text_chmod [of h temp w1] 2 keep1 by simp
    obtain r3 w3 where 3: "closeFd h temp w2 = (r3, w3)" by fastforce
    have w3: "w3 = w2" using closeFd_world [of h temp w2] 3 by simp
    obtain r4 w4 where 4: "rename h temp dst w2 = (r4, w4)" by fastforce
    have keep4: "r4 = Inl e \<Longrightarrow> w4 = w2" for e using 4 rename_Inl by blast
    have fin: "lookup w4 dst = Some (Regular i bytes True)" if "r2 = Inr ()" "r4 = Inr ()"
    proof -
      have "lookup w2 temp = Some (Regular i bytes True)"
        using 2 t1 that(1) by (auto simp: chmodExec_def lookup_put_node split: option.splits)
      then show ?thesis using rename_lookup 4 that(2) assms(2) by blast
    qed
    have pub: "published c entry body = Some bytes" using True open' found(1) by (simp add: published_def)
    show ?thesis
      using assms(1) 1 True 2 3 4 w3 keep2 keep4 fin pub
      by (cases r2; cases r3; cases r4) (auto simp: fill_temporary_def seqE_def wrapE_def)
  qed
qed

text \<open>
  C33: a download is verified and atomic. When \<open>download\<close> succeeds, the destination is an
  executable file whose content is the named member of the archive the mirror answered with, and
  that archive has the hash of the manifest; when it fails, for whatever reason, the destination
  is what it was.
\<close>

theorem download_verified:
  assumes "destination = d @ ''/'' @ f" "abs_dir d" "component f"
  shows "(case download h c m entry destination w of
      (Inr _, w') \<Rightarrow>
        (case http_get h (m_baseURL m @ me_URL entry) (now w) of
          HttpError _ \<Rightarrow> False
        | HttpResponse code _ body \<Rightarrow> code = 200 \<and>
            (case (published c entry body, lookup w' destination) of
              (Some bytes, Some (Regular _ s x)) \<Rightarrow> s = bytes \<and> x | _ \<Rightarrow> False))
    | (Inl _, w') \<Rightarrow> file_text w' destination = file_text w destination)"
proof (cases "http_get h (m_baseURL m @ me_URL entry) (now w)")
  case (HttpError e)
  then show ?thesis by (simp add: download_def)
next
  case (HttpResponse code status body)
  have dirs: "dir_of destination = d" "base destination = f"
    using assms dir_of_append base_append by (simp_all del: append.simps)
  show ?thesis
  proof (cases "code = 200")
    case False
    with HttpResponse show ?thesis by (simp add: download_def)
  next
    case True
    obtain r1 w1 where 1: "createTemp h d (''.'' @ f @ ''.'') [] w = (r1, w1)" by fastforce
    show ?thesis
    proof (cases r1)
      case (Inl e)
      with 1 have "file_text w1 = file_text w" by (auto elim: createTemp_Inl)
      with HttpResponse True 1 Inl dirs show ?thesis by (simp add: download_def)
    next
      case (Inr temp)
      from 1 [unfolded Inr] obtain n k where temp: "temp = d @ ''/'' @ (''.'' @ f @ ''.'') @ n @ []"
        and w1: "w1 = new_file temp [] False (w\<lparr>draws := k\<rparr>)" by (rule createTemp_Inr)
      have ne: "temp \<noteq> destination" by (auto simp: temp assms(1) dest: arg_cong [of _ _ length])
      have t1: "lookup w1 temp = Some (Regular (next_ino w) [] False)"
        using lookup_add_Regular [of temp "Regular (next_ino w) [] False" "w\<lparr>draws := k\<rparr>" temp]
        by (simp add: w1 new_file_def)
      have keep1: "file_text w1 destination = file_text w destination" using ne by (simp add: w1)
      obtain r2 w2 where 2: "fill_temporary h c (m_baseURL m @ me_URL entry) body entry destination temp w1 = (r2, w2)"
        by fastforce
      from fill_temporary_cases [OF this ne t1] keep1 ne file_text_remove [of destination temp h w2]
        HttpResponse True 1 Inr 2 dirs
      show ?thesis by (cases r2) (auto simp: download_def)
    qed
  qed
qed


text \<open>A machine that has the cache directory, and a mirror whose answers hold one small archive.\<close>

definition example_codecs :: codecs where
  "example_codecs = \<lparr>sha256_hex = (\<lambda>s. s),
     open_archive = (\<lambda>s. Inr [Member False ''pd-server'' [] None, Member True ''./pd-server'' ''ELF'' None]),
     body_error = (\<lambda>_. None)\<rparr>"

definition example_entry :: mirrorEntry where
  "example_entry = \<lparr>me_Entry = ''pd-server'', me_URL = ''/pd.tar.gz'', me_Length = 2, me_Yanked = False,
     me_SHA256 = ''gz''\<rparr>"

definition mirror_host :: host where
  "mirror_host = example_host\<lparr>http_get := \<lambda>_ _. HttpResponse 200 [] ''gz''\<rparr>"

theorem download_verified_witness:
  "(let r = download mirror_host example_codecs (newMirror []) example_entry ''/home/u/pd-server'' example_world
    in fst r = Inr () \<and>
      (case lookup (snd r) ''/home/u/pd-server'' of Some (Regular _ s x) \<Rightarrow> s = ''ELF'' \<and> x | _ \<Rightarrow> False))"
proof -
  let ?r = "download mirror_host example_codecs (newMirror []) example_entry ''/home/u/pd-server'' example_world"
  have ok: "fst ?r = Inr ()" by code_simp
  have "abs_dir ''/home/u''" "component ''pd-server''" by code_simp+
  from download_verified [OF _ this, where destination = "''/home/u/pd-server''" and h = mirror_host and
      c = example_codecs and m = "newMirror []" and entry = example_entry and w = example_world] ok
  have "(case (published example_codecs example_entry ''gz'', lookup (snd ?r) ''/home/u/pd-server'') of
      (Some bytes, Some (Regular _ s x)) \<Rightarrow> s = bytes \<and> x | _ \<Rightarrow> False)"
    by (cases ?r) (simp add: mirror_host_def)
  moreover have "published example_codecs example_entry ''gz'' = Some ''ELF''" by code_simp
  ultimately show ?thesis using ok
    by (simp add: Let_def split: option.splits node.splits)
qed

subsection \<open>What resolving leaves\<close>

definition exec_at :: "world \<Rightarrow> string \<Rightarrow> bool" where
  "exec_at w p \<longleftrightarrow> (case lookup w p of Some (Regular _ _ x) \<Rightarrow> x | _ \<Rightarrow> False)"

lemma isExecutable_exec_at: "isExecutable h p w \<Longrightarrow> exec_at w p"
  by (auto simp: isExecutable_def executable_file_def stat_def exec_at_def split: option.splits node.splits)

lemma exec_at_lookup: "lookup w' p = lookup w p \<Longrightarrow> exec_at w' p = exec_at w p"
  by (simp add: exec_at_def)

lemma same_files_chmod: "\<not> S p \<Longrightarrow> stays (same_files S) (chmodExec h p)"
  by (auto simp: stays_def chmodExec_def tree.frame_refl same_files_put split: option.splits node.splits)

lemma same_files_extract: "\<not> S temp \<Longrightarrow> stays (same_files S) (extract_loop h name temp items)"
proof (induction items)
  case Nil
  then show ?case by (simp add: stays_def tree.frame_refl)
next
  case (Cons x items)
  have "same_files S w (snd (extract_loop h name temp (x # items) w))" for w
  proof (cases x)
    case (Member r n b br)
    obtain r1 w1 where wr: "writeFd h temp b w = (r1, w1)" by fastforce
    with same_files_writeFd [of S temp, OF Cons.prems] have "same_files S w w1" by (rule staysE)
    with wr Member Cons staysD [of "same_files S" "extract_loop h name temp items" w] show ?thesis
      by (cases r1; cases br) auto
  qed (simp add: tree.frame_refl)
  then show ?case by (rule staysI)
qed

lemma same_files_download:
  assumes "names_ok h" "destination = d @ ''/'' @ f" "abs_dir d" "component f"
    and keep: "\<not> S d" "\<not> S destination" "\<And>n. \<not> S (d @ ''/'' @ ''.'' @ f @ ''.'' @ n)"
  shows "stays (same_files S) (download h c m entry destination)"
proof (rule staysI)
  fix w
  have dirs: "dir_of destination = d" "base destination = f" "parent destination = d"
    using assms(2-4) dir_of_append base_append parent_append by (simp_all del: append.simps)
  have part: "d @ ''/'' @ (''.'' @ f @ ''.'') @ n @ [] = d @ ''/'' @ ''.'' @ f @ ''.'' @ n" for n by simp
  have comp: "component (''.'' @ f @ ''.'' @ random_name h k)" for k
    using assms(1,4) by (auto simp: component_def names_ok_def append_eq_Cons_conv)
  have temps: "\<not> S t" "parent t = d" if "\<exists>k. t = d @ ''/'' @ (''.'' @ f @ ''.'') @ random_name h k @ []" for t
    using that keep(3) parent_append [OF assms(3) comp] part by auto
  have fill: "stays (same_files S) (fill_temporary h c url body entry destination t)"
    if "\<exists>k. t = d @ ''/'' @ (''.'' @ f @ ''.'') @ random_name h k @ []" for t url body
  proof -
    note t = temps [OF that]
    have ex: "stays (same_files S) (extractEntry h c body name t)" for name
      using staysD [OF same_files_extract [of S t h name]] t(1)
      by (auto simp: stays_def extractEntry_def tree.frame_refl split: sum.split)
    have ren: "stays (same_files S) (rename h t destination)"
      using t keep(1,2) dirs(3) by (intro same_files_rename) simp_all
    have fin: "stays (same_files S) (\<lambda>w. case body_error c url of Some e \<Rightarrow> failE (g e) w | None \<Rightarrow>
        (if b then failE x else k) w)" if "stays (same_files S) k"
      for g b x and k :: "unit io"
      using that tree.stays_failE by (auto simp: stays_def split: option.split)
    show ?thesis
      unfolding fill_temporary_def
      by (intro tree.stays_seqE tree.stays_wrapE ex)
        (auto split: option.split intro!: tree.stays_failE tree.stays_seqE tree.stays_wrapE
          same_files_chmod same_files_closeFd ren t(1))
  qed
  show "same_files S w (snd (download h c m entry destination w))"
  proof (cases "http_get h (m_baseURL m @ me_URL entry) (now w)")
    case (HttpError e)
    then show ?thesis by (simp add: download_def tree.frame_refl)
  next
    case (HttpResponse code status body)
    obtain r1 w1 where 1: "createTemp h d (''.'' @ f @ ''.'') [] w = (r1, w1)" by fastforce
    have "stays (same_files S) (createTemp h d (''.'' @ f @ ''.'') [])"
      using temps keep(1) by (intro same_files_createTemp) (metis, metis)
    from staysE [OF this 1] have w1: "same_files S w w1" .
    show ?thesis
    proof (cases r1)
      case (Inl e)
      with HttpResponse 1 w1 dirs show ?thesis by (cases "code = 200") (simp_all add: download_def tree.frame_refl)
    next
      case (Inr t)
      have tn: "\<exists>k. t = d @ ''/'' @ (''.'' @ f @ ''.'') @ random_name h k @ []"
        using createTemp_name [OF 1 [unfolded Inr]] .
      obtain r2 w2 where 2: "fill_temporary h c (m_baseURL m @ me_URL entry) body entry destination t w1 = (r2, w2)"
        by fastforce
      have w2: "same_files S w w2" using w1 staysE [OF fill [OF tn] 2] by (rule tree.frame_trans)
      have "same_files S w2 (snd (remove h t w2))"
        using temps [OF tn] keep(1) by (intro staysD [OF same_files_remove]) simp_all
      then have fin: "same_files S w (snd (remove h t w2))" by (rule tree.frame_trans [OF w2])
      show ?thesis
      proof (cases "code = 200")
        case False
        with HttpResponse show ?thesis by (simp add: download_def tree.frame_refl)
      next
        case True
        with HttpResponse 1 2 Inr dirs w2 fin show ?thesis by (cases r2) (simp_all add: download_def)
      qed
    qed
  qed
qed


lemma download_exec:
  assumes "destination = d @ ''/'' @ f" "abs_dir d" "component f"
    and "download h c m entry destination w = (Inr u, w')"
  shows "exec_at w' destination"
  using download_verified [OF assms(1-3), where h = h and c = c and m = m and entry = entry and w = w] assms(4)
  by (auto simp: exec_at_def split: http_outcome.splits option.splits node.splits)

lemma install_exec:
  assumes "path = d @ ''/'' @ f" "abs_dir d" "component f"
    and "install h c cfg pk cname path m w = ((Inr u, m'), w')"
  shows "exec_at w' path"
proof (cases "isExecutable h path w")
  case True
  with assms(4) show ?thesis by (simp add: install_def isExecutable_exec_at)
next
  case False
  with assms(4) obtain entry m1 where "download h c m1 entry path w = (Inr u, w')"
    by (auto simp: install_def split: prod.splits sum.splits)
  with download_exec assms(1-3) show ?thesis by blast
qed

lemma same_files_install:
  assumes "names_ok h" "path = d @ ''/'' @ f" "abs_dir d" "component f"
    and "\<not> S d" "\<not> S path" "\<And>n. \<not> S (d @ ''/'' @ ''.'' @ f @ ''.'' @ n)"
  shows "same_files S w (snd (install h c cfg pk cname path m w))"
proof -
  have "same_files S w (snd (download h c m1 entry path w))" for m1 entry
    by (rule staysD [OF same_files_download [OF assms]])
  then show ?thesis
    by (auto simp: install_def tree.frame_refl split: prod.split sum.split) (metis snd_conv)
qed

lemma abs_dir_join: "abs_dir d \<Longrightarrow> component a \<Longrightarrow> component n \<Longrightarrow> abs_dir (path_join [d, a, n])"
  using abs_dir_append [of "d @ ''/'' @ a" n] abs_dir_append [of d a] clean_abs_dir abs_dir_nonempty
  by (simp add: path_join_def)

lemma install_both_exec:
  assumes "names_ok h" "abs_dir d"
    and "install_both h c cfg pk (cached_binaries d) w = (Inr u, w')"
  shows "exec_at w' (d @ ''/'' @ binaryPD) \<and> exec_at w' (d @ ''/'' @ binaryTiKV)"
proof -
  have comp: "component binaryPD" "component binaryTiKV" by code_simp+
  let ?pd = "d @ ''/'' @ binaryPD" and ?tikv = "d @ ''/'' @ binaryTiKV"
  have paths: "bin_pd (cached_binaries d) = ?pd" "bin_tikv (cached_binaries d) = ?tikv"
    using path_join_abs [OF assms(2)] comp by (simp_all add: cached_binaries_def)
  obtain r1 m w1 where 1: "install h c cfg pk componentPD ?pd (newMirror (cfg_mirrorURL cfg)) w = ((r1, m), w1)"
    by (metis prod.exhaust)
  obtain r2 m' w2 where 2: "install h c cfg pk componentTiKV ?tikv m w1 = ((r2, m'), w2)"
    by (metis prod.exhaust)
  have "install_both h c cfg pk (cached_binaries d) w = (case r1 of Inl e \<Rightarrow> (Inl e, w1) | Inr _ \<Rightarrow> (r2, w2))"
    unfolding install_both_def paths 1 prod.case by (cases r1) (simp_all only: sum.case prod.case 2)
  with assms(3) have ok: "r1 = Inr ()" "r2 = Inr ()" "w2 = w'" by (simp_all split: sum.splits)
  note 1 = 1 [unfolded ok] and 2 = 2 [unfolded ok]
  have "same_files (\<lambda>p. p = ?pd) w1 (snd (install h c cfg pk componentTiKV ?tikv m w1))"
    by (rule same_files_install [OF assms(1) refl assms(2) comp(2)]) (simp_all add: binaryPD_def binaryTiKV_def)
  then have "exec_at w' ?pd = exec_at w1 ?pd" unfolding 2 snd_conv same_files_def by (intro exec_at_lookup) blast
  then show ?thesis using install_exec [OF refl assms(2) comp(1) 1] install_exec [OF refl assms(2) comp(2) 2]
    by simp
qed

text \<open>
  C34: what \<open>resolveBinaries\<close> hands to \<open>start\<close> can be run. When it succeeds, both files are executable
  in the world it leaves, whether they came from the caller's directory, from the cache, from
  another process that filled the cache while this one waited for the lock, or from the mirror.
\<close>

theorem resolveBinaries_executable:
  assumes "names_ok h" "abs_dir (cacheDirectory h cfg)" "component (cfg_version cfg)"
    and "resolveBinaries h c cfg w = (Inr b, w')"
  shows "exec_at w' (bin_pd b) \<and> exec_at w' (bin_tikv b)"
proof (cases "suppliedBinariesDir h cfg = []")
  case False
  with assms(4) have "suppliedBinaries h (suppliedBinariesDir h cfg) w' = Inr b"
    unfolding resolveBinaries_def Let_def by auto
  then show ?thesis
    by (auto simp: suppliedBinaries_def Let_def split: if_splits dest: isExecutable_exec_at)
next
  case True
  with assms(4) obtain key slug where plat: "platformFor (goos h) (goarch h) = Inr (key, slug)"
    by (cases "platformFor (goos h) (goarch h)") (auto simp: resolveBinaries_def)
  define d where "d = path_join [cacheDirectory h cfg, ''bin'', cfg_version cfg @ ''-'' @ slug]"
  let ?found = "cached_binaries d"
  show ?thesis
  proof (cases "isExecutable h (bin_pd ?found) w \<and> isExecutable h (bin_tikv ?found) w")
    case ex: True
    with assms(4) True plat have "b = ?found" "w' = w" by (auto simp: resolveBinaries_def Let_def d_def)
    with ex show ?thesis using isExecutable_exec_at by blast
  next
    case False
    with assms(4) True plat obtain w1 where b: "b = ?found"
      and lock: "withFileLock h (d @ ''.lock'') (install_both h c cfg key ?found) w1 = (Inr (), w')"
      by (auto simp: resolveBinaries_def Let_def d_def seqE_def returnE_def split: prod.splits sum.splits)
    then obtain l w2 w3 where 2: "install_both h c cfg key ?found w2 = (Inr (), w3)" "w' = snd (release l w3)"
      by (auto simp: withFileLock_def seqE_def split: prod.splits sum.splits)
    have "component (cfg_version cfg @ ''-'' @ slug)"
      using plat assms(3) by (auto simp: platformFor_def component_def split: if_splits)
    with abs_dir_join [OF assms(2)] have abs: "abs_dir d" by (simp add: d_def component_def)
    have "bin_pd b = d @ ''/'' @ binaryPD" "bin_tikv b = d @ ''/'' @ binaryTiKV"
      using path_join_abs [OF abs] by (simp_all add: b cached_binaries_def component_def binaryPD_def binaryTiKV_def)
    with install_both_exec [OF assms(1) abs 2(1)] show ?thesis by (simp add: 2(2) exec_at_def)
  qed
qed

definition supplied_world :: world where
  "supplied_world = example_world\<lparr>files := files example_world @
    [(''/opt'', Directory 0), (''/opt/pd-server'', Regular 1 ''ELF'' True),
     (''/opt/tikv-server'', Regular 2 ''ELF'' True)]\<rparr>"

theorem resolveBinaries_executable_witness:
  "(let b = \<lparr>bin_pd = ''/opt/pd-server'', bin_tikv = ''/opt/tikv-server''\<rparr>
    in resolveBinaries example_host example_codecs (DefaultConfig\<lparr>cfg_binariesPath := ''/opt''\<rparr>) supplied_world =
        (Inr b, supplied_world) \<and> exec_at supplied_world (bin_pd b) \<and> exec_at supplied_world (bin_tikv b))"
proof -
  let ?cfg = "DefaultConfig\<lparr>cfg_binariesPath := ''/opt''\<rparr>"
  let ?b = "\<lparr>bin_pd = ''/opt/pd-server'', bin_tikv = ''/opt/tikv-server''\<rparr> :: binaries"
  have supplied: "suppliedBinariesDir example_host ?cfg \<noteq> []"
    "suppliedBinaries example_host (suppliedBinariesDir example_host ?cfg) supplied_world = Inr ?b"
    by code_simp+
  have r: "resolveBinaries example_host example_codecs ?cfg supplied_world = (Inr ?b, supplied_world)"
    unfolding resolveBinaries_def Let_def by (simp only: supplied not_False_eq_True if_True)
  have "abs_dir (cacheDirectory example_host ?cfg)" "component (cfg_version ?cfg)" by code_simp+
  from resolveBinaries_executable [OF names_example this r] r show ?thesis
    by (simp only: Let_def simp_thms)
qed

end
