(* ===== verification/Watchdog.thy ===== *)
theory Watchdog
  imports Proc_Info
begin

text \<open>
  \<^verbatim>\<open>watchdog.go\<close>: the shell that supervises one server against the death of this process. The
  Go side chooses between the shell and a direct start, and makes the pipe; the script itself
  is a state machine that reads the pipe once and then either stands down or cleans up. Its
  steps are \<open>watchdog_step\<close>, one per command of the script, so that what another process sees
  between two commands is a state of the model.
\<close>

subsection \<open>Is there a shell\<close>

definition shellPath :: string where "shellPath = ''/bin/sh''"

definition haveShell :: "host \<Rightarrow> world \<Rightarrow> bool \<times> world" where
  "haveShell h w =
    (case shellAvailable w of
      Some b \<Rightarrow> (b, w)
    | None \<Rightarrow> (let b = executable_file h shellPath w in (b, w\<lparr>shellAvailable := Some b\<rparr>)))"

definition missing_watchdog :: string where
  "missing_watchdog = ''embedded-tikv: no /bin/sh, so a killed run leaks servers until the next Start or CleanOrphans''"

text \<open>A logger is the number of an \<open>io.Writer\<close>; what it was given is \<open>written\<close>.\<close>

definition tell :: "nat \<Rightarrow> string \<Rightarrow> world \<Rightarrow> world" where
  "tell k s w = w\<lparr>written := (written w)(k := written w k @ s)\<rparr>"

definition warnMissingWatchdog :: "host \<Rightarrow> nat option \<Rightarrow> world \<Rightarrow> world" where
  "warnMissingWatchdog h logger w =
    (case haveShell h w of (have_sh, w1) \<Rightarrow>
      if have_sh \<or> warned w1 then w1
      else (let w2 = w1\<lparr>warned := True\<rparr>
            in case logger of
                 Some k \<Rightarrow> tell k (missing_watchdog @ [CHR 0x0A]) w2
               | None \<Rightarrow> w2\<lparr>std_log := std_log w2 @ [missing_watchdog]\<rparr>))"

subsection \<open>The command\<close>

record watchdogCleanup =
  wc_dataPath :: string
  wc_recordPath :: string
  wc_lockPath :: string

record command =
  cmd_argv :: "string list"
  cmd_extra :: "nat option"

text \<open>The text of the script; what it does is \<open>watchdog_step\<close> below.\<close>

definition watchdogScript :: string where
  "watchdogScript = ''d=$1; r=$2; l=$3; shift 3'' @ [CHR 0x0A] @
    ''{ if read _ <&3; then exit 0; fi'' @ [CHR 0x0A] @
    ''  kill -9 '' @ [CHR 0x22] @ ''$$'' @ [CHR 0x22] @ '' 2>/dev/null'' @ [CHR 0x0A] @
    ''  [ -n '' @ [CHR 0x22] @ ''$d'' @ [CHR 0x22] @ '' ] && rm -rf -- '' @ [CHR 0x22] @ ''$d'' @ [CHR 0x22, CHR 0x0A] @
    ''  [ -n '' @ [CHR 0x22] @ ''$r'' @ [CHR 0x22] @ '' ] && rm -f -- '' @ [CHR 0x22] @ ''$r'' @
      [CHR 0x22] @ '' '' @ [CHR 0x22] @ ''$l'' @ [CHR 0x22, CHR 0x0A] @
    ''  kill -9 0 2>/dev/null'' @ [CHR 0x0A] @ ''} &'' @ [CHR 0x0A] @
    ''exec '' @ [CHR 0x22] @ ''$@'' @ [CHR 0x22]"

definition supervisedCommand ::
  "host \<Rightarrow> string \<Rightarrow> string list \<Rightarrow> watchdogCleanup \<Rightarrow> (command \<times> nat option) io" where
  "supervisedCommand h binary args cleanup w =
    (case haveShell h w of (have_sh, w1) \<Rightarrow>
      if \<not> have_sh then (Inr (\<lparr>cmd_argv = binary # args, cmd_extra = None\<rparr>, None), w1)
      else (case io_fault h OpPipe [] of
        Some e \<Rightarrow> (Inl (''embedded-tikv: unable to create watchdog pipe: '' @ errno_text e), w1)
      | None \<Rightarrow>
          (let k = next_pipe w1;
               argv = [shellPath, ''-c'', watchdogScript, ''embedded-tikv-watchdog'',
                       wc_dataPath cleanup, wc_recordPath cleanup, wc_lockPath cleanup, binary] @ args
           in (Inr (\<lparr>cmd_argv = argv, cmd_extra = Some k\<rparr>, Some k),
               w1\<lparr>pipes := (pipes w1)(k := \<lparr>pipe_data = [], pipe_open = True\<rparr>), next_pipe := Suc k\<rparr>))))"

text \<open>
  \<open>cmd.Start\<close>. The shell forks the watchdog, which keeps the arguments of the shell and is in
  its process group, and then becomes the server by \<open>exec\<close>: the server has the process id that
  was started, and the arguments that follow the first seven.
\<close>

definition startCommand :: "host \<Rightarrow> command \<Rightarrow> int io" where
  "startCommand h c w =
    (case io_fault h OpStart (hd (cmd_argv c)) of
      Some e \<Rightarrow> (Inl (path_error ''fork/exec'' (hd (cmd_argv c)) e), w)
    | None \<Rightarrow>
      (case cmd_extra c of
        None \<Rightarrow> (case spawn h (cmd_argv c) sysProcAttr w of (p, w1) \<Rightarrow> (Inr p, w1))
      | Some _ \<Rightarrow>
          (case spawn h (drop 7 (cmd_argv c)) sysProcAttr w of (p, w1) \<Rightarrow>
            (case spawn h (cmd_argv c) p w1 of (_, w2) \<Rightarrow> (Inr p, w2)))))"

definition closePipe :: "nat option \<Rightarrow> world \<Rightarrow> world" where
  "closePipe k w =
    (case k of None \<Rightarrow> w
     | Some i \<Rightarrow> w\<lparr>pipes := (pipes w)(i := (pipes w i)\<lparr>pipe_open := False\<rparr>)\<rparr>)"

subsection \<open>The script\<close>

datatype wd_pc = Reading | Killing | RemovingData | RemovingRecord | KillingGroup | Finished

text \<open>\<open>[ -n "$d" ] && rm -rf -- "$d"\<close> and \<open>[ -n "$r" ] && rm -f -- "$r" "$l"\<close>.\<close>

definition clear_data :: "host \<Rightarrow> watchdogCleanup \<Rightarrow> world \<Rightarrow> world" where
  "clear_data h c w = (if wc_dataPath c \<noteq> [] then snd (removeAll h (wc_dataPath c) w) else w)"

definition clear_record :: "host \<Rightarrow> watchdogCleanup \<Rightarrow> world \<Rightarrow> world" where
  "clear_record h c w =
    (if wc_recordPath c \<noteq> [] then snd (remove h (wc_lockPath c) (snd (remove h (wc_recordPath c) w))) else w)"

text \<open>
  One command of the script: \<open>srv\<close> is \<open>$$\<close>, the process id of the server and of the group;
  \<open>k\<close> is the pipe on descriptor 3. The result is \<open>None\<close> while the read blocks, and after the end.
\<close>

fun watchdog_step :: "host \<Rightarrow> watchdogCleanup \<Rightarrow> int \<Rightarrow> nat \<Rightarrow> wd_pc \<Rightarrow> world \<Rightarrow> (wd_pc \<times> world) option" where
  "watchdog_step h c srv k Reading w =
    (if CHR 0x0A \<in> set (pipe_data (pipes w k)) then Some (Finished, w)
     else if pipe_open (pipes w k) then None
     else Some (Killing, w))"
| "watchdog_step h c srv k Killing w = Some (RemovingData, snd (kill h srv SIGKILL w))"
| "watchdog_step h c srv k RemovingData w =
    Some (RemovingRecord, clear_data h c w)"
| "watchdog_step h c srv k RemovingRecord w =
    Some (KillingGroup, clear_record h c w)"
| "watchdog_step h c srv k KillingGroup w = Some (Finished, snd (kill h (- srv) SIGKILL w))"
| "watchdog_step h c srv k Finished w = None"

text \<open>The states the script passes through.\<close>

inductive watchdog_runs ::
  "host \<Rightarrow> watchdogCleanup \<Rightarrow> int \<Rightarrow> nat \<Rightarrow> wd_pc \<times> world \<Rightarrow> wd_pc \<times> world \<Rightarrow> bool"
  for h c srv k s where
  runs_refl: "watchdog_runs h c srv k s s"
| runs_step: "watchdog_runs h c srv k s (pc, w) \<Longrightarrow> watchdog_step h c srv k pc w = Some t \<Longrightarrow>
    watchdog_runs h c srv k s t"

subsection \<open>What the script does\<close>

lemma kill_files: "files (snd (kill h target sig w)) = files w"
  by (simp add: kill_def)

lemma kill_dead:
  assumes "0 < p" "may_signal h p" "\<not> unkillable (server h p)"
  shows "\<not> is_alive (snd (kill h p SIGKILL w)) p"
  using assms
  by (auto simp: kill_def is_alive_def list_ex_iff addressed_def deliver_def split: if_splits)

lemma is_alive_files: "procs w' = procs w \<Longrightarrow> is_alive w' p = is_alive w p"
  by (simp add: is_alive_def)

lemma lookup_files: "files w' = files w \<Longrightarrow> lookup w' = lookup w"
  by (rule ext) (simp add: lookup_def)

text \<open>The world the script leaves after each command, from the world in which the read failed.\<close>

fun after_command :: "host \<Rightarrow> watchdogCleanup \<Rightarrow> int \<Rightarrow> world \<Rightarrow> wd_pc \<Rightarrow> world" where
  "after_command h c srv w Reading = w"
| "after_command h c srv w Killing = w"
| "after_command h c srv w RemovingData = snd (kill h srv SIGKILL w)"
| "after_command h c srv w RemovingRecord = clear_data h c (snd (kill h srv SIGKILL w))"
| "after_command h c srv w KillingGroup = clear_record h c (clear_data h c (snd (kill h srv SIGKILL w)))"
| "after_command h c srv w Finished =
    snd (kill h (- srv) SIGKILL (clear_record h c (clear_data h c (snd (kill h srv SIGKILL w)))))"

lemma watchdog_runs_after:
  assumes "watchdog_runs h c srv k (Reading, w) (pc, w')"
  shows "(if CHR 0x0A \<in> set (pipe_data (pipes w k)) then w' = w \<and> (pc = Reading \<or> pc = Finished)
      else if pipe_open (pipes w k) then w' = w \<and> pc = Reading
      else w' = after_command h c srv w pc)"
  using assms
proof (induction "(pc, w')" arbitrary: pc w' rule: watchdog_runs.induct)
  case runs_refl
  then show ?case by simp
next
  case (runs_step pc1 w1)
  then show ?case by (cases pc1) (auto split: if_splits)
qed

text \<open>Once the read has failed, every command is reached.\<close>

lemma watchdog_reaches:
  assumes "CHR 0x0A \<notin> set (pipe_data (pipes w k))" "\<not> pipe_open (pipes w k)"
  shows "watchdog_runs h c srv k (Reading, w) (pc, after_command h c srv w pc)"
proof -
  let ?at = "\<lambda>pc. watchdog_runs h c srv k (Reading, w) (pc, after_command h c srv w pc)"
  have 1: "?at Reading" by (simp add: runs_refl)
  then have 2: "?at Killing" by (rule runs_step) (simp add: assms)
  then have 3: "?at RemovingData" by (rule runs_step) simp
  then have 4: "?at RemovingRecord" by (rule runs_step) simp
  then have 5: "?at KillingGroup" by (rule runs_step) simp
  then have 6: "?at Finished" by (rule runs_step) simp
  from 1 2 3 4 5 6 show ?thesis by (cases pc) simp_all
qed

text \<open>
  C24: a deliberate shutdown is safe. Once the parent has written a line into the pipe, the script
  changes nothing, however far it runs and whether or not the pipe has been closed since; and
  while the parent lives and has written nothing, it does not run at all.
\<close>

theorem watchdog_stands_down:
  assumes "watchdog_runs h c srv k (Reading, w) (pc, w')"
    and "CHR 0x0A \<in> set (pipe_data (pipes w k)) \<or> pipe_open (pipes w k)"
  shows "w' = w \<and> (pc = Reading \<or> pc = Finished)"
  using watchdog_runs_after [OF assms(1)] assms(2) by (simp split: if_splits)

theorem watchdog_stands_down_witness:
  "watchdog_runs example_host \<lparr>wc_dataPath = ''/tmp/d'', wc_recordPath = [], wc_lockPath = []\<rparr> 101 0
      (Reading, example_world\<lparr>pipes := \<lambda>_. \<lparr>pipe_data = [CHR 0x0A], pipe_open = False\<rparr>\<rparr>)
      (Finished, example_world\<lparr>pipes := \<lambda>_. \<lparr>pipe_data = [CHR 0x0A], pipe_open = False\<rparr>\<rparr>) \<and>
    (Finished = Reading \<or> Finished = Finished)"
proof -
  let ?w = "example_world\<lparr>pipes := \<lambda>_. \<lparr>pipe_data = [CHR 0x0A], pipe_open = False\<rparr>\<rparr>"
  let ?c = "\<lparr>wc_dataPath = ''/tmp/d'', wc_recordPath = [], wc_lockPath = []\<rparr>"
  have run: "watchdog_runs example_host ?c 101 0 (Reading, ?w) (Finished, ?w)"
    by (rule runs_step [OF runs_refl]) simp
  with watchdog_stands_down [OF run] show ?thesis by simp
qed

text \<open>
  What is still there after each command when the parent died: the server is killed before the
  data directory goes, and the record is untouched until the data directory is gone.
\<close>

lemma removeAll_gone:
  "d \<noteq> [] \<Longrightarrow> leaf d \<noteq> ''.'' \<Longrightarrow> io_fault h OpRemoveAll d = None \<Longrightarrow> \<not> exists_at (snd (removeAll h d w)) d"
  by (simp add: removeAll_def)

lemma exists_removeAll: "\<not> under d p \<Longrightarrow> exists_at (snd (removeAll h d w)) p = exists_at w p"
  by (simp add: removeAll_def split: option.split)

lemma exists_remove: "exists_at (snd (remove h p w)) q \<Longrightarrow> exists_at w q"
  by (auto simp: remove_def split: option.splits node.splits if_splits)

lemma exists_clear_record: "exists_at (clear_record h c w) q \<Longrightarrow> exists_at w q"
  by (auto simp: clear_record_def split: if_splits dest!: exists_remove)

lemma clear_data_procs: "procs (clear_data h c w) = procs w"
  using same_restD(1) [OF staysD [OF same_rest_ops(8)]] by (simp add: clear_data_def)

lemma clear_record_procs: "procs (clear_record h c w) = procs w"
  using same_restD(1) [OF staysD [OF same_rest_ops(7)]] by (simp add: clear_record_def)

definition killable :: "host \<Rightarrow> int \<Rightarrow> bool" where
  "killable h p \<longleftrightarrow> 0 < p \<and> may_signal h p \<and> \<not> unkillable (server h p)"

lemma exists_kill: "exists_at (snd (kill h target sig w)) = exists_at w"
  using lookup_files [OF kill_files] by (simp add: exists_at_def fun_eq_iff)

lemma is_alive_kill: "is_alive (snd (kill h target SIGKILL w)) p \<Longrightarrow> is_alive w p"
  by (auto simp: kill_def is_alive_def list_ex_iff deliver_def split: if_splits)

text \<open>\<open>rm -rf\<close> does not remove a directory when a call of it fails, and never one that is written \<open>.\<close>.\<close>

definition rm_refused :: "host \<Rightarrow> string \<Rightarrow> bool" where
  "rm_refused h d \<longleftrightarrow> io_fault h OpRemoveAll d \<noteq> None \<or> leaf d = ''.''"

lemma removeAll_refused: "rm_refused h d \<Longrightarrow> snd (removeAll h d w) = w"
  by (auto simp: rm_refused_def removeAll_def split: option.split)

definition no_dir :: "world \<Rightarrow> string \<Rightarrow> bool" where
  "no_dir w p \<longleftrightarrow> (\<forall>t. lookup w p \<noteq> Some (Directory t))"

lemma no_dir_touch: "no_dir (touch d w) p \<longleftrightarrow> no_dir w p"
  by (auto simp: no_dir_def touch_def lookup_def update_conv' split: option.split node.split)

lemma no_dir_drop: "no_dir w p \<Longrightarrow> no_dir (drop_entries P w) p"
  by (auto simp: no_dir_def lookup_drop_entries)

lemma no_dir_removals:
  assumes "no_dir w p"
  shows "no_dir (snd (remove h q w)) p" "no_dir (snd (removeAll h q w)) p" "no_dir (snd (kill h t sig w)) p"
proof -
  show "no_dir (snd (remove h q w)) p" "no_dir (snd (removeAll h q w)) p"
    using assms by (auto simp: remove_def removeAll_def no_dir_touch no_dir_drop split: option.split node.split)
  show "no_dir (snd (kill h t sig w)) p"
    using assms lookup_files [OF kill_files, of h t sig w] by (simp add: no_dir_def)
qed

lemma exists_touch: "exists_at (touch d w) p = exists_at w p"
  by (auto simp: exists_at_def touch_def lookup_def update_conv' split: option.split node.split)

lemma remove_regular_gone:
  assumes "no_dir w p" "io_fault h OpRemove p = None"
  shows "\<not> exists_at (snd (remove h p w)) p"
proof (cases "lookup w p")
  case None
  then show ?thesis using assms(2) by (simp add: remove_def exists_at_def)
next
  case (Some n)
  then obtain i s x where "n = Regular i s x" using assms(1) by (cases n) (auto simp: no_dir_def)
  with Some assms(2) show ?thesis
    by (simp add: remove_def exists_touch exists_at_def lookup_drop_entries)
qed

lemma clear_record_gone:
  assumes "no_dir w p" "io_fault h OpRemove p = None" "wc_recordPath c \<noteq> []"
    and "p = wc_recordPath c \<or> p = wc_lockPath c"
  shows "\<not> exists_at (clear_record h c w) p"
  using assms no_dir_removals(1) [OF assms(1)] remove_regular_gone [OF _ assms(2)]
  by (auto simp: clear_record_def dest: exists_remove)

lemma after_command_data_gone:
  assumes "pc \<in> {RemovingRecord, KillingGroup, Finished}" "wc_dataPath c \<noteq> []" "\<not> rm_refused h (wc_dataPath c)"
  shows "\<not> exists_at (after_command h c srv w pc) (wc_dataPath c)"
proof -
  have "\<not> exists_at (clear_data h c v) (wc_dataPath c)" for v
    using assms(2,3) removeAll_gone by (simp add: clear_data_def rm_refused_def)
  then have "\<not> exists_at (clear_record h c (clear_data h c v)) (wc_dataPath c)" for v
    using exists_clear_record by blast
  with assms(1) \<open>\<And>v. \<not> exists_at (clear_data h c v) (wc_dataPath c)\<close> show ?thesis by (auto simp: exists_kill)
qed

lemma after_command_dead:
  assumes "killable h srv" "pc \<in> {RemovingData, RemovingRecord, KillingGroup, Finished}"
  shows "\<not> is_alive (after_command h c srv w pc) srv"
proof -
  have "\<not> is_alive (snd (kill h srv SIGKILL w)) srv" using kill_dead assms(1) by (simp add: killable_def)
  then have "\<not> is_alive (clear_data h c (snd (kill h srv SIGKILL w))) srv"
    "\<not> is_alive (clear_record h c (clear_data h c (snd (kill h srv SIGKILL w)))) srv"
    by (simp_all add: is_alive_def clear_data_procs clear_record_procs)
  with assms show ?thesis using kill_dead is_alive_kill by (auto simp: killable_def)
qed

lemma after_command_files:
  "pc \<in> {Reading, Killing, RemovingData} \<Longrightarrow> exists_at (after_command h c srv w pc) = exists_at w"
  "pc = RemovingRecord \<Longrightarrow> \<not> under (wc_dataPath c) p \<Longrightarrow>
    exists_at (after_command h c srv w pc) p = exists_at w p"
  by (auto simp: exists_kill clear_data_def exists_removeAll)

text \<open>
  A cluster whose owner has died: PD runs as process 101, the record and the lock are there, and the data
  directory is not empty. On the second machine \<^verbatim>\<open>rm -rf\<close> fails.
\<close>

definition left_behind :: watchdogCleanup where
  "left_behind = \<lparr>wc_dataPath = ''/tmp/d'', wc_recordPath = ''/home/u/r.json'', wc_lockPath = ''/home/u/r.lock''\<rparr>"

definition parent_died :: world where
  "parent_died = example_world\<lparr>
     files := files example_world @ [(''/tmp/d'', Directory 0), (''/tmp/d/pd'', Regular 1 [] False),
       (''/home/u/r.json'', Regular 2 [] False), (''/home/u/r.lock'', Regular 3 [] False)],
     procs := procs example_world @ [\<lparr>proc_pid = 101, proc_group = 101, argv = [''/b/pd-server''], alive = True, exit_at = None\<rparr>],
     next_ino := 4, next_pid := 102\<rparr>"

definition stubborn_host :: host where
  "stubborn_host = example_host\<lparr>io_fault := (\<lambda>f p. if f = OpRemoveAll then Some EACCES else None)\<rparr>"

lemma parent_died_pipe: "CHR 0x0A \<notin> set (pipe_data (pipes parent_died 0))" "\<not> pipe_open (pipes parent_died 0)"
  by (simp_all add: parent_died_def example_world_def)

lemma killable_example: "killable example_host 101" "killable stubborn_host 101"
  by (simp_all add: killable_def example_host_def stubborn_host_def example_behaviour_def)

text \<open>
  C25: the order of the clean-up. At every point of a run that follows the death of the parent,
  a path that has disappeared means that the server is dead; and one outside the data directory that has (the record,
  or the lock) means that the data directory is gone, that it is the caller's and stays, or that \<^verbatim>\<open>rm -rf\<close> could not
  remove it (\<open>rm_refused\<close>): the script goes on after a failed command. The server is one that \<open>SIGKILL\<close> ends.
\<close>

theorem watchdog_order:
  assumes "watchdog_runs h c srv k (Reading, w) (pc, w')" "killable h srv"
  shows "(\<forall>p. exists_at w p \<and> \<not> exists_at w' p \<longrightarrow> \<not> is_alive w' srv) \<and>
    (\<forall>p. exists_at w p \<and> \<not> under (wc_dataPath c) p \<and> \<not> exists_at w' p \<longrightarrow>
      wc_dataPath c = [] \<or> \<not> exists_at w' (wc_dataPath c) \<or> rm_refused h (wc_dataPath c))"
proof (cases "w' = w")
  case False
  with watchdog_runs_after [OF assms(1)] have w': "w' = after_command h c srv w pc" by (auto split: if_splits)
  show ?thesis
    unfolding w'
    using after_command_dead [OF assms(2), of pc c w] after_command_files [where pc = pc and h = h and c = c and srv = srv and w = w]
      after_command_data_gone [of pc c h srv w]
    by (cases pc) (auto simp: fun_eq_iff)
qed auto

theorem watchdog_order_witness:
  "\<exists>w'. watchdog_runs example_host left_behind 101 0 (Reading, parent_died) (KillingGroup, w') \<and>
      is_alive parent_died 101 \<and> exists_at parent_died ''/tmp/d'' \<and> exists_at parent_died ''/home/u/r.json'' \<and>
      \<not> exists_at w' ''/home/u/r.json'' \<and> \<not> exists_at w' ''/tmp/d'' \<and> \<not> is_alive w' 101"
proof (intro exI conjI)
  let ?w' = "after_command example_host left_behind 101 parent_died KillingGroup"
  show run: "watchdog_runs example_host left_behind 101 0 (Reading, parent_died) (KillingGroup, ?w')"
    by (rule watchdog_reaches [OF parent_died_pipe])
  show "is_alive parent_died 101" "exists_at parent_died ''/tmp/d''" and r: "exists_at parent_died ''/home/u/r.json''"
    by code_simp+
  show gone: "\<not> exists_at ?w' ''/home/u/r.json''" by code_simp
  note order = watchdog_order [OF run killable_example(1)]
  from order r gone show "\<not> is_alive ?w' 101" by blast
  have "\<not> under (wc_dataPath left_behind) ''/home/u/r.json''" "\<not> rm_refused example_host (wc_dataPath left_behind)"
    "wc_dataPath left_behind = ''/tmp/d''"
    by (code_simp, simp_all add: rm_refused_def left_behind_def example_host_def leaf_def)
  with order r gone show "\<not> exists_at ?w' ''/tmp/d''" by auto
qed

text \<open>
  C26: when the parent dies the script runs to its end, whatever fails on the way. Afterwards a server that
  \<open>SIGKILL\<close> ends is dead; the data directory is gone unless \<^verbatim>\<open>rm -rf\<close> could not remove it; and the record and the lock
  are gone, each if its own removal does not fail and it is no directory, whether or not the data directory is.
  Where no data directory is given (it is the caller's), or it could not be removed, nothing else
  disappears: the directory then stays behind without the record by which a sweep would have found it.
\<close>

theorem watchdog_cleans:
  assumes "CHR 0x0A \<notin> set (pipe_data (pipes w k))" "\<not> pipe_open (pipes w k)"
  shows "\<exists>w'. watchdog_runs h c srv k (Reading, w) (Finished, w') \<and>
    (killable h srv \<longrightarrow> \<not> is_alive w' srv) \<and>
    (wc_dataPath c \<noteq> [] \<and> \<not> rm_refused h (wc_dataPath c) \<longrightarrow> \<not> exists_at w' (wc_dataPath c)) \<and>
    (\<forall>p \<in> {wc_recordPath c, wc_lockPath c}. wc_recordPath c \<noteq> [] \<and> no_dir w p \<and> io_fault h OpRemove p = None \<longrightarrow>
      \<not> exists_at w' p) \<and>
    (wc_dataPath c = [] \<or> rm_refused h (wc_dataPath c) \<longrightarrow>
      (\<forall>p. exists_at w p \<longrightarrow> exists_at w' p \<or> p = wc_recordPath c \<or> p = wc_lockPath c))"
proof (intro exI conjI)
  let ?w' = "after_command h c srv w Finished" and ?w1 = "snd (kill h srv SIGKILL w)"
  show "watchdog_runs h c srv k (Reading, w) (Finished, ?w')" by (rule watchdog_reaches [OF assms])
  show "killable h srv \<longrightarrow> \<not> is_alive ?w' srv" using after_command_dead [of h srv Finished c w] by simp
  show "wc_dataPath c \<noteq> [] \<and> \<not> rm_refused h (wc_dataPath c) \<longrightarrow> \<not> exists_at ?w' (wc_dataPath c)"
    using after_command_data_gone [of Finished c h srv w] by simp
  have "no_dir w p \<Longrightarrow> no_dir (clear_data h c ?w1) p" for p
    using no_dir_removals by (simp add: clear_data_def)
  then show "\<forall>p \<in> {wc_recordPath c, wc_lockPath c}. wc_recordPath c \<noteq> [] \<and> no_dir w p \<and> io_fault h OpRemove p = None \<longrightarrow>
      \<not> exists_at ?w' p"
    using clear_record_gone by (auto simp: exists_kill)
  have keep: "exists_at (snd (remove h q v)) p" if "exists_at v p" "p \<noteq> q" for v p q
    using that by (auto simp: remove_def split: option.split node.split)
  show "wc_dataPath c = [] \<or> rm_refused h (wc_dataPath c) \<longrightarrow>
      (\<forall>p. exists_at w p \<longrightarrow> exists_at ?w' p \<or> p = wc_recordPath c \<or> p = wc_lockPath c)"
  proof (intro impI allI)
    fix p
    assume "wc_dataPath c = [] \<or> rm_refused h (wc_dataPath c)" and p: "exists_at w p"
    then have "clear_data h c ?w1 = ?w1" by (auto simp: clear_data_def removeAll_refused)
    moreover have "exists_at (clear_record h c v) p" if "exists_at v p" "p \<noteq> wc_recordPath c" "p \<noteq> wc_lockPath c" for v
      using that keep by (simp add: clear_record_def)
    ultimately show "exists_at ?w' p \<or> p = wc_recordPath c \<or> p = wc_lockPath c"
      using p by (cases "p = wc_recordPath c \<or> p = wc_lockPath c") (simp_all add: exists_kill)
  qed
qed

theorem watchdog_cleans_witness:
  "is_alive parent_died 101 \<and> exists_at parent_died ''/tmp/d'' \<and> exists_at parent_died ''/home/u/r.json'' \<and>
    exists_at parent_died ''/home/u/r.lock'' \<and>
    (\<exists>w'. watchdog_runs example_host left_behind 101 0 (Reading, parent_died) (Finished, w') \<and>
      \<not> is_alive w' 101 \<and> \<not> exists_at w' ''/tmp/d'' \<and> \<not> exists_at w' ''/home/u/r.json'' \<and>
      \<not> exists_at w' ''/home/u/r.lock'') \<and>
    (\<exists>w'. watchdog_runs stubborn_host left_behind 101 0 (Reading, parent_died) (Finished, w') \<and>
      \<not> is_alive w' 101 \<and> exists_at w' ''/tmp/d'' \<and> \<not> exists_at w' ''/home/u/r.json'')"
proof (intro conjI)
  show "is_alive parent_died 101" and d: "exists_at parent_died ''/tmp/d''"
    and "exists_at parent_died ''/home/u/r.json''" "exists_at parent_died ''/home/u/r.lock''"
    by code_simp+
  have files: "wc_dataPath left_behind = ''/tmp/d''" "wc_recordPath left_behind = ''/home/u/r.json''"
    "wc_lockPath left_behind = ''/home/u/r.lock''" by (simp_all add: left_behind_def)
  have plain: "no_dir parent_died ''/home/u/r.json''" "no_dir parent_died ''/home/u/r.lock''"
    "io_fault example_host f p = None" "io_fault stubborn_host OpRemove p = None" for f p
    by (simp_all add: no_dir_def lookup_def parent_died_def example_world_def example_host_def stubborn_host_def)
  have rm: "\<not> rm_refused example_host ''/tmp/d''" "rm_refused stubborn_host ''/tmp/d''"
    by (simp_all add: rm_refused_def plain stubborn_host_def leaf_def)
  show "\<exists>w'. watchdog_runs example_host left_behind 101 0 (Reading, parent_died) (Finished, w') \<and>
      \<not> is_alive w' 101 \<and> \<not> exists_at w' ''/tmp/d'' \<and> \<not> exists_at w' ''/home/u/r.json'' \<and>
      \<not> exists_at w' ''/home/u/r.lock''"
    using watchdog_cleans [OF parent_died_pipe, of example_host left_behind 101] killable_example(1) plain rm
    unfolding files by auto
  show "\<exists>w'. watchdog_runs stubborn_host left_behind 101 0 (Reading, parent_died) (Finished, w') \<and>
      \<not> is_alive w' 101 \<and> exists_at w' ''/tmp/d'' \<and> \<not> exists_at w' ''/home/u/r.json''"
    using watchdog_cleans [OF parent_died_pipe, of stubborn_host left_behind 101] killable_example(2) plain rm d
    unfolding files by auto
qed

end
