(* ===== verification/Process.thy ===== *)
theory Process
  imports Watchdog
begin

text \<open>
  \<^verbatim>\<open>process.go\<close>: one supervised server. \<open>p_tee\<close> is the logger the output is copied to: with
  one, \<open>os/exec\<close> reads the output through a pipe of its own, and \<open>cmd.Wait\<close> returns only when
  nobody holds the other end any more, which includes the watchdog of the server's group.

  What a server writes is its \<open>output_text\<close>, taken to be in the log as soon as it has started.
  Closing a log file has no effect in the model.
\<close>

definition logTailBytes :: nat where "logTailBytes = 4096"

definition execFailureHint :: string where
  "execFailureHint = [CHR 0x0A, CHR 0x0A] @
     ''hint: the official builds are dynamically linked; set EMBEDDED_TIKV_BINARIES to supply your own''"

record process =
  p_name :: string
  p_pid :: int
  p_logPath :: string
  p_watchdog :: "nat option"
  p_tee :: "nat option"

definition log_file_error :: "string \<Rightarrow> go_error \<Rightarrow> go_error" where
  "log_file_error logPath e = ''embedded-tikv: unable to create log file '' @ logPath @ '': '' @ e"

definition start_error :: "string \<Rightarrow> go_error \<Rightarrow> go_error" where
  "start_error name e = ''embedded-tikv: unable to start '' @ name @ '': '' @ e @ execFailureHint"

definition write_output :: "string \<Rightarrow> nat option \<Rightarrow> string \<Rightarrow> world \<Rightarrow> world" where
  "write_output logPath logger s w =
    (let w1 = append_text logPath s w
     in case logger of None \<Rightarrow> w1 | Some k \<Rightarrow> tell k s w1)"

definition startProcess ::
  "host \<Rightarrow> string \<Rightarrow> string \<Rightarrow> string list \<Rightarrow> string \<Rightarrow> nat option \<Rightarrow> watchdogCleanup \<Rightarrow> process io" where
  "startProcess h name binary args logPath logger cleanup =
    seqE (wrapE (log_file_error logPath) (createFile h logPath))
      (\<lambda>_. seqE (supervisedCommand h binary args cleanup)
        (\<lambda>(c, watchdog) w.
          (case startCommand h c w of
            (Inl e, w1) \<Rightarrow> (Inl (start_error name e), closePipe watchdog w1)
          | (Inr pid, w1) \<Rightarrow>
              (Inr \<lparr>p_name = name, p_pid = pid, p_logPath = logPath, p_watchdog = watchdog, p_tee = logger\<rparr>,
               write_output logPath logger (output_text (server h pid)) w1))))"

text \<open>The processes \<open>cmd.Wait\<close> waits for: the server, and with a logger every holder of its output.\<close>

definition waited_for :: "process \<Rightarrow> os_process \<Rightarrow> bool" where
  "waited_for p q \<longleftrightarrow> alive q \<and> (proc_pid q = p_pid p \<or> p_tee p \<noteq> None \<and> proc_group q = p_pid p)"

definition exited :: "process \<Rightarrow> world \<Rightarrow> bool" where
  "exited p w \<longleftrightarrow> \<not> list_ex (waited_for p) (procs w)"

definition exitReason :: "host \<Rightarrow> process \<Rightarrow> string" where
  "exitReason h p = (case exit_error (server h (p_pid p)) of None \<Rightarrow> ''exit status 0'' | Some e \<Rightarrow> e)"

subsection \<open>Stopping\<close>

text \<open>The last time at which one of some processes exits, if all of them do.\<close>

fun last_exit :: "os_process list \<Rightarrow> int option" where
  "last_exit [] = None"
| "last_exit [q] = exit_at q"
| "last_exit (q # qs) =
    (case (exit_at q, last_exit qs) of (Some s, Some t) \<Rightarrow> Some (max s t) | _ \<Rightarrow> None)"

text \<open>\<open>select { case <-p.done: case <-time.After(timeout): }\<close>: was it the first, and the world then.\<close>

definition wait_done :: "process \<Rightarrow> int \<Rightarrow> world \<Rightarrow> bool \<times> world" where
  "wait_done p timeout w =
    (if exited p w then (True, w)
     else case last_exit (filter (waited_for p) (procs w)) of
       Some e \<Rightarrow> if e \<le> now w + timeout then (True, advance e w) else (False, advance (now w + timeout) w)
     | None \<Rightarrow> (False, advance (now w + timeout) w))"

definition standDown :: "process \<Rightarrow> world \<Rightarrow> world" where
  "standDown p w =
    (case p_watchdog p of
      None \<Rightarrow> w
    | Some k \<Rightarrow> w\<lparr>pipes := (pipes w)(k := \<lparr>pipe_data = pipe_data (pipes w k) @ [CHR 0x0A], pipe_open = False\<rparr>)\<rparr>)"

definition signal_error :: "string \<Rightarrow> errno \<Rightarrow> go_error" where
  "signal_error name e = ''embedded-tikv: unable to signal '' @ name @ '': '' @ errno_text e"

definition kill_error :: "string \<Rightarrow> errno \<Rightarrow> go_error" where
  "kill_error name e = ''embedded-tikv: unable to kill '' @ name @ '': '' @ errno_text e"

definition survived_error :: "string \<Rightarrow> go_error" where
  "survived_error name = ''embedded-tikv: '' @ name @ '' did not exit after SIGKILL''"

text \<open>The second half of \<open>stop\<close>, after the first timeout.\<close>

definition stop_hard :: "host \<Rightarrow> process \<Rightarrow> int \<Rightarrow> unit io" where
  "stop_hard h p timeout w =
    (case signalGroup h (p_pid p) SIGKILL w of (r, w1) \<Rightarrow>
      (case r of
        Inl e \<Rightarrow> if exited p w1 then (Inr (), w1) else (Inl (kill_error (p_name p) e), w1)
      | Inr _ \<Rightarrow>
          (case wait_done p timeout w1 of
            (True, w2) \<Rightarrow> (Inr (), w2) | (False, w2) \<Rightarrow> (Inl (survived_error (p_name p)), w2))))"

definition stop_body :: "host \<Rightarrow> process \<Rightarrow> int \<Rightarrow> unit io" where
  "stop_body h p timeout w =
    (if exited p w then (Inr (), w)
     else case signalGroup h (p_pid p) SIGTERM w of (r, w1) \<Rightarrow>
       (case r of
         Inl e \<Rightarrow> if exited p w1 then (Inr (), w1) else (Inl (signal_error (p_name p) e), w1)
       | Inr _ \<Rightarrow>
           (case wait_done p timeout w1 of
             (True, w2) \<Rightarrow> (Inr (), w2) | (False, w2) \<Rightarrow> stop_hard h p timeout w2)))"

text \<open>The deferred \<open>standDown\<close> runs when the body has returned, on every path.\<close>

definition stop :: "host \<Rightarrow> process option \<Rightarrow> int \<Rightarrow> unit io" where
  "stop h p timeout w =
    (case p of
      None \<Rightarrow> (Inr (), w)
    | Some pr \<Rightarrow> (case stop_body h pr timeout w of (r, w1) \<Rightarrow> (r, standDown pr w1)))"

subsection \<open>The end of a log\<close>

definition logTail :: "host \<Rightarrow> string \<Rightarrow> world \<Rightarrow> string" where
  "logTail h path w =
    (if io_fault h OpOpen path \<noteq> None then []
     else case lookup w path of
       Some (Regular _ s _) \<Rightarrow>
         if io_fault h OpRead path \<noteq> None then []
         else trimSpace (drop (length s - logTailBytes) s)
     | _ \<Rightarrow> [])"

definition process_logTail :: "host \<Rightarrow> process option \<Rightarrow> world \<Rightarrow> string" where
  "process_logTail h p w = (case p of None \<Rightarrow> [] | Some pr \<Rightarrow> logTail h (p_logPath pr) w)"


subsection \<open>Waiting\<close>

lemma last_exit_all: "last_exit qs = Some e \<Longrightarrow> q \<in> set qs \<Longrightarrow> \<exists>s. exit_at q = Some s \<and> s \<le> e"
proof (induction qs arbitrary: e rule: last_exit.induct)
  case (3 q1 q2 qs)
  then obtain s t where st: "exit_at q1 = Some s" "last_exit (q2 # qs) = Some t" "e = max s t"
    by (auto split: option.splits)
  show ?case
  proof (cases "q = q1")
    case True
    with st show ?thesis by simp
  next
    case False
    with "3.prems"(2) have "q \<in> set (q2 # qs)" by simp
    from "3.IH" [OF st(2) this] st(3) show ?thesis by auto
  qed
qed simp_all

lemma exited_iff: "exited p w \<longleftrightarrow> (\<forall>q \<in> set (procs w). \<not> waited_for p q)"
  by (simp add: exited_def list_ex_iff)

lemma waited_for_expire: "waited_for p (expire t q) \<Longrightarrow> waited_for p q"
  by (auto simp: waited_for_def expire_def split: option.splits if_splits)

lemma wait_done_True:
  assumes "wait_done p timeout w = (True, w')"
  shows "exited p w'"
proof (cases "exited p w")
  case True
  with assms show ?thesis by (simp add: wait_done_def)
next
  case False
  with assms obtain e where e: "last_exit (filter (waited_for p) (procs w)) = Some e" "w' = advance e w"
    by (auto simp: wait_done_def split: option.splits if_splits)
  have "\<not> waited_for p (expire (max (now w) e) q)" if "q \<in> set (procs w)" for q
  proof
    assume a: "waited_for p (expire (max (now w) e) q)"
    have q: "waited_for p q" "alive (expire (max (now w) e) q)"
      by (rule waited_for_expire [OF a]) (use a in \<open>simp add: waited_for_def\<close>)
    with that last_exit_all [OF e(1), of q] obtain s where "exit_at q = Some s" "s \<le> e" by auto
    with q(2) show False by (simp add: expire_def le_max_iff_disj)
  qed
  then show ?thesis by (auto simp: exited_iff e(2) advance_def)
qed

lemma now_advance [simp]: "now (advance t w) = max (now w) t"
  by (simp add: advance_def)

lemma wait_done_now:
  assumes "wait_done p timeout w = (b, w')"
  shows "now w \<le> now w' \<and> now w' \<le> now w + max 0 timeout"
proof (cases "exited p w")
  case True
  with assms show ?thesis by (simp add: wait_done_def)
next
  case False
  have late: "now w \<le> now (advance t w) \<and> now (advance t w) \<le> now w + max 0 timeout" if "t \<le> now w + timeout" for t
    using that by auto
  consider "w' = advance (now w + timeout) w" | e where "e \<le> now w + timeout" "w' = advance e w"
    using assms False
    by (cases "last_exit (filter (waited_for p) (procs w))") (simp_all add: wait_done_def split: if_splits)
  then show ?thesis using late by cases blast+
qed

lemma wait_done_exited: "exited p w \<Longrightarrow> wait_done p timeout w = (True, w)"
  by (simp add: wait_done_def)

lemma signalGroup_now: "now (snd (signalGroup h p sig w)) = now w"
  using signalGroup_world [of h p sig w] by auto

lemma exited_not_alive: "exited p w \<Longrightarrow> \<not> is_alive w (p_pid p)"
  by (auto simp: exited_iff is_alive_def list_ex_iff waited_for_def)

subsection \<open>What stop guarantees\<close>

lemma stop_hard_Inr: "stop_hard h p timeout w = (Inr u, w') \<Longrightarrow> exited p w'"
  by (auto simp: stop_hard_def split: prod.splits sum.splits if_splits bool.splits dest: wait_done_True)

lemma stop_hard_now:
  "stop_hard h p timeout w = (r, w') \<Longrightarrow> now w \<le> now w' \<and> now w' \<le> now w + max 0 timeout"
  using signalGroup_now [of h "p_pid p" SIGKILL w]
  by (auto simp: stop_hard_def split: prod.splits sum.splits if_splits bool.splits dest!: wait_done_now)

lemma stop_body_Inr: "stop_body h p timeout w = (Inr u, w') \<Longrightarrow> exited p w'"
  by (auto simp: stop_body_def split: prod.splits sum.splits if_splits bool.splits
      dest: wait_done_True stop_hard_Inr)

lemma stop_body_now:
  "stop_body h p timeout w = (r, w') \<Longrightarrow> now w \<le> now w' \<and> now w' \<le> now w + 2 * max 0 timeout"
  using signalGroup_now [of h "p_pid p" SIGTERM w]
  by (fastforce simp: stop_body_def split: prod.splits sum.splits if_splits bool.splits
      dest!: wait_done_now stop_hard_now)

lemma standDown_select [simp]:
  "procs (standDown p w) = procs w" "now (standDown p w) = now w" "files (standDown p w) = files w"
  "locks (standDown p w) = locks w"
  by (simp_all add: standDown_def split: option.split)

lemma exited_standDown [simp]: "exited p (standDown q w) = exited p w"
  by (simp add: exited_def)

definition stood_down :: "process \<Rightarrow> world \<Rightarrow> bool" where
  "stood_down p w \<longleftrightarrow>
    (case p_watchdog p of None \<Rightarrow> True
     | Some k \<Rightarrow> CHR 0x0A \<in> set (pipe_data (pipes w k)) \<and> \<not> pipe_open (pipes w k))"

lemma stood_down_standDown: "stood_down p (standDown p w)"
  by (simp add: stood_down_def standDown_def split: option.split)

text \<open>
  C20: \<open>stop\<close> returns in bounded time, twice the timeout at most, on every path; it reports success
  only when the server is gone; and on every path, errors included, the watchdog has been told
  that the shutdown is deliberate.
\<close>

theorem stop_correct:
  "(case stop h (Some p) timeout w of (r, w') \<Rightarrow>
      now w \<le> now w' \<and> now w' \<le> now w + 2 * max 0 timeout \<and> stood_down p w' \<and>
      (case r of Inr _ \<Rightarrow> exited p w' \<and> \<not> is_alive w' (p_pid p) | Inl _ \<Rightarrow> True))"
proof (cases "stop_body h p timeout w")
  case (Pair r w1)
  then show ?thesis
    using stop_body_now [OF Pair] stop_body_Inr [of h p timeout w _ w1] exited_not_alive [of p "standDown p w1"]
    by (cases r) (auto simp: stop_def stood_down_standDown)
qed

text \<open>Every member of the server's group can be killed, and the server is one of them.\<close>

definition stoppable :: "host \<Rightarrow> process \<Rightarrow> world \<Rightarrow> bool" where
  "stoppable h p w \<longleftrightarrow> 1 < p_pid p \<and>
    (\<forall>q \<in> set (procs w).
      (proc_pid q = p_pid p \<longrightarrow> proc_group q = p_pid p) \<and>
      (proc_group q = p_pid p \<longrightarrow> killable h (proc_pid q)))"

lemma signalGroup_stoppable:
  assumes "stoppable h p w" "\<not> exited p w"
  shows "fst (signalGroup h (p_pid p) sig w) = Inr ()"
    and "snd (signalGroup h (p_pid p) sig w) = w\<lparr>procs := map (\<lambda>q. if alive q \<and> proc_group q = p_pid p
      then deliver h sig (now w) q else q) (procs w)\<rparr>"
proof -
  from assms(2) obtain q where q: "q \<in> set (procs w)" "alive q" "proc_group q = p_pid p"
    using assms(1) by (auto simp: exited_iff waited_for_def stoppable_def)
  have addr: "addressed h (- p_pid p) q' \<longleftrightarrow> alive q' \<and> proc_group q' = p_pid p" for q'
    using assms(1) by (simp add: addressed_def stoppable_def)
  have may: "may_signal h (proc_pid q')" if "q' \<in> set (procs w)" "proc_group q' = p_pid p" for q'
    using that assms(1) by (simp add: stoppable_def killable_def)
  have "kill h (- p_pid p) sig w = (Inr (), w\<lparr>procs := map (\<lambda>q. if alive q \<and> proc_group q = p_pid p
      then deliver h sig (now w) q else q) (procs w)\<rparr>)"
    using q may by (auto simp: kill_def addr list_ex_iff)
  then show "fst (signalGroup h (p_pid p) sig w) = Inr ()"
    "snd (signalGroup h (p_pid p) sig w) = w\<lparr>procs := map (\<lambda>q. if alive q \<and> proc_group q = p_pid p
      then deliver h sig (now w) q else q) (procs w)\<rparr>"
    by (simp_all add: signalGroup_def)
qed

lemma same_ids_stoppable:
  assumes "map proc_pid (procs w') = map proc_pid (procs w)" "map proc_group (procs w') = map proc_group (procs w)"
    and "stoppable h p w"
  shows "stoppable h p w'"
proof -
  have len: "length (procs w') = length (procs w)" using assms(1) by (rule map_eq_imp_length_eq)
  have "\<exists>q \<in> set (procs w). proc_pid q = proc_pid q' \<and> proc_group q = proc_group q'" if q': "q' \<in> set (procs w')" for q'
  proof -
    obtain n where n: "n < length (procs w')" "q' = procs w' ! n" using q' by (auto simp: in_set_conv_nth)
    with len assms(1,2) show ?thesis by (metis nth_map nth_mem)
  qed
  with assms(3) show ?thesis unfolding stoppable_def by metis
qed

lemma proc_group_deliver [simp]: "proc_group (deliver h sig t q) = proc_group q"
  by (auto simp: deliver_def split: signal.split option.split)

lemma expire_ids [simp]: "proc_pid (expire t q) = proc_pid q" "proc_group (expire t q) = proc_group q"
  by (auto simp: expire_def split: option.split)

lemma stop_hard_stoppable:
  assumes "stoppable h p w" "\<not> exited p w"
  shows "fst (stop_hard h p timeout w) = Inr ()"
proof -
  obtain w1 where k: "signalGroup h (p_pid p) SIGKILL w = (Inr (), w1)"
    and w1: "w1 = w\<lparr>procs := map (\<lambda>q. if alive q \<and> proc_group q = p_pid p
      then deliver h SIGKILL (now w) q else q) (procs w)\<rparr>"
    using signalGroup_stoppable [OF assms, of SIGKILL] by (metis prod.collapse)
  have "exited p w1"
    using assms(1) by (auto simp: exited_iff w1 waited_for_def deliver_def stoppable_def killable_def split: if_splits)
  then show ?thesis by (simp add: stop_hard_def k wait_done_exited)
qed

lemma exited_fewer:
  assumes "fewer_alive w w'" "exited p w"
  shows "exited p w'"
  unfolding exited_iff
proof
  fix q'
  assume "q' \<in> set (procs w')"
  with assms(1) obtain q where "q \<in> set (procs w)" "q' = q \<or> q' = q\<lparr>alive := False\<rparr>"
    by (rule fewer_alive_origin)
  with assms(2) show "\<not> waited_for p q'" by (auto simp: exited_iff waited_for_def)
qed

lemma stop_hard_exited:
  assumes "exited p w"
  shows "fst (stop_hard h p timeout w) = Inr ()"
proof -
  obtain r w1 where k: "signalGroup h (p_pid p) SIGKILL w = (r, w1)" by fastforce
  with signalGroup_fewer_alive [of w h "p_pid p"] have "exited p w1"
    using exited_fewer assms by (metis snd_conv)
  then show ?thesis by (cases r) (simp_all add: stop_hard_def k wait_done_exited)
qed

lemma stop_body_stoppable:
  assumes "stoppable h p w"
  shows "fst (stop_body h p timeout w) = Inr ()"
proof (cases "exited p w")
  case False
  obtain w1 where k: "signalGroup h (p_pid p) SIGTERM w = (Inr (), w1)"
    and w1: "w1 = w\<lparr>procs := map (\<lambda>q. if alive q \<and> proc_group q = p_pid p
      then deliver h SIGTERM (now w) q else q) (procs w)\<rparr>"
    using signalGroup_stoppable [OF assms False, of SIGTERM] by (metis prod.collapse)
  obtain b w2 where d: "wait_done p timeout w1 = (b, w2)" by fastforce
  show ?thesis
  proof (cases b)
    case True
    with k d False show ?thesis by (simp add: stop_body_def)
  next
    case fb: False
    have ids: "map proc_pid (procs w2) = map proc_pid (procs w)" "map proc_group (procs w2) = map proc_group (procs w)"
      using d by (auto simp: wait_done_def w1 advance_def split: if_splits option.splits)
    then have s2: "stoppable h p w2" using assms by (rule same_ids_stoppable)
    have "fst (stop_hard h p timeout w2) = Inr ()"
      using stop_hard_exited stop_hard_stoppable [OF s2] by (cases "exited p w2")
    with k d fb False show ?thesis by (simp add: stop_body_def)
  qed
qed (simp add: stop_body_def)

text \<open>
  C21: \<open>stop\<close> escalates. However long the server ignores \<open>SIGTERM\<close>, if the members of its process
  group can be killed then \<open>stop\<close> succeeds.
\<close>

theorem stop_succeeds:
  "stoppable h p w \<Longrightarrow> fst (stop h (Some p) timeout w) = Inr ()"
  using stop_body_stoppable [of h p w timeout] by (cases "stop_body h p timeout w") (simp add: stop_def)

theorem stop_succeeds_witness:
  "(let h = example_host\<lparr>server := \<lambda>_. example_behaviour\<lparr>term_delay := None\<rparr>\<rparr>;
        p = \<lparr>p_name = ''pd-0'', p_pid = 100, p_logPath = [], p_watchdog = None, p_tee = None\<rparr>
    in is_alive example_world 100 \<and> fst (stop h (Some p) 10 example_world) = Inr ())"
proof -
  let ?h = "example_host\<lparr>server := \<lambda>_. example_behaviour\<lparr>term_delay := None\<rparr>\<rparr>"
  let ?p = "\<lparr>p_name = ''pd-0'', p_pid = 100, p_logPath = [], p_watchdog = None, p_tee = None\<rparr>"
  have "stoppable ?h ?p example_world"
    by (simp add: stoppable_def killable_def example_world_def example_host_def example_behaviour_def)
  from stop_succeeds [OF this, of 10] show ?thesis
    by (simp add: Let_def is_alive_def example_world_def)
qed

text \<open>
  C23: \<open>stop\<close> and the watchdog agree. Whatever \<open>stop\<close> returns, the script that supervises the
  server, however far it runs from then on, changes nothing.
\<close>

theorem stop_then_watchdog:
  assumes "p_watchdog p = Some k" "stop h (Some p) timeout w = (r, w1)"
    and "watchdog_runs h c (p_pid p) k (Reading, w1) (pc, w2)"
  shows "w2 = w1"
proof -
  have "stood_down p w1"
    using assms(2) stood_down_standDown by (auto simp: stop_def split: prod.splits)
  then have "CHR 0x0A \<in> set (pipe_data (pipes w1 k))" by (simp add: stood_down_def assms(1))
  with watchdog_runs_after [OF assms(3)] show ?thesis by simp
qed

theorem stop_then_watchdog_witness:
  "\<exists>r w1. stop example_host (Some \<lparr>p_name = ''pd-0'', p_pid = 100, p_logPath = [], p_watchdog = Some 0,
      p_tee = None\<rparr>) 10 example_world = (r, w1) \<and>
    watchdog_runs example_host \<lparr>wc_dataPath = ''/tmp'', wc_recordPath = [], wc_lockPath = []\<rparr> 100 0
      (Reading, w1) (Finished, w1)"
proof -
  let ?p = "\<lparr>p_name = ''pd-0'', p_pid = 100, p_logPath = [], p_watchdog = Some 0, p_tee = None\<rparr>"
  let ?c = "\<lparr>wc_dataPath = ''/tmp'', wc_recordPath = [], wc_lockPath = []\<rparr>"
  obtain r w1 where s: "stop example_host (Some ?p) 10 example_world = (r, w1)" by fastforce
  then have "stood_down ?p w1" using stood_down_standDown by (auto simp: stop_def split: prod.splits)
  then have step: "watchdog_step example_host ?c 100 0 Reading w1 = Some (Finished, w1)"
    by (simp add: stood_down_def)
  obtain w2 where run: "watchdog_runs example_host ?c 100 0 (Reading, w1) (Finished, w2)"
    using runs_step [OF runs_refl step] by blast
  then have "watchdog_runs example_host ?c (p_pid ?p) 0 (Reading, w1) (Finished, w2)" by simp
  from stop_then_watchdog [OF _ s this] run s show ?thesis by auto
qed

subsection \<open>What startProcess leaves\<close>

lemma same_procs_files:
  "procs (append_text p s w) = procs w" "procs (tell k s w) = procs w"
  "pipes (append_text p s w) = pipes w" "pipes (tell k s w) = pipes w"
  "next_pid (append_text p s w) = next_pid w" "next_pid (tell k s w) = next_pid w"
  by (simp_all add: append_text_def tell_def put_node_def split: option.split node.split)

lemma write_output_select [simp]:
  "procs (write_output p l s w) = procs w" "pipes (write_output p l s w) = pipes w"
  "next_pid (write_output p l s w) = next_pid w"
  by (simp_all add: write_output_def Let_def same_procs_files split: option.split)

definition pids_fresh :: "world \<Rightarrow> bool" where
  "pids_fresh w \<longleftrightarrow> (\<forall>q \<in> set (procs w). proc_pid q < next_pid w \<and> proc_group q < next_pid w) \<and> 1 < next_pid w"

text \<open>The server dies of itself; its watchdog is still there.\<close>

definition crash :: "int \<Rightarrow> world \<Rightarrow> world" where
  "crash p w = w\<lparr>procs := map (\<lambda>q. if proc_pid q = p then q\<lparr>alive := False\<rparr> else q) (procs w)\<rparr>"

definition open_pipes :: "world \<Rightarrow> nat set" where
  "open_pipes w = {k. pipe_open (pipes w k)}"

lemma haveShell_select:
  "haveShell h w = (b, w') \<Longrightarrow> procs w' = procs w \<and> pipes w' = pipes w \<and> next_pid w' = next_pid w \<and> next_pipe w' = next_pipe w"
  by (auto simp: haveShell_def Let_def split: option.splits)

lemma supervisedCommand_cases:
  assumes "supervisedCommand h binary args cleanup w = (r, w')"
  shows "procs w' = procs w \<and> next_pid w' = next_pid w \<and>
    (case r of
      Inl _ \<Rightarrow> pipes w' = pipes w
    | Inr (c, None) \<Rightarrow> cmd_extra c = None \<and> cmd_argv c = binary # args \<and> pipes w' = pipes w
    | Inr (c, Some k) \<Rightarrow> cmd_extra c = Some k \<and> drop 7 (cmd_argv c) = binary # args \<and> hd (cmd_argv c) = shellPath \<and>
        pipes w' = (pipes w)(k := \<lparr>pipe_data = [], pipe_open = True\<rparr>))"
proof -
  obtain b w1 where s: "haveShell h w = (b, w1)" by fastforce
  from assms haveShell_select [OF s] show ?thesis
    by (cases b) (auto simp: supervisedCommand_def s Let_def split: option.splits)
qed

lemma spawn_eq:
  "spawn h args g w = (next_pid w, w\<lparr>procs := procs w @ [\<lparr>proc_pid = next_pid w,
      proc_group = (if g = 0 then next_pid w else g), argv = args, alive = True,
      exit_at = map_option (\<lambda>d. now w + max 0 d) (lifetime (server h (next_pid w)))\<rparr>],
    next_pid := next_pid w + 1\<rparr>)"
  by (simp add: spawn_def Let_def)

lemma startCommand_cases:
  assumes "startCommand h c w = (r, w')" "0 < next_pid w"
  shows "pipes w' = pipes w \<and>
    (case r of
      Inl _ \<Rightarrow> procs w' = procs w \<and> next_pid w' = next_pid w
    | Inr p \<Rightarrow> p = next_pid w \<and>
        (\<exists>e1. \<exists>ws. next_pid w' = p + 1 + int (length ws) \<and> procs w' = procs w @ \<lparr>proc_pid = p, proc_group = p,
            argv = (if cmd_extra c = None then cmd_argv c else drop 7 (cmd_argv c)), alive = True, exit_at = e1\<rparr> # ws \<and>
          (if cmd_extra c = None then ws = []
           else \<exists>e2. ws = [\<lparr>proc_pid = p + 1, proc_group = p, argv = cmd_argv c, alive = True, exit_at = e2\<rparr>])))"
  using assms
  by (auto simp: startCommand_def spawn_eq sysProcAttr_def split: option.splits)

text \<open>What a call of \<open>startProcess\<close> leaves: the new processes, and the pipe.\<close>

lemma startProcess_cases:
  assumes "startProcess h name binary args logPath logger cleanup w = (r, w')" "pids_fresh w"
  shows "(case r of
      Inl _ \<Rightarrow> procs w' = procs w \<and> next_pid w' = next_pid w \<and> open_pipes w' \<subseteq> open_pipes w
    | Inr p \<Rightarrow> p_pid p = next_pid w \<and> p_tee p = logger \<and> p_logPath p = logPath \<and> p_name p = name \<and>
        (case p_watchdog p of None \<Rightarrow> True | Some k \<Rightarrow> k \<in> open_pipes w') \<and>
        (\<exists>e1 ws. next_pid w' = p_pid p + 1 + int (length ws) \<and>
          procs w' = procs w @ \<lparr>proc_pid = p_pid p, proc_group = p_pid p, argv = binary # args,
            alive = True, exit_at = e1\<rparr> # ws \<and>
          (if p_watchdog p = None then ws = []
           else \<exists>e2 a. ws = [\<lparr>proc_pid = p_pid p + 1, proc_group = p_pid p, argv = a, alive = True, exit_at = e2\<rparr>])))"
proof -
  obtain r0 w0 where 0: "createFile h logPath w = (r0, w0)" by fastforce
  have w0: "procs w0 = procs w" "pipes w0 = pipes w" "next_pid w0 = next_pid w"
    using same_restD(1,3,6) [OF staysE [OF same_rest_ops(2) 0]] by simp_all
  show ?thesis
  proof (cases r0)
    case (Inl e)
    with assms(1) 0 w0 show ?thesis by (auto simp: startProcess_def seqE_def wrapE_def open_pipes_def)
  next
    case (Inr u)
    obtain r1 w1 where 1: "supervisedCommand h binary args cleanup w0 = (r1, w1)" by fastforce
    note c1 = supervisedCommand_cases [OF 1]
    show ?thesis
    proof (cases r1)
      case (Inl e)
      with assms(1) 0 \<open>r0 = Inr u\<close> 1 c1 w0 show ?thesis
        by (auto simp: startProcess_def seqE_def wrapE_def open_pipes_def)
    next
      case (Inr cw)
      obtain c wd where cw: "cw = (c, wd)" by fastforce
      obtain r2 w2 where 2: "startCommand h c w1 = (r2, w2)" by fastforce
      have "0 < next_pid w1" using c1 w0 assms(2) by (simp add: pids_fresh_def)
      note c2 = startCommand_cases [OF 2 this]
      show ?thesis
      proof (cases r2)
        case (Inl e)
        with assms(1) 0 \<open>r0 = Inr u\<close> 1 \<open>r1 = Inr cw\<close> cw 2 c1 c2 w0 show ?thesis
          by (cases wd) (auto simp: startProcess_def seqE_def wrapE_def open_pipes_def closePipe_def split: if_splits)
      next
        case (Inr p)
        with assms(1) 0 \<open>r0 = Inr u\<close> 1 \<open>r1 = Inr cw\<close> cw 2 c1 c2 w0 show ?thesis
          by (cases wd) (auto simp: startProcess_def seqE_def wrapE_def open_pipes_def split: if_splits)
      qed
    qed
  qed
qed

text \<open>
  C27: what \<open>startProcess\<close> leaves. On an error no process has been started and no pipe is open that
  was not: nothing is left that would have to be stopped. On success the server runs with the
  given command line, in a process group of its own, is not reported as exited, and the pipe of
  its watchdog, if there is one, is open.
\<close>

theorem startProcess_correct:
  assumes "pids_fresh w"
  shows "(case startProcess h name binary args logPath logger cleanup w of
      (Inl _, w') \<Rightarrow> procs w' = procs w \<and> open_pipes w' \<subseteq> open_pipes w
    | (Inr p, w') \<Rightarrow> \<not> exited p w' \<and>
        list_ex (\<lambda>q. proc_pid q = p_pid p \<and> proc_group q = p_pid p \<and> argv q = binary # args \<and> alive q) (procs w') \<and>
        (case p_watchdog p of None \<Rightarrow> True | Some k \<Rightarrow> k \<in> open_pipes w'))"
proof (cases "startProcess h name binary args logPath logger cleanup w")
  case (Pair r w')
  with startProcess_cases [OF Pair assms] show ?thesis
    by (cases r) (auto simp: exited_def waited_for_def)
qed

lemma pids_fresh_example: "pids_fresh example_world"
  by (simp add: pids_fresh_def example_world_def)

theorem startProcess_correct_witness:
  "(case startProcess example_host ''pd-0'' ''/b/pd'' [] ''/tmp/pd.log'' None
        \<lparr>wc_dataPath = [], wc_recordPath = [], wc_lockPath = []\<rparr> example_world of
      (Inl _, w') \<Rightarrow> False
    | (Inr p, w') \<Rightarrow> \<not> exited p w' \<and>
        list_ex (\<lambda>q. proc_pid q = p_pid p \<and> proc_group q = p_pid p \<and> argv q = ''/b/pd'' # [] \<and> alive q) (procs w') \<and>
        (case p_watchdog p of None \<Rightarrow> True | Some k \<Rightarrow> k \<in> open_pipes w'))"
proof (cases "startProcess example_host ''pd-0'' ''/b/pd'' [] ''/tmp/pd.log'' None
    \<lparr>wc_dataPath = [], wc_recordPath = [], wc_lockPath = []\<rparr> example_world")
  case (Pair r w')
  have "isl (fst (startProcess example_host ''pd-0'' ''/b/pd'' [] ''/tmp/pd.log'' None
    \<lparr>wc_dataPath = [], wc_recordPath = [], wc_lockPath = []\<rparr> example_world)) = False"
    by code_simp
  then obtain p where "r = Inr p" using Pair by (cases r) simp_all
  with startProcess_correct [OF pids_fresh_example, where h = example_host and name = "''pd-0''" and
      binary = "''/b/pd''" and args = "[]" and logPath = "''/tmp/pd.log''" and logger = None and
      cleanup = "\<lparr>wc_dataPath = [], wc_recordPath = [], wc_lockPath = []\<rparr>"] Pair
  show ?thesis by simp
qed

text \<open>
  C28: a crash is not always seen. When a server dies of itself, \<open>exited\<close> says so at once unless
  both a logger and a watchdog are there: then the watchdog, which inherited the output of the
  server, keeps \<open>cmd.Wait\<close> from returning, and the server counts as running.
\<close>

theorem crash_seen_iff:
  assumes "pids_fresh w"
  shows "(case startProcess h name binary args logPath logger cleanup w of
      (Inl _, _) \<Rightarrow> True
    | (Inr p, w') \<Rightarrow> \<not> is_alive (crash (p_pid p) w') (p_pid p) \<and>
        exited p (crash (p_pid p) w') = (logger = None \<or> p_watchdog p = None))"
proof (cases "startProcess h name binary args logPath logger cleanup w")
  case (Pair r w')
  show ?thesis
  proof (cases r)
    case (Inr p)
    from startProcess_cases [OF Pair assms] Inr obtain e1 ws where p: "p_pid p = next_pid w" "p_tee p = logger"
      and w': "procs w' = procs w @ \<lparr>proc_pid = p_pid p, proc_group = p_pid p, argv = binary # args,
          alive = True, exit_at = e1\<rparr> # ws"
      and ws: "if p_watchdog p = None then ws = []
        else \<exists>e2 a. ws = [\<lparr>proc_pid = p_pid p + 1, proc_group = p_pid p, argv = a, alive = True, exit_at = e2\<rparr>]"
      by auto
    have old: "proc_pid q \<noteq> p_pid p" "proc_group q \<noteq> p_pid p" if "q \<in> set (procs w)" for q
      using that assms p(1) by (auto simp: pids_fresh_def)
    have dead: "\<not> is_alive (crash (p_pid p) w') (p_pid p)"
      by (auto simp: is_alive_def crash_def list_ex_iff)
    have "exited p (crash (p_pid p) w') = (logger = None \<or> p_watchdog p = None)"
    proof -
      define f :: "os_process \<Rightarrow> os_process" where "f = (\<lambda>q. if proc_pid q = p_pid p then q\<lparr>alive := False\<rparr> else q)"
      define q0 :: os_process where "q0 = \<lparr>proc_pid = p_pid p, proc_group = p_pid p, argv = binary # args, alive = True, exit_at = e1\<rparr>"
      have old': "\<not> waited_for p (f q)" if "q \<in> set (procs w)" for q
        using old [OF that] by (simp add: waited_for_def f_def)
      have new: "\<not> waited_for p (f q0)" by (simp add: waited_for_def f_def q0_def)
      have "procs (crash (p_pid p) w') = map f (procs w @ q0 # ws)"
        unfolding crash_def f_def q0_def w' by simp
      then have "exited p (crash (p_pid p) w') \<longleftrightarrow> (\<forall>q \<in> set ws. \<not> waited_for p (f q))"
        using old' new by (simp add: exited_iff) blast
      also have "\<dots> \<longleftrightarrow> logger = None \<or> p_watchdog p = None"
      proof (cases "p_watchdog p")
        case (Some k)
        with ws obtain e2 a where "ws = [\<lparr>proc_pid = p_pid p + 1, proc_group = p_pid p, argv = a, alive = True, exit_at = e2\<rparr>]"
          by auto
        then show ?thesis by (simp add: waited_for_def p(2) Some f_def)
      qed (use ws in simp)
      finally show ?thesis .
    qed
    with dead Pair Inr show ?thesis by simp
  qed (simp add: Pair)
qed

theorem crash_seen_iff_witness:
  "(case startProcess example_host ''pd-0'' ''/b/pd'' [] ''/tmp/pd.log'' (Some 1)
        \<lparr>wc_dataPath = [], wc_recordPath = [], wc_lockPath = []\<rparr> example_world of
      (Inl _, _) \<Rightarrow> False
    | (Inr p, w') \<Rightarrow> p_watchdog p \<noteq> None \<and> \<not> is_alive (crash (p_pid p) w') (p_pid p) \<and>
        \<not> exited p (crash (p_pid p) w'))"
proof (cases "startProcess example_host ''pd-0'' ''/b/pd'' [] ''/tmp/pd.log'' (Some 1)
    \<lparr>wc_dataPath = [], wc_recordPath = [], wc_lockPath = []\<rparr> example_world")
  case (Pair r w')
  have "(case fst (startProcess example_host ''pd-0'' ''/b/pd'' [] ''/tmp/pd.log'' (Some 1)
      \<lparr>wc_dataPath = [], wc_recordPath = [], wc_lockPath = []\<rparr> example_world) of Inl _ \<Rightarrow> False | Inr p \<Rightarrow> p_watchdog p \<noteq> None)"
    by code_simp
  then obtain p where "r = Inr p" "p_watchdog p \<noteq> None" using Pair by (cases r) simp_all
  with crash_seen_iff [OF pids_fresh_example, where h = example_host and name = "''pd-0''" and
      binary = "''/b/pd''" and args = "[]" and logPath = "''/tmp/pd.log''" and logger = "Some 1" and
      cleanup = "\<lparr>wc_dataPath = [], wc_recordPath = [], wc_lockPath = []\<rparr>"] Pair
  show ?thesis by simp
qed

subsection \<open>The tail of a log\<close>

lemma trimSpace_part: "\<exists>a b. s = a @ trimSpace s @ b"
proof -
  have "\<exists>b. t = trim_right f t @ b" for t and f :: "char \<Rightarrow> bool"
    by (metis rev_append rev_rev_ident takeWhile_dropWhile_id trim_right_def)
  then obtain b where "dropWhile is_space s = trimSpace s @ b" unfolding trimSpace_def by blast
  then show ?thesis by (metis takeWhile_dropWhile_id)
qed

text \<open>
  What is quoted of a log is a piece of it, of \<open>logTailBytes\<close> at most, and never an error:
  a log that cannot be opened or read is quoted as nothing.
\<close>

lemma logTail_bounded:
  "length (logTail h path w) \<le> logTailBytes \<and>
    (case lookup w path of
      Some (Regular _ s _) \<Rightarrow> contains s (logTail h path w) | _ \<Rightarrow> logTail h path w = [])"
proof (cases "\<exists>i s x. lookup w path = Some (Regular i s x) \<and> io_fault h OpOpen path = None \<and> io_fault h OpRead path = None")
  case True
  then obtain i s x where l: "lookup w path = Some (Regular i s x)"
    and t: "logTail h path w = trimSpace (drop (length s - logTailBytes) s)"
    by (auto simp: logTail_def)
  obtain a b where ab: "drop (length s - logTailBytes) s = a @ trimSpace (drop (length s - logTailBytes) s) @ b"
    using trimSpace_part by blast
  then have "s = (take (length s - logTailBytes) s @ a) @ trimSpace (drop (length s - logTailBytes) s) @ b"
    by (metis append.assoc append_take_drop_id)
  then have "contains s (logTail h path w)" unfolding t contains_iff by metis
  moreover have "length (logTail h path w) \<le> logTailBytes"
    using arg_cong [OF ab, of length] by (simp add: t)
  ultimately show ?thesis by (simp add: l)
next
  case False
  then have "logTail h path w = []" by (auto simp: logTail_def split: option.split node.split)
  then show ?thesis by (auto simp: contains_iff split: option.split node.split)
qed

end
