(* ===== verification/Servers.thy ===== *)
theory Servers
  imports Process Config Json
begin

text \<open>
  \<^verbatim>\<open>pd.go\<close> and \<^verbatim>\<open>tikv.go\<close>: the addresses, command lines and default settings of the two servers,
  and the polling of PD until it and the stores are ready. The body of an HTTP answer is one JSON
  value; \<open>http_get h url t\<close> is what the host answers at the time \<open>t\<close>. A request takes no time in
  the model, so the deadline is met between two requests only.
\<close>

subsection \<open>Addresses\<close>

record pdInstance =
  pd_name :: string
  pd_host :: string
  pd_dir :: string
  pd_configPath :: string
  pd_logPath :: string
  pd_peerPort :: int
  pd_clientPort :: int
  pd_proc :: "process option"

record tikvInstance =
  kv_name :: string
  kv_host :: string
  kv_dir :: string
  kv_configPath :: string
  kv_logPath :: string
  kv_port :: int
  kv_statusPort :: int
  kv_proc :: "process option"

definition clientURL :: "pdInstance \<Rightarrow> string" where
  "clientURL p = ''http://'' @ joinHostPort (pd_host p) (itoa (pd_clientPort p))"

definition endpoint :: "pdInstance \<Rightarrow> string" where
  "endpoint p = joinHostPort (pd_host p) (itoa (pd_clientPort p))"

definition peerURL :: "pdInstance \<Rightarrow> string" where
  "peerURL p = ''http://'' @ joinHostPort (pd_host p) (itoa (pd_peerPort p))"

definition pd_args :: "pdInstance \<Rightarrow> string list" where
  "pd_args p =
    [''--name='' @ pd_name p,
     ''--config='' @ pd_configPath p,
     ''--data-dir='' @ path_join [pd_dir p, ''data''],
     ''--peer-urls='' @ peerURL p,
     ''--advertise-peer-urls='' @ peerURL p,
     ''--client-urls='' @ clientURL p,
     ''--advertise-client-urls='' @ clientURL p,
     ''--initial-cluster='' @ pd_name p @ ''='' @ peerURL p]"

definition addr :: "tikvInstance \<Rightarrow> string" where
  "addr t = joinHostPort (kv_host t) (itoa (kv_port t))"

definition statusAddr :: "tikvInstance \<Rightarrow> string" where
  "statusAddr t = joinHostPort (kv_host t) (itoa (kv_statusPort t))"

definition tikv_args :: "string list \<Rightarrow> tikvInstance \<Rightarrow> string list" where
  "tikv_args pdEndpoints t =
    [''--addr='' @ addr t,
     ''--advertise-addr='' @ addr t,
     ''--status-addr='' @ statusAddr t,
     ''--pd-endpoints='' @ join '','' pdEndpoints,
     ''--config='' @ kv_configPath t,
     ''--data-dir='' @ path_join [kv_dir t, ''data'']]"

subsection \<open>Default settings\<close>

definition defaultPDConfig :: "int \<Rightarrow> settings" where
  "defaultPDConfig tikvCount =
    [(''election-interval'', VString ''500ms''),
     (''tick-interval'', VString ''50ms''),
     (''schedule.patrol-region-interval'', VString ''100ms''),
     (''schedule.low-space-ratio'', VFloat ''1.0'')] @
    (if tikvCount < 3 then [(''replication.max-replicas'', VInt 1)] else [])"

definition defaultTiKVConfig :: settings where
  "defaultTiKVConfig =
    [(''storage.reserve-space'', VInt 0),
     (''storage.reserve-raft-space'', VInt 0),
     (''storage.block-cache.capacity'', VString ''128MB''),
     (''rocksdb.max-open-files'', VInt 256),
     (''raftdb.max-open-files'', VInt 256),
     (''raftstore.pd-store-heartbeat-tick-interval'', VString ''500ms''),
     (''server.graceful-shutdown-timeout'', VString ''0s'')]"

subsection \<open>Asking PD\<close>

definition json_error :: go_error where "json_error = ''invalid JSON value''"

definition getJSON :: "host \<Rightarrow> string \<Rightarrow> (json \<Rightarrow> 'a option) \<Rightarrow> world \<Rightarrow> 'a result" where
  "getJSON h url decode w =
    (case http_get h url (now w) of
      HttpError e \<Rightarrow> Inl e
    | HttpResponse code status body \<Rightarrow>
        if code \<noteq> 200 then Inl (url @ '' returned '' @ status)
        else (case unmarshal body of None \<Rightarrow> Inl json_error
              | Some v \<Rightarrow> (case decode v of None \<Rightarrow> Inl json_error | Some x \<Rightarrow> Inr x)))"

text \<open>\<open>pdMembersResponse\<close> is the cluster id in its header.\<close>

definition header_field :: "string \<times> json \<Rightarrow> nat \<Rightarrow> nat option" where
  "header_field kv i =
    (if toLower (fst kv) \<noteq> ''cluster_id'' then Some i
     else case snd kv of JNumber t \<Rightarrow> parse_uint64 t | JNull \<Rightarrow> Some i | _ \<Rightarrow> None)"

definition members_field :: "string \<times> json \<Rightarrow> nat \<Rightarrow> nat option" where
  "members_field kv i =
    (if toLower (fst kv) \<noteq> ''header'' then Some i
     else case snd kv of JObject kvs \<Rightarrow> fold_fields header_field kvs i | JNull \<Rightarrow> Some i | _ \<Rightarrow> None)"

definition decode_members :: "json \<Rightarrow> nat option" where
  "decode_members v =
    (case v of JObject kvs \<Rightarrow> fold_fields members_field kvs 0 | JNull \<Rightarrow> Some 0 | _ \<Rightarrow> None)"

record pdStore =
  st_ID :: nat
  st_StateName :: string

record pdStoresResponse =
  ps_Count :: int
  ps_Stores :: "pdStore list"

definition store_field :: "string \<times> json \<Rightarrow> pdStore \<Rightarrow> pdStore option" where
  "store_field kv s =
    (let k = toLower (fst kv)
     in if k = ''id'' then
          (case snd kv of JNumber t \<Rightarrow> map_option (\<lambda>i. s\<lparr>st_ID := i\<rparr>) (parse_uint64 t)
           | JNull \<Rightarrow> Some s | _ \<Rightarrow> None)
        else if k = ''state_name'' then
          (case snd kv of JString t \<Rightarrow> Some (s\<lparr>st_StateName := t\<rparr>) | JNull \<Rightarrow> Some s | _ \<Rightarrow> None)
        else Some s)"

definition wrapped_store_field :: "string \<times> json \<Rightarrow> pdStore \<Rightarrow> pdStore option" where
  "wrapped_store_field kv s =
    (if toLower (fst kv) \<noteq> ''store'' then Some s
     else case snd kv of JObject kvs \<Rightarrow> fold_fields store_field kvs s | JNull \<Rightarrow> Some s | _ \<Rightarrow> None)"

definition decode_store :: "json \<Rightarrow> pdStore option" where
  "decode_store v =
    (let zero = \<lparr>st_ID = 0, st_StateName = []\<rparr>
     in case v of JObject kvs \<Rightarrow> fold_fields wrapped_store_field kvs zero | JNull \<Rightarrow> Some zero | _ \<Rightarrow> None)"

definition stores_field :: "string \<times> json \<Rightarrow> pdStoresResponse \<Rightarrow> pdStoresResponse option" where
  "stores_field kv r =
    (let k = toLower (fst kv)
     in if k = ''count'' then
          (case snd kv of JNumber t \<Rightarrow> map_option (\<lambda>i. r\<lparr>ps_Count := i\<rparr>) (atoi t)
           | JNull \<Rightarrow> Some r | _ \<Rightarrow> None)
        else if k = ''stores'' then
          (case snd kv of JArray vs \<Rightarrow> map_option (\<lambda>ss. r\<lparr>ps_Stores := ss\<rparr>) (decode_all decode_store vs)
           | JNull \<Rightarrow> Some (r\<lparr>ps_Stores := []\<rparr>) | _ \<Rightarrow> None)
        else Some r)"

definition decode_stores :: "json \<Rightarrow> pdStoresResponse option" where
  "decode_stores v =
    (let zero = \<lparr>ps_Count = 0, ps_Stores = []\<rparr>
     in case v of JObject kvs \<Rightarrow> fold_fields stores_field kvs zero | JNull \<Rightarrow> Some zero | _ \<Rightarrow> None)"

subsection \<open>Polling\<close>

definition tick :: int where "tick = 100000000"

definition deadline_exceeded :: go_error where "deadline_exceeded = ''context deadline exceeded''"

text \<open>
  The check runs at once and then every 100ms; the deadline ends the wait. Time moves on by a
  tick in every round, so the rounds are bounded by the time that is left.
\<close>

function poll :: "int \<Rightarrow> (world \<Rightarrow> bool result \<times> world) \<Rightarrow> world \<Rightarrow> unit result \<times> world" where
  "poll deadline check w =
    (case check w of
      (Inl e, w1) \<Rightarrow> (Inl e, w1)
    | (Inr done, w1) \<Rightarrow>
        if done then (Inr (), w1)
        else (let t = max (now w) (now w1) + tick
              in if deadline \<le> t then (Inl deadline_exceeded, advance deadline w1)
                 else poll deadline check (advance t w1)))"
  by auto

termination
  by (relation "measure (\<lambda>(deadline, check, w). nat (deadline - now w))") (auto simp: tick_def)

declare poll.simps [simp del]

definition pd_ready :: "host \<Rightarrow> string \<Rightarrow> world \<Rightarrow> bool" where
  "pd_ready h url w =
    (case getJSON h (url @ ''/pd/api/v1/members'') decode_members w of Inl _ \<Rightarrow> False | Inr i \<Rightarrow> i \<noteq> 0)"

definition waitPDReady :: "host \<Rightarrow> int \<Rightarrow> string \<Rightarrow> (world \<Rightarrow> go_error option) \<Rightarrow> unit io" where
  "waitPDReady h deadline url guard =
    poll deadline (\<lambda>w. case guard w of Some e \<Rightarrow> (Inl e, w) | None \<Rightarrow> (Inr (pd_ready h url w), w))"

definition stores_up :: "host \<Rightarrow> string \<Rightarrow> int \<Rightarrow> world \<Rightarrow> bool" where
  "stores_up h url want w =
    (case getJSON h (url @ ''/pd/api/v1/stores'') decode_stores w of
      Inl _ \<Rightarrow> False
    | Inr r \<Rightarrow> want \<le> int (length (filter (\<lambda>s. st_StateName s = ''Up'') (ps_Stores r))))"

definition waitStoresUp :: "host \<Rightarrow> int \<Rightarrow> string \<Rightarrow> int \<Rightarrow> (world \<Rightarrow> go_error option) \<Rightarrow> unit io" where
  "waitStoresUp h deadline url want guard =
    poll deadline (\<lambda>w. case guard w of Some e \<Rightarrow> (Inl e, w) | None \<Rightarrow> (Inr (stores_up h url want w), w))"


subsection \<open>What polling guarantees\<close>

text \<open>A check that only looks: the world and its clock stay.\<close>

definition guarded_check :: "(world \<Rightarrow> go_error option) \<Rightarrow> (world \<Rightarrow> bool) \<Rightarrow> world \<Rightarrow> bool result \<times> world" where
  "guarded_check guard ready w = (case guard w of Some e \<Rightarrow> (Inl e, w) | None \<Rightarrow> (Inr (ready w), w))"

lemma waits_are_polls:
  "waitPDReady h deadline url guard = poll deadline (guarded_check guard (pd_ready h url))"
  "waitStoresUp h deadline url want guard = poll deadline (guarded_check guard (stores_up h url want))"
  by (simp_all add: waitPDReady_def waitStoresUp_def guarded_check_def [abs_def])

lemma poll_guarded:
  "poll deadline (guarded_check guard ready) w =
    (case guard w of
      Some e \<Rightarrow> (Inl e, w)
    | None \<Rightarrow>
        if ready w then (Inr (), w)
        else if deadline \<le> now w + tick then (Inl deadline_exceeded, advance deadline w)
        else poll deadline (guarded_check guard ready) (advance (now w + tick) w))"
  by (subst poll.simps) (simp add: guarded_check_def Let_def split: option.split)

lemma poll_outcome:
  assumes "poll deadline (guarded_check guard ready) w = (r, w')"
  shows "now w \<le> now w' \<and> now w' \<le> max (now w) deadline \<and>
    (case r of
      Inr _ \<Rightarrow> guard w' = None \<and> ready w'
    | Inl e \<Rightarrow> guard w' = Some e \<or> e = deadline_exceeded \<and> deadline \<le> now w')"
  using assms
proof (induction "nat (deadline - now w)" arbitrary: w rule: less_induct)
  case less
  show ?case
  proof (cases "guard w = None \<and> \<not> ready w \<and> now w + tick < deadline")
    case True
    let ?w = "advance (now w + tick) w"
    have "poll deadline (guarded_check guard ready) ?w = (r, w')"
      using less.prems True by (subst (asm) poll_guarded) simp
    moreover have "nat (deadline - now ?w) < nat (deadline - now w)" using True by (simp add: tick_def)
    ultimately have "now ?w \<le> now w' \<and> now w' \<le> max (now ?w) deadline \<and>
      (case r of Inr _ \<Rightarrow> guard w' = None \<and> ready w'
       | Inl e \<Rightarrow> guard w' = Some e \<or> e = deadline_exceeded \<and> deadline \<le> now w')"
      using less.hyps by blast
    then show ?thesis using True by (auto simp: tick_def)
  next
    case False
    with less.prems show ?thesis
      by (subst (asm) poll_guarded) (auto split: option.splits if_splits)
  qed
qed

text \<open>
  When the answer depends on the time alone, the first poll that finds it ready ends the wait, and a wait that
  timed out has found it ready at none of its polls.
\<close>

lemma poll_first:
  assumes "\<And>v. ready v \<longleftrightarrow> R (now v)" "poll deadline (guarded_check guard ready) w = (r, w')"
  shows "(case r of
      Inr _ \<Rightarrow> \<exists>k. now w' = now w + int k * tick \<and> R (now w') \<and> (\<forall>j < k. \<not> R (now w + int j * tick))
    | Inl e \<Rightarrow> guard w' = Some e \<or>
        e = deadline_exceeded \<and> (\<forall>j. j = 0 \<or> now w + int j * tick < deadline \<longrightarrow> \<not> R (now w + int j * tick)))"
  using assms(2)
proof (induction "nat (deadline - now w)" arbitrary: w rule: less_induct)
  case less
  show ?case
  proof (cases "guard w = None \<and> \<not> R (now w) \<and> now w + tick < deadline")
    case True
    let ?w = "advance (now w + tick) w"
    have now: "now ?w = now w + tick" by (simp add: tick_def)
    have shift: "now ?w + int j * tick = now w + int (Suc j) * tick" for j
      unfolding now by (simp add: algebra_simps)
    have run: "poll deadline (guarded_check guard ready) ?w = (r, w')"
      using less.prems True by (subst (asm) poll_guarded) (simp add: assms(1))
    have "nat (deadline - now ?w) < nat (deadline - now w)" using True by (simp add: tick_def)
    note IH = less.hyps [OF this run, unfolded shift]
    show ?thesis
    proof (cases r)
      case (Inr u)
      from IH [unfolded Inr sum.case] obtain k where k: "now w' = now w + int (Suc k) * tick" "R (now w')"
        "\<forall>j < k. \<not> R (now w + int (Suc j) * tick)" by blast
      have "\<not> R (now w + int j * tick)" if "j < Suc k" for j
        using that k(3) True by (cases j) auto
      with k Inr show ?thesis by (auto intro!: exI [of _ "Suc k"])
    next
      case (Inl e)
      have first: "\<not> R (now w)" using True by blast
      from IH [unfolded Inl sum.case] have "guard w' = Some e \<or> e = deadline_exceeded \<and>
          (\<forall>j. j = 0 \<or> now w + int j * tick < deadline \<longrightarrow> \<not> R (now w + int j * tick))"
      proof (elim disjE conjE)
        assume e: "e = deadline_exceeded" and later: "\<forall>j. j = 0 \<or> now w + int (Suc j) * tick < deadline \<longrightarrow>
            \<not> R (now w + int (Suc j) * tick)"
        have "\<not> R (now w + int j * tick)" if "j = 0 \<or> now w + int j * tick < deadline" for j
          using that first later by (cases j) (simp, blast)
        with e show ?thesis by blast
      qed simp
      with Inl show ?thesis by simp
    qed
  next
    case False
    have late: "j = 0" if "\<not> now w + tick < deadline" "now w + int j * tick < deadline" for j
      using that by (cases j) (auto simp: tick_def algebra_simps)
    have never: "\<not> R (now w + int j * tick)"
      if "\<not> now w + tick < deadline" "\<not> R (now w)" "now w + int j * tick < deadline" for j
      using that late [of j] by (cases "j = 0") auto
    from False less.prems show ?thesis
      by (subst (asm) poll_guarded)
        (auto simp: assms(1) never split: option.splits if_splits intro!: exI [of _ 0])
  qed
qed

text \<open>
  If the guard never fires and the answer is ready from some time on, at least a tick before the
  deadline, the poll succeeds, less than a tick later.
\<close>

lemma poll_succeeds:
  assumes "\<And>v. guard v = None" "\<And>v. t0 \<le> now v \<Longrightarrow> ready v" "now w \<le> t0" "t0 + tick < deadline"
  shows "\<exists>w'. poll deadline (guarded_check guard ready) w = (Inr (), w') \<and> now w' < t0 + tick"
  using assms(3)
proof (induction "nat (t0 - now w)" arbitrary: w rule: less_induct)
  case less
  have nd: "\<not> deadline \<le> now w + tick" using less.prems assms(4) by simp
  show ?case
  proof (cases "ready w")
    case True
    with less.prems assms(1) show ?thesis by (subst poll_guarded) (simp add: tick_def)
  next
    case False
    let ?w = "advance (now w + tick) w"
    have now: "now ?w = now w + tick" by (simp add: tick_def)
    have eq: "poll deadline (guarded_check guard ready) w = poll deadline (guarded_check guard ready) ?w"
      using False nd assms(1) by (subst poll_guarded) simp
    show ?thesis
    proof (cases "now ?w \<le> t0")
      case True
      then have "nat (t0 - now ?w) < nat (t0 - now w)" using now by (simp add: tick_def)
      from less.hyps [OF this True] show ?thesis by (simp add: eq)
    next
      case False
      then have "t0 \<le> now ?w" by linarith
      then have "ready ?w" by (rule assms(2))
      then have "poll deadline (guarded_check guard ready) ?w = (Inr (), ?w)"
        using assms(1) by (subst poll_guarded) simp
      moreover have "now ?w < t0 + tick"
        using less.prems False assms(2) [of w] \<open>\<not> ready w\<close> now by (cases "t0 \<le> now w") auto
      ultimately show ?thesis by (simp add: eq)
    qed
  qed
qed

text \<open>
  C29: \<open>waitPDReady\<close> always returns, by the deadline at the latest. It reports success only when
  PD has just answered with a cluster id other than 0 and the guard has just passed; it fails
  with the guard's own error, or because the deadline has come.
\<close>

theorem waitPDReady_correct:
  "(case waitPDReady h deadline url guard w of (r, w') \<Rightarrow>
      now w \<le> now w' \<and> now w' \<le> max (now w) deadline \<and>
      (case r of
        Inr _ \<Rightarrow> guard w' = None \<and> pd_ready h url w'
      | Inl e \<Rightarrow> guard w' = Some e \<or> e = deadline_exceeded \<and> deadline \<le> now w'))"
  unfolding waits_are_polls
  by (cases "poll deadline (guarded_check guard (pd_ready h url)) w") (simp add: poll_outcome)

text \<open>What PD answers for stores with the given ids and states.\<close>

definition store_json :: "nat \<times> string \<Rightarrow> json" where
  "store_json s = JObject [(''store'', JObject [(''id'', JNumber (itoa (int (fst s)))), (''state_name'', JString (snd s))])]"

definition stores_body :: "(nat \<times> string) list \<Rightarrow> string" where
  "stores_body ss = marshalIndent
    (JObject [(''count'', JNumber (itoa (int (length ss)))), (''stores'', JArray (map store_json ss))])"

lemma lower_names:
  "toLower ''id'' = ''id''" "toLower ''state_name'' = ''state_name''" "toLower ''store'' = ''store''"
  "toLower ''count'' = ''count''" "toLower ''stores'' = ''stores''"
  by code_simp+

lemma decode_store_json:
  "fst s < 2 ^ 64 \<Longrightarrow> decode_store (store_json s) = Some \<lparr>st_ID = fst s, st_StateName = snd s\<rparr>"
  using parse_uint64_itoa [of "int (fst s)"]
  by (simp add: decode_store_def store_json_def wrapped_store_field_def store_field_def lower_names Let_def)

lemma decode_all_stores:
  "(\<And>s. s \<in> set ss \<Longrightarrow> fst s < 2 ^ 64) \<Longrightarrow>
    decode_all decode_store (map store_json ss) = Some (map (\<lambda>s. \<lparr>st_ID = fst s, st_StateName = snd s\<rparr>) ss)"
  by (induction ss) (simp_all add: decode_store_json)

lemma stores_up_answer:
  assumes "http_get h (url @ ''/pd/api/v1/stores'') (now w) = HttpResponse 200 st (stores_body ss)"
    and "\<And>s. s \<in> set ss \<Longrightarrow> fst s < 2 ^ 64" "length ss < 2 ^ 63"
  shows "stores_up h url want w \<longleftrightarrow> want \<le> int (length (filter (\<lambda>s. snd s = ''Up'') ss))"
proof -
  let ?v = "JObject [(''count'', JNumber (itoa (int (length ss)))), (''stores'', JArray (map store_json ss))]"
  have "json_ok ?v" by (auto simp: itoa_number_ok store_json_def)
  then have "unmarshal (stores_body ss) = Some ?v" unfolding stores_body_def by (rule unmarshal_marshal)
  moreover have "atoi (itoa (int (length ss))) = Some (int (length ss))"
    using assms(3) by (intro atoi_itoa) (simp_all flip: of_nat_less_numeral_iff)
  then have "decode_stores ?v = Some \<lparr>ps_Count = int (length ss),
      ps_Stores = map (\<lambda>s. \<lparr>st_ID = fst s, st_StateName = snd s\<rparr>) ss\<rparr>"
    using decode_all_stores [OF assms(2)]
    by (simp add: decode_stores_def stores_field_def lower_names Let_def)
  ultimately have "getJSON h (url @ ''/pd/api/v1/stores'') decode_stores w = Inr \<lparr>ps_Count = int (length ss),
      ps_Stores = map (\<lambda>s. \<lparr>st_ID = fst s, st_StateName = snd s\<rparr>) ss\<rparr>"
    using assms(1) by (simp add: getJSON_def)
  then show ?thesis by (simp add: stores_up_def filter_map comp_def)
qed

text \<open>PD's answers over time: none, or the stores with their states.\<close>

definition pd_answers :: "host \<Rightarrow> string \<Rightarrow> (int \<Rightarrow> (nat \<times> string) list option) \<Rightarrow> bool" where
  "pd_answers h url answer \<longleftrightarrow>
    (\<forall>t. case answer t of
        None \<Rightarrow> (\<exists>e. http_get h (url @ ''/pd/api/v1/stores'') t = HttpError e)
      | Some ss \<Rightarrow> (\<exists>st. http_get h (url @ ''/pd/api/v1/stores'') t = HttpResponse 200 st (stores_body ss)) \<and>
          (\<forall>s \<in> set ss. fst s < 2 ^ 64) \<and> length ss < 2 ^ 63)"

definition enough_up :: "int \<Rightarrow> (nat \<times> string) list option \<Rightarrow> bool" where
  "enough_up want a \<longleftrightarrow> (case a of None \<Rightarrow> False | Some ss \<Rightarrow> want \<le> int (length (filter (\<lambda>s. snd s = ''Up'') ss)))"

lemma stores_up_time:
  assumes "pd_answers h url answer"
  shows "stores_up h url want v \<longleftrightarrow> enough_up want (answer (now v))"
proof (cases "answer (now v)")
  note given = assms [unfolded pd_answers_def, THEN spec, of "now v"]
  case None
  from given [unfolded None option.case] obtain e where
    "http_get h (url @ ''/pd/api/v1/stores'') (now v) = HttpError e" ..
  then have "\<not> stores_up h url want v"
    by (simp only: stores_up_def getJSON_def http_outcome.case sum.case not_False_eq_True)
  with None show ?thesis by (simp add: enough_up_def)
next
  note given = assms [unfolded pd_answers_def, THEN spec, of "now v"]
  case (Some ss)
  from given [unfolded Some option.case] obtain st where
    st: "http_get h (url @ ''/pd/api/v1/stores'') (now v) = HttpResponse 200 st (stores_body ss)"
    and ok: "\<forall>s \<in> set ss. fst s < 2 ^ 64" "length ss < 2 ^ 63" by blast
  from stores_up_answer [OF st _ ok(2)] ok(1) Some show ?thesis by (simp add: enough_up_def)
qed


text \<open>PD answers after a second, with one store of two down until the third second.\<close>

definition late_stores :: "int \<Rightarrow> (nat \<times> string) list option" where
  "late_stores t =
    (if t < second then None else Some [(1, ''Up''), (4, if t < 3 * second then ''Down'' else ''Up'')])"

definition late_pd :: host where
  "late_pd = example_host\<lparr>http_get := \<lambda>url t.
     case late_stores t of None \<Rightarrow> HttpError [] | Some ss \<Rightarrow> HttpResponse 200 [] (stores_body ss)\<rparr>"

lemma late_pd_answers: "pd_answers late_pd [] late_stores"
  unfolding pd_answers_def by (auto simp: late_pd_def late_stores_def)

lemma late_enough: "enough_up 2 (late_stores t) \<longleftrightarrow> 3 * second \<le> t"
  by (simp add: enough_up_def late_stores_def second_def)


text \<open>
  C31: no slow start is missed. If no server dies, and from a time at least 100ms before the
  deadline on PD answers that it is ready, \<open>waitPDReady\<close> succeeds, less than 100ms after it.
\<close>

theorem waitPDReady_live:
  assumes "\<And>v. guard v = None" "\<And>v. t0 \<le> now v \<Longrightarrow> pd_ready h url v" "now w \<le> t0" "t0 + tick < deadline"
  shows "\<exists>w'. waitPDReady h deadline url guard w = (Inr (), w') \<and> now w' < t0 + tick"
  unfolding waits_are_polls by (rule poll_succeeds [OF assms])

definition members_body :: string where
  "members_body = marshalIndent (JObject [(''header'', JObject [(''cluster_id'', JNumber (itoa 7))])])"

definition slow_pd :: host where
  "slow_pd = example_host\<lparr>http_get := \<lambda>url t.
     if t < 5 * second then HttpError [] else HttpResponse 200 [] members_body\<rparr>"

lemma decode_members_body: "\<exists>v. unmarshal members_body = Some v \<and> decode_members v = Some 7"
proof -
  let ?v = "JObject [(''header'', JObject [(''cluster_id'', JNumber (itoa 7))])]"
  have "toLower ''cluster_id'' = ''cluster_id''" "toLower ''header'' = ''header''" by code_simp+
  moreover have "parse_uint64 (itoa 7) = Some 7" using parse_uint64_itoa [of 7] by simp
  ultimately have "decode_members ?v = Some 7"
    by (simp add: decode_members_def members_field_def header_field_def)
  moreover have "unmarshal members_body = Some ?v"
    unfolding members_body_def by (rule unmarshal_marshal) (simp add: itoa_number_ok)
  ultimately show ?thesis by blast
qed

theorem waitPDReady_live_witness:
  "\<exists>w'. waitPDReady slow_pd (120 * second) [] (\<lambda>_. None) example_world = (Inr (), w') \<and>
    now w' < 5 * second + tick"
proof (rule waitPDReady_live)
  show "pd_ready slow_pd [] v" if "5 * second \<le> now v" for v
  proof -
    from that have "http_get slow_pd ([] @ ''/pd/api/v1/members'') (now v) = HttpResponse 200 [] members_body"
      by (simp add: slow_pd_def)
    with decode_members_body show ?thesis unfolding pd_ready_def getJSON_def by auto
  qed
qed (simp_all add: example_world_def tick_def second_def)

subsection \<open>Command lines\<close>

text \<open>A server shows its arguments: what one of them contains, the command line contains.\<close>

lemma contains_in_join: "a \<in> set as \<Longrightarrow> contains a s \<Longrightarrow> contains (join sep as) s"
proof (induction as)
  case Nil
  then show ?case by simp
next
  case (Cons b as)
  show ?case
  proof (cases "as = []")
    case True
    with Cons.prems show ?thesis by simp
  next
    case False
    show ?thesis
    proof (cases "a = b")
      case True
      with False Cons.prems(2) contains_mono [of a s "[]" "sep @ join sep as"] show ?thesis by (simp add: join_Cons)
    next
      case ab: False
      with Cons have "contains (join sep as) s" by simp
      with False contains_mono [of "join sep as" s "b @ sep" "[]"] show ?thesis by (simp add: join_Cons)
    qed
  qed
qed

lemma trim_right_keep: "s \<noteq> [] \<Longrightarrow> \<not> f (last s) \<Longrightarrow> trim_right f (s @ t) = s @ trim_right f t"
  by (cases s rule: rev_cases) (auto simp: trim_right_def dropWhile_append dest: dropWhile_eq_Nil_conv [THEN iffD1])

lemma shown_contains:
  assumes "a \<in> set (argv q)" "contains a s" "CHR 0x00 \<notin> set s"
  shows "contains (shown True q) s"
proof (cases "s = []")
  case True
  then show ?thesis using contains_appendI [of "[]" "[]" "shown True q"] by simp
next
  case False
  from assms(1) obtain bs cs where "argv q = bs @ a # cs" by (auto dest: split_list)
  moreover from assms(2) obtain x y where "a = x @ s @ y" by (auto simp: contains_iff)
  ultimately have "raw_cmdline q = ((concat (map (\<lambda>a. a @ [CHR 0x00]) bs) @ x) @ s) @
      y @ CHR 0x00 # concat (map (\<lambda>a. a @ [CHR 0x00]) cs)"
    by (simp add: raw_cmdline_def)
  then obtain u v where raw: "raw_cmdline q = (u @ s) @ v" by blast
  have "last s \<noteq> CHR 0x00" using assms(3) False last_in_set by metis
  then have "trim_right (\<lambda>c. c = CHR 0x00) (raw_cmdline q) = (u @ s) @ trim_right (\<lambda>c. c = CHR 0x00) v"
    unfolding raw using False by (intro trim_right_keep) auto
  moreover have "replace_char (CHR 0x00) (CHR '' '') s = s"
    using assms(3) by (auto simp: replace_char_def intro: map_idI)
  ultimately show ?thesis by (auto simp: shown_def replace_char_def contains_iff)
qed

end
