(* ===== verification/Cluster.thy ===== *)
theory Cluster
  imports Data_Directories Ports Toml Servers Binaries
begin

text \<open>
  \<^verbatim>\<open>embedded_tikv.go\<close>: the life of one cluster. \<open>Cluster\<close> is the struct without its mutex (each
  exported method runs under it from beginning to end, so the methods are the atomic steps) and
  without the HTTP client, whose answers are \<open>http_get\<close> of the host. A method takes the handle and
  the world and returns both updated, also when it fails: what a failed start leaves behind is
  part of its meaning.

  Three things the code gets from libraries are the record \<open>env\<close>: the decoders of a download,
  the TOML encoder, and the text of a time.
\<close>

record env =
  env_codecs :: codecs
  env_toml :: "settings \<Rightarrow> string result"
  env_time :: "int \<Rightarrow> string"

record Cluster =
  cl_config :: Config
  cl_started :: bool
  cl_dataPath :: string
  cl_ownsDataPath :: bool
  cl_binaries :: binaries
  cl_pd :: "pdInstance option"
  cl_tikvs :: "tikvInstance list"
  cl_record :: "clusterRecord option"

type_synonym 'a cluster_io = "(Cluster \<times> world, 'a) action"

text \<open>A call that does not look at the handle.\<close>

definition call :: "'a io \<Rightarrow> 'a cluster_io" where
  "call m s = (case m (snd s) of (r, w) \<Rightarrow> (r, (fst s, w)))"

subsection \<open>Constants and error texts\<close>

definition ErrClusterAlreadyStarted :: go_error where
  "ErrClusterAlreadyStarted = ''embedded-tikv: cluster has already started''"

definition ErrClusterNotStarted :: go_error where
  "ErrClusterNotStarted = ''embedded-tikv: cluster has not been started''"

definition startAttempts :: nat where "startAttempts = 3"

definition shutdownTimeout :: int where "shutdownTimeout = 10 * second"

definition bad_count :: "int \<Rightarrow> go_error" where
  "bad_count n = ''embedded-tikv: TiKVCount must be at least 1, got '' @ itoa n"

definition did_not_start :: "go_error \<Rightarrow> go_error" where
  "did_not_start e = ''embedded-tikv: cluster did not start after '' @ itoa (int startAttempts) @ '' attempts: '' @ e"

definition create_error :: "string \<Rightarrow> go_error \<Rightarrow> go_error" where
  "create_error dir e = ''embedded-tikv: unable to create '' @ dir @ '': '' @ e"

definition data_dir_error :: "string \<Rightarrow> go_error \<Rightarrow> go_error" where
  "data_dir_error dir e = ''embedded-tikv: unable to create data directory '' @ dir @ '': '' @ e"

definition clear_error :: "string \<Rightarrow> go_error \<Rightarrow> go_error" where
  "clear_error name e = ''embedded-tikv: unable to clear '' @ name @ '': '' @ e"

definition config_error :: "string \<Rightarrow> go_error \<Rightarrow> go_error" where
  "config_error path e = ''embedded-tikv: unable to write config '' @ path @ '': '' @ e"

definition pd_not_ready :: string where "pd_not_ready = ''pd did not become ready''"

definition stores_not_up :: string where "stores_not_up = ''tikv stores did not come up''"

subsection \<open>Looking at the cluster\<close>

definition New :: "Config list \<Rightarrow> Cluster" where
  "New config =
    \<lparr>cl_config = (case config of [] \<Rightarrow> DefaultConfig | c # _ \<Rightarrow> c), cl_started = False, cl_dataPath = [],
     cl_ownsDataPath = False, cl_binaries = \<lparr>bin_pd = [], bin_tikv = []\<rparr>, cl_pd = None, cl_tikvs = [],
     cl_record = None\<rparr>"

text \<open>\<open>None\<close> is a nil pointer.\<close>

definition pd_process :: "Cluster \<Rightarrow> process option" where
  "pd_process c = (case cl_pd c of None \<Rightarrow> None | Some pd \<Rightarrow> pd_proc pd)"

definition processes :: "Cluster \<Rightarrow> process list" where
  "processes c =
    (case pd_process c of None \<Rightarrow> [] | Some p \<Rightarrow> [p]) @ List.map_filter kv_proc (cl_tikvs c)"

definition died_error :: "host \<Rightarrow> process \<Rightarrow> world \<Rightarrow> go_error" where
  "died_error h p w = p_name p @ '' exited during startup: '' @ exitReason h p @ [CHR 0x0A] @ ''--- '' @
     p_name p @ '' output ---'' @ [CHR 0x0A] @ process_logTail h (Some p) w"

definition aliveGuard :: "host \<Rightarrow> Cluster \<Rightarrow> world \<Rightarrow> go_error option" where
  "aliveGuard h c w =
    (case find (\<lambda>p. exited p w) (processes c) of None \<Rightarrow> None | Some p \<Rightarrow> Some (died_error h p w))"

definition quoted_tail :: "host \<Rightarrow> Cluster \<Rightarrow> world \<Rightarrow> string" where
  "quoted_tail h c w =
    (if processes c = [] then []
     else (let p = last (processes c)
           in [CHR 0x0A] @ ''--- '' @ p_name p @ '' output ---'' @ [CHR 0x0A] @ process_logTail h (Some p) w))"

definition startupError :: "host \<Rightarrow> string \<Rightarrow> Cluster \<Rightarrow> world \<Rightarrow> go_error \<Rightarrow> go_error" where
  "startupError h what c w e =
    (if contains e ''--- '' then ''embedded-tikv: '' @ what @ '': '' @ e
     else ''embedded-tikv: '' @ what @ '': '' @ e @ quoted_tail h c w)"

definition isPortConflict :: "go_error \<Rightarrow> bool" where
  "isPortConflict e =
    (let message = toLower e
     in contains message ''address already in use'' \<or> contains message ''address in use'' \<or>
        contains message ''addrinuse'')"

definition watchdogCleanupPaths :: "Cluster \<Rightarrow> watchdogCleanup" where
  "watchdogCleanupPaths c =
    \<lparr>wc_dataPath = (if cl_ownsDataPath c then cl_dataPath c else []),
     wc_recordPath = (case cl_record c of None \<Rightarrow> [] | Some r \<Rightarrow> rec_path r),
     wc_lockPath = (case cl_record c of None \<Rightarrow> [] | Some r \<Rightarrow> lockPathFor (rec_path r))\<rparr>"

definition Endpoints :: "Cluster \<Rightarrow> string list" where
  "Endpoints c = (case cl_pd c of None \<Rightarrow> [] | Some pd \<Rightarrow> [endpoint pd])"

definition ClientURLs :: "Cluster \<Rightarrow> string list" where
  "ClientURLs c = (case cl_pd c of None \<Rightarrow> [] | Some pd \<Rightarrow> [clientURL pd])"

definition StoreAddrs :: "Cluster \<Rightarrow> string list" where
  "StoreAddrs c = map addr (cl_tikvs c)"

definition cluster_DataPath :: "Cluster \<Rightarrow> string" where
  "cluster_DataPath c = cl_dataPath c"

subsection \<open>The data directory and the configuration files\<close>

text \<open>The path of the data directory is chosen once, and kept by the attempts that follow.\<close>

definition choose_dataPath :: "host \<Rightarrow> string \<Rightarrow> Cluster \<Rightarrow> Cluster" where
  "choose_dataPath h i c =
    (if cl_dataPath c \<noteq> [] then c
     else if cfg_dataPath (cl_config c) \<noteq> []
     then c\<lparr>cl_dataPath := cfg_dataPath (cl_config c), cl_ownsDataPath := False\<rparr>
     else c\<lparr>cl_dataPath := defaultDataDir h i, cl_ownsDataPath := True\<rparr>)"

definition server_names :: "int \<Rightarrow> string list" where
  "server_names n = ''pd'' # map (\<lambda>i. ''tikv-'' @ itoa (int i)) [0..<nat n]"

definition prepareDataPath :: "host \<Rightarrow> string \<Rightarrow> unit cluster_io" where
  "prepareDataPath h i = (\<lambda>(c0, w0).
    (let c = choose_dataPath h i c0
     in seqE (call (wrapE (data_dir_error (cl_dataPath c)) (mkdirAll h (cl_dataPath c))))
          (\<lambda>_. call (forE (server_names (cfg_tikvCount (cl_config c)))
            (\<lambda>name. wrapE (clear_error name) (removeAll h (path_join [cl_dataPath c, name]))))) (c, w0)))"

definition writeConfigFile :: "host \<Rightarrow> (settings \<Rightarrow> string result) \<Rightarrow> string \<Rightarrow> settings \<Rightarrow> unit io" where
  "writeConfigFile h encode path config =
    seqE (wrapE (config_error path) (createFile h path))
      (\<lambda>_. case writeTOML encode config of
        Inl e \<Rightarrow> failE (config_error path e)
      | Inr s \<Rightarrow> wrapE (config_error path) (writeFd h path s))"

subsection \<open>Starting a server\<close>

definition add_server :: "host \<Rightarrow> string \<Rightarrow> int \<Rightarrow> string \<Rightarrow> unit cluster_io" where
  "add_server h name pid binary = (\<lambda>(c, w).
    (case addServer h name pid binary (cl_record c) w of ((r, rec), w1) \<Rightarrow> (r, (c\<lparr>cl_record := rec\<rparr>, w1))))"

text \<open>The steps the two kinds of server share: the directory, the configuration file, the process.\<close>

definition launch ::
  "host \<Rightarrow> env \<Rightarrow> Cluster \<Rightarrow> string \<Rightarrow> string \<Rightarrow> settings \<Rightarrow> string \<Rightarrow> string \<Rightarrow> string list \<Rightarrow> string \<Rightarrow> process io" where
  "launch h v c dir configPath config name binary args logPath =
    seqE (wrapE (create_error dir) (mkdirAll h dir))
      (\<lambda>_. seqE (writeConfigFile h (env_toml v) configPath config)
        (\<lambda>_. startProcess h name binary args logPath (cfg_logger (cl_config c)) (watchdogCleanupPaths c)))"

text \<open>\<open>put\<close> enters the new process in the handle; the record comes last.\<close>

definition register ::
  "host \<Rightarrow> string \<Rightarrow> string \<Rightarrow> (process \<Rightarrow> Cluster \<Rightarrow> Cluster) \<Rightarrow> process io \<Rightarrow> unit cluster_io" where
  "register h name binary put l = (\<lambda>(c, w).
    (case l w of
      (Inl e, w1) \<Rightarrow> (Inl e, (c, w1))
    | (Inr p, w1) \<Rightarrow> add_server h name (p_pid p) binary (put p c, w1)))"

definition new_pd :: "Cluster \<Rightarrow> int \<Rightarrow> int \<Rightarrow> pdInstance" where
  "new_pd c peerPort clientPort =
    (let dir = path_join [cl_dataPath c, ''pd'']
     in \<lparr>pd_name = ''pd-0'', pd_host = cfg_host (cl_config c), pd_dir = dir,
         pd_configPath = path_join [dir, ''pd.toml''], pd_logPath = path_join [cl_dataPath c, ''pd.log''],
         pd_peerPort = peerPort, pd_clientPort = clientPort, pd_proc = None\<rparr>)"

definition startPD :: "host \<Rightarrow> env \<Rightarrow> int \<Rightarrow> int \<Rightarrow> unit cluster_io" where
  "startPD h v peerPort clientPort = (\<lambda>(c, w).
    (let pd = new_pd c peerPort clientPort; binary = bin_pd (cl_binaries c)
     in register h (pd_name pd) binary (\<lambda>p c. c\<lparr>cl_pd := Some (pd\<lparr>pd_proc := Some p\<rparr>)\<rparr>)
          (launch h v c (pd_dir pd) (pd_configPath pd)
            (mergeConfig (defaultPDConfig (cfg_tikvCount (cl_config c))) (cfg_pdConfig (cl_config c)))
            (pd_name pd) binary (pd_args pd) (pd_logPath pd)) (c, w)))"

text \<open>\<open>c.pd.clientURL()\<close>; \<open>c.pd\<close> is not nil where the code asks for it.\<close>

definition pd_url :: "Cluster \<Rightarrow> string" where
  "pd_url c = (case cl_pd c of None \<Rightarrow> [] | Some pd \<Rightarrow> clientURL pd)"

definition new_tikv :: "Cluster \<Rightarrow> nat \<Rightarrow> int \<Rightarrow> int \<Rightarrow> tikvInstance" where
  "new_tikv c i port statusPort =
    (let name = ''tikv-'' @ itoa (int i); dir = path_join [cl_dataPath c, name]
     in \<lparr>kv_name = name, kv_host = cfg_host (cl_config c), kv_dir = dir,
         kv_configPath = path_join [dir, ''tikv.toml''], kv_logPath = path_join [cl_dataPath c, name @ ''.log''],
         kv_port = port, kv_statusPort = statusPort, kv_proc = None\<rparr>)"

definition startTiKV :: "host \<Rightarrow> env \<Rightarrow> nat \<Rightarrow> int \<Rightarrow> int \<Rightarrow> unit cluster_io" where
  "startTiKV h v i port statusPort = (\<lambda>(c, w).
    (let tikv = new_tikv c i port statusPort; binary = bin_tikv (cl_binaries c)
     in register h (kv_name tikv) binary (\<lambda>p c. c\<lparr>cl_tikvs := cl_tikvs c @ [tikv\<lparr>kv_proc := Some p\<rparr>]\<rparr>)
          (launch h v c (kv_dir tikv) (kv_configPath tikv)
            (mergeConfig defaultTiKVConfig (cfg_tikvConfig (cl_config c)))
            (kv_name tikv) binary (tikv_args [pd_url c] tikv) (kv_logPath tikv)) (c, w)))"

subsection \<open>One attempt\<close>

definition claim_record :: "host \<Rightarrow> env \<Rightarrow> unit cluster_io" where
  "claim_record h v = (\<lambda>(c, w).
    (case openRecord h (env_time v (now w)) (cl_config c) w of
      ((_, Some e), w1) \<Rightarrow> (Inl e, (c, w1))
    | ((r, None), w1) \<Rightarrow> (Inr (), (c\<lparr>cl_record := r\<rparr>, w1))))"

definition record_id :: "Cluster \<Rightarrow> string" where
  "record_id c = (case cl_record c of None \<Rightarrow> [] | Some r \<Rightarrow> rec_id r)"

definition record_dataPath :: "host \<Rightarrow> unit cluster_io" where
  "record_dataPath h = (\<lambda>(c, w).
    (case setDataPath h (cl_dataPath c) (cl_ownsDataPath c) (cl_record c) w of
      ((r, rec), w1) \<Rightarrow> (r, (c\<lparr>cl_record := rec\<rparr>, w1))))"

text \<open>The two waits, with the guard over the processes there are when the wait begins.\<close>

definition wait_pd :: "host \<Rightarrow> int \<Rightarrow> unit cluster_io" where
  "wait_pd h deadline = (\<lambda>(c, w).
    (case waitPDReady h deadline (pd_url c) (aliveGuard h c) w of
      (Inr _, w1) \<Rightarrow> (Inr (), (c, w1)) | (Inl e, w1) \<Rightarrow> (Inl (startupError h pd_not_ready c w1 e), (c, w1))))"

definition wait_stores :: "host \<Rightarrow> int \<Rightarrow> unit cluster_io" where
  "wait_stores h deadline = (\<lambda>(c, w).
    (case waitStoresUp h deadline (pd_url c) (cfg_tikvCount (cl_config c)) (aliveGuard h c) w of
      (Inr _, w1) \<Rightarrow> (Inr (), (c, w1)) | (Inl e, w1) \<Rightarrow> (Inl (startupError h stores_not_up c w1 e), (c, w1))))"

definition start_servers :: "host \<Rightarrow> env \<Rightarrow> int list \<Rightarrow> unit cluster_io" where
  "start_servers h v ports = (\<lambda>(c, w).
    (let deadline = now w + cfg_startTimeout (cl_config c)
     in seqE (startPD h v (ports ! 0) (ports ! 1))
          (\<lambda>_. seqE (wait_pd h deadline)
            (\<lambda>_. seqE (forE [0..<nat (cfg_tikvCount (cl_config c))]
                (\<lambda>i. startTiKV h v i (ports ! (2 + 2 * i)) (ports ! (3 + 2 * i))))
              (\<lambda>_. wait_stores h deadline))) (c, w)))"

definition startOnce :: "host \<Rightarrow> env \<Rightarrow> unit cluster_io" where
  "startOnce h v =
    seqE (claim_record h v)
      (\<lambda>_ (c, w). seqE (prepareDataPath h (record_id c))
        (\<lambda>_. seqE (record_dataPath h)
          (\<lambda>_. seqE (call (freePorts h (cfg_host (cl_config c)) (nat (2 + 2 * cfg_tikvCount (cl_config c)))))
            (start_servers h v))) (c, w))"

subsection \<open>Tearing down\<close>

text \<open>
  The stores are stopped in parallel, one goroutine per store running \<open>stop\<close>. Of all their interleavings this is
  the one in which they move together: all signal at one instant, all wait over the same interval, and those
  whose server outlives it kill at one instant and wait again. \<open>stop_signals\<close> and \<open>wait_all\<close> are the halves of such a
  round, over the processes that are still being stopped. \<open>Parallel_Stop\<close> has the others.
\<close>

definition stop_signal :: "host \<Rightarrow> signal \<Rightarrow> (string \<Rightarrow> errno \<Rightarrow> go_error) \<Rightarrow> process \<Rightarrow> world \<Rightarrow> go_error option \<times> world" where
  "stop_signal h sig err p w =
    (case signalGroup h (p_pid p) sig w of
      (Inr _, w1) \<Rightarrow> (None, w1)
    | (Inl e, w1) \<Rightarrow> (if exited p w1 then None else Some (err (p_name p) e), w1))"

fun stop_signals :: "host \<Rightarrow> signal \<Rightarrow> (string \<Rightarrow> errno \<Rightarrow> go_error) \<Rightarrow> process list \<Rightarrow> world \<Rightarrow>
    (process list \<times> go_error list) \<times> world" where
  "stop_signals h sig err [] w = (([], []), w)"
| "stop_signals h sig err (p # ps) w =
    (case stop_signal h sig err p w of
      (r, w1) \<Rightarrow> (case stop_signals h sig err ps w1 of
        ((qs, es), w2) \<Rightarrow> (case r of None \<Rightarrow> ((p # qs, es), w2) | Some e \<Rightarrow> ((qs, e # es), w2))))"

definition wait_all :: "process list \<Rightarrow> int \<Rightarrow> world \<Rightarrow> process list \<times> world" where
  "wait_all ps timeout w =
    (let holders = filter (\<lambda>q. list_ex (\<lambda>p. waited_for p q) ps) (procs w);
         w1 = (if holders = [] then w
               else case last_exit holders of
                 Some e \<Rightarrow> advance (min e (now w + timeout)) w | None \<Rightarrow> advance (now w + timeout) w)
     in (filter (\<lambda>p. \<not> exited p w1) ps, w1))"

definition stop_all :: "host \<Rightarrow> process list \<Rightarrow> int \<Rightarrow> world \<Rightarrow> go_error list \<times> world" where
  "stop_all h ps timeout w =
    (case stop_signals h SIGTERM signal_error (filter (\<lambda>p. \<not> exited p w) ps) w of
      ((ps1, es1), w1) \<Rightarrow>
        (case wait_all ps1 timeout w1 of
          (ps2, w2) \<Rightarrow>
            (case stop_signals h SIGKILL kill_error ps2 w2 of
              ((ps3, es2), w3) \<Rightarrow>
                (case wait_all ps3 timeout w3 of
                  (ps4, w4) \<Rightarrow>
                    (es1 @ es2 @ map (\<lambda>p. survived_error (p_name p)) ps4, fold standDown ps w4)))))"

definition first_error :: "go_error option \<Rightarrow> unit result \<Rightarrow> go_error option" where
  "first_error e r = (case r of Inr _ \<Rightarrow> e | Inl e' \<Rightarrow> (case e of None \<Rightarrow> Some e' | Some _ \<Rightarrow> e))"

definition stop_servers :: "host \<Rightarrow> Cluster \<Rightarrow> world \<Rightarrow> go_error option \<times> world" where
  "stop_servers h c w =
    (case stop_all h (List.map_filter kv_proc (cl_tikvs c)) shutdownTimeout w of
      (es, w1) \<Rightarrow>
        (case stop h (pd_process c) shutdownTimeout w1 of
          (r, w2) \<Rightarrow> (first_error (case es of [] \<Rightarrow> None | e # _ \<Rightarrow> Some e) r, w2)))"

definition teardown :: "host \<Rightarrow> unit cluster_io" where
  "teardown h = (\<lambda>(c, w).
    (case stop_servers h c w of
      (e1, w1) \<Rightarrow>
        (let c1 = c\<lparr>cl_tikvs := [], cl_pd := None\<rparr>;
             owned = cl_ownsDataPath c \<and> cl_dataPath c \<noteq> []
         in case (if owned then removeAll h (cl_dataPath c) w1 else (Inr (), w1)) of
           (r, w2) \<Rightarrow>
             (let c2 = (if owned then c1\<lparr>cl_dataPath := []\<rparr> else c1);
                  e2 = first_error e1 r;
                  w3 = (case e2 of Some _ \<Rightarrow> abandon (cl_record c2) w2 | None \<Rightarrow> close_record h (cl_record c2) w2)
              in (case e2 of None \<Rightarrow> Inr () | Some e \<Rightarrow> Inl e, (c2\<lparr>cl_record := None\<rparr>, w3))))))"

subsection \<open>Start and Stop\<close>

fun attempts :: "host \<Rightarrow> env \<Rightarrow> nat \<Rightarrow> go_error \<Rightarrow> unit cluster_io" where
  "attempts h v 0 lastErr s = (Inl (did_not_start lastErr), s)"
| "attempts h v (Suc n) lastErr s =
    (case startOnce h v s of
      (Inr _, (c, w)) \<Rightarrow> (Inr (), (c\<lparr>cl_started := True\<rparr>, w))
    | (Inl e, s1) \<Rightarrow>
        (case teardown h s1 of
          (_, s2) \<Rightarrow> if isPortConflict e then attempts h v n e s2 else (Inl e, s2)))"

definition sweep_orphans :: "host \<Rightarrow> Config \<Rightarrow> world \<Rightarrow> world" where
  "sweep_orphans h cfg w = (if cfg_reapOrphans cfg then snd (CleanOrphans h cfg w) else w)"

definition start :: "host \<Rightarrow> env \<Rightarrow> unit cluster_io" where
  "start h v = (\<lambda>(c, w).
    (if cl_started c then (Inl ErrClusterAlreadyStarted, (c, w))
     else if cfg_tikvCount (cl_config c) < 1 then (Inl (bad_count (cfg_tikvCount (cl_config c))), (c, w))
     else case resolveBinaries h (env_codecs v) (cl_config c) (sweep_orphans h (cl_config c) w) of
       (Inl e, w1) \<Rightarrow> (Inl e, (c, w1))
     | (Inr installed, w1) \<Rightarrow>
         attempts h v startAttempts []
           (c\<lparr>cl_binaries := installed\<rparr>, warnMissingWatchdog h (cfg_logger (cl_config c)) w1)))"

definition Start :: "host \<Rightarrow> env \<Rightarrow> unit cluster_io" where
  "Start h v = start h v"

definition Stop :: "host \<Rightarrow> unit cluster_io" where
  "Stop h = (\<lambda>(c, w).
    (if \<not> cl_started c then (Inl ErrClusterNotStarted, (c, w))
     else case teardown h (c, w) of
       (r, (c1, w1)) \<Rightarrow> (r, (c1\<lparr>cl_started := False\<rparr>, sweep_orphans h (cl_config c1) w1))))"

end
