(* ===== verification/Lifecycle.thy ===== *)
theory Lifecycle
  imports Cluster
begin

text \<open>
  The handle of a cluster through its life: what each method does to the fields of \<open>Cluster\<close>,
  the invariant between calls, and the two-state machine of the documentation that \<open>Start\<close> and
  \<open>Stop\<close> implement. The world may change in any way between two calls.
\<close>

subsection \<open>Calls and the handle\<close>

lemma seqE_call [simp]:
  "seqE (call m) f (c, w) = (case m w of (Inl e, w1) \<Rightarrow> (Inl e, (c, w1)) | (Inr a, w1) \<Rightarrow> f a (c, w1))"
  by (simp add: seqE_def call_def split: prod.split sum.split)

lemma call_eq: "call m (c, w) = (r, (c', w')) \<longleftrightarrow> m w = (r, w') \<and> c' = c"
  by (auto simp: call_def split: prod.split)

text \<open>The parts of the handle that an attempt to start does not change.\<close>

definition same_config :: "Cluster \<times> world \<Rightarrow> Cluster \<times> world \<Rightarrow> bool" where
  "same_config s s' \<longleftrightarrow>
    cl_config (fst s') = cl_config (fst s) \<and> cl_started (fst s') = cl_started (fst s) \<and>
    cl_binaries (fst s') = cl_binaries (fst s)"

interpretation config: frame same_config
  by unfold_locales (auto simp: same_config_def)

lemma same_config_call: "stays same_config (call m)"
  by (auto simp: stays_def same_config_def call_def split: prod.split)

lemma addServer_record:
  "addServer h name pid b r w = ((res, r'), w') \<Longrightarrow> (r' = None) = (r = None)"
  by (auto simp: addServer_def Let_def split: option.splits prod.splits)

lemma setDataPath_record:
  "setDataPath h p b r w = ((res, r'), w') \<Longrightarrow> (r' = None) = (r = None)"
  by (auto simp: setDataPath_def Let_def split: option.splits prod.splits)

text \<open>A server is in the handle from the moment its process exists, whatever its record says.\<close>

lemma register_cases:
  assumes "register h name binary put l (c, w) = (r, (c', w'))"
  obtains (failed) e where "l w = (Inl e, w')" "r = Inl e" "c' = c"
  | (launched) p w1 rec where "l w = (Inr p, w1)"
      "addServer h name (p_pid p) binary (cl_record (put p c)) w1 = ((r, rec), w')"
      "c' = (put p c)\<lparr>cl_record := rec\<rparr>" "(rec = None) = (cl_record (put p c) = None)"
proof -
  obtain q w1 where l: "l w = (q, w1)" by fastforce
  show thesis
  proof (cases q)
    case (Inl e)
    with assms l have "r = Inl e" "c' = c" "w' = w1" by (simp_all add: register_def)
    with l Inl show ?thesis by (intro failed) simp_all
  next
    case (Inr p)
    obtain r2 rec w2 where a: "addServer h name (p_pid p) binary (cl_record (put p c)) w1 = ((r2, rec), w2)"
      by (metis prod.exhaust)
    with assms l Inr have "r = r2" "w' = w2" "c' = (put p c)\<lparr>cl_record := rec\<rparr>"
      by (simp_all add: register_def add_server_def)
    with l Inr a addServer_record [OF a] show ?thesis by (intro launched [of p w1 rec]) simp_all
  qed
qed

lemma openRecord_some: "openRecord h t cfg w = ((r, None), w') \<Longrightarrow> r \<noteq> None"
  by (auto simp: openRecord_def Let_def split: prod.splits sum.splits)

text \<open>The shape of the handle: which servers it has, and whether they have processes.\<close>

definition handle_ok :: "Cluster \<Rightarrow> bool" where
  "handle_ok c \<longleftrightarrow>
    (case cl_pd c of None \<Rightarrow> True | Some pd \<Rightarrow> pd_proc pd \<noteq> None) \<and>
    list_all (\<lambda>t. kv_proc t \<noteq> None) (cl_tikvs c)"

definition idle :: "Cluster \<Rightarrow> bool" where
  "idle c \<longleftrightarrow> cl_pd c = None \<and> cl_tikvs c = [] \<and> cl_record c = None"

definition grown :: "Cluster \<times> world \<Rightarrow> Cluster \<times> world \<Rightarrow> bool" where
  "grown s s' \<longleftrightarrow> same_config s s' \<and> (handle_ok (fst s) \<longrightarrow> handle_ok (fst s')) \<and>
    (cl_record (fst s') = None) = (cl_record (fst s) = None) \<and>
    (cl_pd (fst s) \<noteq> None \<longrightarrow> cl_pd (fst s') \<noteq> None)"

interpretation growing: frame grown
  by unfold_locales (auto simp: grown_def same_config_def)

lemma grown_handle: "grown s (c, w) = grown s (c, w')"
  by (simp add: grown_def same_config_def)

lemma grown_register:
  assumes "\<And>p. same_config (c, w) (put p c, w)" "\<And>p. handle_ok c \<Longrightarrow> handle_ok (put p c)"
    "\<And>p. cl_record (put p c) = cl_record c" "\<And>p. cl_pd c \<noteq> None \<Longrightarrow> cl_pd (put p c) \<noteq> None"
  shows "grown (c, w) (snd (register h name binary put l (c, w)))"
proof -
  obtain r c' w' where m: "register h name binary put l (c, w) = (r, (c', w'))" by (metis prod.exhaust)
  then show ?thesis
  proof (cases rule: register_cases)
    case (launched p w1 rec)
    with m assms(1,3,4) [of p] assms(2) [of p] show ?thesis by (auto simp: grown_def same_config_def handle_ok_def)
  qed (simp add: m grown_def same_config_def)
qed

lemma grown_startPD: "stays grown (startPD h v a b)"
  by (auto simp: stays_def startPD_def Let_def handle_ok_def same_config_def intro!: grown_register)

lemma grown_startTiKV: "stays grown (startTiKV h v i a b)"
  by (auto simp: stays_def startTiKV_def Let_def handle_ok_def same_config_def intro!: grown_register)

lemma grown_waits: "stays grown (wait_pd h d)" "stays grown (wait_stores h d)"
  by (auto simp: stays_def wait_pd_def wait_stores_def grown_def same_config_def split: prod.splits sum.splits)

lemma grown_record_dataPath: "stays grown (record_dataPath h)"
  by (auto simp: stays_def record_dataPath_def grown_def same_config_def handle_ok_def
      dest!: setDataPath_record split: prod.splits)

lemma grown_prepareDataPath: "stays grown (prepareDataPath h i)"
  by (auto simp: stays_def prepareDataPath_def Let_def choose_dataPath_def grown_def same_config_def handle_ok_def
      call_def split: prod.splits sum.splits)

lemma grown_call: "stays grown (call m)"
  by (auto simp: stays_def grown_def same_config_def call_def split: prod.split)

lemma grown_start_servers: "stays grown (start_servers h v ports)"
proof -
  have "stays grown (\<lambda>s. seqE (startPD h v (ports ! 0) (ports ! 1))
          (\<lambda>_. seqE (wait_pd h d)
            (\<lambda>_. seqE (forE [0..<n] (\<lambda>i. startTiKV h v i (ports ! (2 + 2 * i)) (ports ! (3 + 2 * i))))
              (\<lambda>_. wait_stores h d))) s)" for d n
    by (intro growing.stays_seqE growing.stays_forE grown_startPD grown_waits grown_startTiKV)
  then show ?thesis by (auto simp: stays_def start_servers_def Let_def)
qed


text \<open>What follows the claim of a record.\<close>

definition after_claim :: "host \<Rightarrow> env \<Rightarrow> unit cluster_io" where
  "after_claim h v = (\<lambda>(c, w).
    seqE (prepareDataPath h (record_id c))
      (\<lambda>_. seqE (record_dataPath h)
        (\<lambda>_. seqE (call (freePorts h (cfg_host (cl_config c)) (nat (2 + 2 * cfg_tikvCount (cl_config c)))))
          (start_servers h v))) (c, w))"

lemma startOnce_eq: "startOnce h v = seqE (claim_record h v) (\<lambda>_. after_claim h v)"
  by (simp add: startOnce_def after_claim_def)

lemma grown_after_claim: "stays grown (after_claim h v)"
proof -
  have "stays grown (\<lambda>s. seqE (prepareDataPath h i) (\<lambda>_. seqE (record_dataPath h)
      (\<lambda>_. seqE (call m) (start_servers h v))) s)" for i m
    by (intro growing.stays_seqE grown_prepareDataPath grown_record_dataPath grown_call grown_start_servers)
  then show ?thesis by (auto simp: stays_def after_claim_def)
qed

lemma startOnce_cases:
  assumes "startOnce h v (c, w) = (r, (c', w'))"
  obtains (failed) e rec where "openRecord h (env_time v (now w)) (cl_config c) w = ((rec, Some e), w')" "r = Inl e"
      "c' = c"
  | (claimed) rc w1 where "openRecord h (env_time v (now w)) (cl_config c) w = ((Some rc, None), w1)"
      "after_claim h v (c\<lparr>cl_record := Some rc\<rparr>, w1) = (r, (c', w'))"
proof -
  obtain rec e w1 where o: "openRecord h (env_time v (now w)) (cl_config c) w = ((rec, e), w1)"
    by (metis prod.exhaust)
  have eq: "startOnce h v (c, w) =
      (case e of Some e' \<Rightarrow> (Inl e', (c, w1)) | None \<Rightarrow> after_claim h v (c\<lparr>cl_record := rec\<rparr>, w1))"
    unfolding startOnce_eq seqE_def claim_record_def split o by (cases e) simp_all
  show thesis
  proof (cases e)
    case None
    with openRecord_some o obtain rc where "rec = Some rc" by blast
    with assms o None eq show ?thesis by (intro claimed [of rc w1]) simp_all
  next
    case (Some e')
    with assms o eq show ?thesis by (intro failed [of rec e']) simp_all
  qed
qed

subsection \<open>A successful start\<close>

lemma startTiKV_Inr:
  assumes "startTiKV h v i a b s = (Inr u, s')"
  shows "length (cl_tikvs (fst s')) = Suc (length (cl_tikvs (fst s))) \<and> cl_pd (fst s') = cl_pd (fst s)"
proof -
  obtain c w c' w' where s: "s = (c, w)" "s' = (c', w')" by (metis prod.exhaust)
  from assms show ?thesis
    unfolding s startTiKV_def Let_def split by (rule register_cases) (auto simp: s)
qed

lemma startPD_Inr:
  assumes "startPD h v a b s = (Inr u, s')"
  shows "cl_tikvs (fst s') = cl_tikvs (fst s) \<and> cl_pd (fst s') \<noteq> None"
proof -
  obtain c w c' w' where s: "s = (c, w)" "s' = (c', w')" by (metis prod.exhaust)
  from assms show ?thesis
    unfolding s startPD_def Let_def split by (rule register_cases) (auto simp: s)
qed

lemma start_tikvs_Inr:
  assumes "forE is (\<lambda>i. startTiKV h v i (f i) (g i)) s = (Inr u, s')"
  shows "length (cl_tikvs (fst s')) = length (cl_tikvs (fst s)) + length is \<and> cl_pd (fst s') = cl_pd (fst s)"
  using assms
proof (induction "is" arbitrary: s)
  case (Cons i "is")
  then obtain s1 where "startTiKV h v i (f i) (g i) s = (Inr (), s1)"
    "forE is (\<lambda>i. startTiKV h v i (f i) (g i)) s1 = (Inr u, s')"
    by (auto simp: seqE_eq_Inr)
  from startTiKV_Inr [OF this(1)] Cons.IH [OF this(2)] show ?case by simp
qed simp

text \<open>What holds of a cluster that has just started.\<close>

definition serving :: "host \<Rightarrow> Cluster \<Rightarrow> world \<Rightarrow> bool" where
  "serving h c w \<longleftrightarrow>
    cl_pd c \<noteq> None \<and> length (cl_tikvs c) = nat (cfg_tikvCount (cl_config c)) \<and>
    stores_up h (pd_url c) (cfg_tikvCount (cl_config c)) w \<and> (\<forall>p \<in> set (processes c). \<not> exited p w)"

lemma aliveGuard_None: "aliveGuard h c w = None \<longleftrightarrow> (\<forall>p \<in> set (processes c). \<not> exited p w)"
  using find_None_iff [of "\<lambda>p. exited p w" "processes c"] by (auto simp: aliveGuard_def split: option.split)


lemma wait_stores_Inr:
  assumes "wait_stores h d (c, w) = (Inr u, (c', w'))"
  shows "c' = c \<and> stores_up h (pd_url c) (cfg_tikvCount (cl_config c)) w' \<and> (\<forall>p \<in> set (processes c). \<not> exited p w')"
proof -
  obtain r w1 where p: "poll d (guarded_check (aliveGuard h c) (stores_up h (pd_url c) (cfg_tikvCount (cl_config c)))) w = (r, w1)"
    by fastforce
  with assms have "r = Inr ()" "w' = w1" "c' = c"
    by (auto simp: wait_stores_def waits_are_polls split: sum.splits)
  with poll_outcome [OF p] show ?thesis by (simp add: aliveGuard_None)
qed

lemma start_servers_Inr:
  assumes "start_servers h v ports (c, w) = (Inr u, (c', w'))" "cl_tikvs c = []"
  shows "serving h c' w'"
proof -
  let ?n = "nat (cfg_tikvCount (cl_config c))" and ?d = "now w + cfg_startTimeout (cl_config c)"
  from assms(1) obtain s1 s2 s3 where
    1: "startPD h v (ports ! 0) (ports ! 1) (c, w) = (Inr (), s1)" and
    2: "wait_pd h ?d s1 = (Inr (), s2)" and
    3: "forE [0..<?n] (\<lambda>i. startTiKV h v i (ports ! (2 + 2 * i)) (ports ! (3 + 2 * i))) s2 = (Inr (), s3)" and
    4: "wait_stores h ?d s3 = (Inr u, (c', w'))"
    by (auto simp: start_servers_def Let_def seqE_eq_Inr)
  have s12: "fst s2 = fst s1"
    using 2 by (auto simp: wait_pd_def split: prod.splits sum.splits)
  have conf: "same_config (c, w) (c', w')"
    using staysE [OF grown_start_servers assms(1)] by (simp add: grown_def)
  obtain c3 w3 where s3: "s3 = (c3, w3)" by fastforce
  note w = wait_stores_Inr [OF 4 [unfolded s3]]
  have "length (cl_tikvs c3) = ?n" "cl_pd c3 \<noteq> None"
    using start_tikvs_Inr [OF 3] startPD_Inr [OF 1] assms(2) s12 by (auto simp: s3)
  with w conf show ?thesis by (simp add: serving_def same_config_def)
qed

lemma after_claim_Inr:
  assumes "after_claim h v (c, w) = (Inr u, (c', w'))" "cl_tikvs c = []"
  shows "serving h c' w'"
proof -
  from assms(1) obtain s1 c2 w2 ports s3 where
    1: "prepareDataPath h (record_id c) (c, w) = (Inr (), s1)" and
    2: "record_dataPath h s1 = (Inr (), (c2, w2))" and
    3: "call (freePorts h (cfg_host (cl_config c)) (nat (2 + 2 * cfg_tikvCount (cl_config c)))) (c2, w2) = (Inr ports, s3)" and
    4: "start_servers h v ports s3 = (Inr u, (c', w'))"
    by (auto simp: after_claim_def seqE_eq_Inr simp del: seqE_call)
  have "cl_tikvs (fst s1) = cl_tikvs c"
    using 1 by (auto simp: prepareDataPath_def Let_def choose_dataPath_def call_def split: prod.splits sum.splits if_splits)
  moreover have "cl_tikvs c2 = cl_tikvs (fst s1)"
    using 2 by (auto simp: record_dataPath_def split: prod.splits)
  moreover obtain w3 where "s3 = (c2, w3)" using 3 by (cases s3) (simp add: call_eq)
  ultimately show ?thesis using start_servers_Inr 4 assms(2) by simp
qed

subsection \<open>Whole calls\<close>

lemma teardown_handle:
  assumes "teardown h (c, w) = (r, (c', w'))"
  shows "idle c'" "cl_config c' = cl_config c" "cl_started c' = cl_started c" "cl_ownsDataPath c' = cl_ownsDataPath c"
    "cl_dataPath c' = (if cl_ownsDataPath c then [] else cl_dataPath c)" "cl_binaries c' = cl_binaries c"
  using assms by (auto simp: teardown_def idle_def Let_def split: prod.splits if_splits)

text \<open>
  An attempt that begins with an idle handle: on success the cluster serves and has a record; the
  handle is what the invariant of the next section says.
\<close>

lemma startOnce_handle:
  assumes "startOnce h v (c, w) = (r, (c', w'))" "idle c"
  shows "same_config (c, w) (c', w') \<and> handle_ok c' \<and> (isl r \<or> serving h c' w' \<and> cl_record c' \<noteq> None)"
  using assms(1)
proof (cases rule: startOnce_cases)
  case (failed e rec)
  with assms(2) show ?thesis by (simp add: same_config_def handle_ok_def idle_def)
next
  case (claimed rc w1)
  let ?c = "c\<lparr>cl_record := Some rc\<rparr>"
  have "grown (?c, w1) (c', w')" using staysE [OF grown_after_claim claimed(2)] .
  moreover have "handle_ok ?c" using assms(2) by (simp add: handle_ok_def idle_def)
  moreover have "serving h c' w'" if "r = Inr u" for u
    using after_claim_Inr claimed(2) that assms(2) by (simp add: idle_def)
  ultimately show ?thesis by (cases r) (auto simp: grown_def same_config_def)
qed

lemma attempts_handle:
  assumes "attempts h v n e (c, w) = (r, (c', w'))" "idle c" "\<not> cl_started c"
  shows "cl_config c' = cl_config c \<and> handle_ok c' \<and>
    (case r of
      Inl _ \<Rightarrow> idle c' \<and> \<not> cl_started c'
    | Inr _ \<Rightarrow> serving h c' w' \<and> cl_record c' \<noteq> None \<and> cl_started c')"
  using assms
proof (induction n arbitrary: e c w)
  case 0
  then show ?case by (auto simp: handle_ok_def idle_def)
next
  case (Suc n)
  obtain r1 c1 w1 where 1: "startOnce h v (c, w) = (r1, (c1, w1))" by (metis prod.exhaust)
  note s1 = startOnce_handle [OF 1 Suc.prems(2)]
  show ?case
  proof (cases r1)
    case (Inr u)
    with 1 s1 Suc.prems show ?thesis
      by (auto simp: same_config_def handle_ok_def serving_def processes_def pd_process_def pd_url_def)
  next
    case (Inl e1)
    obtain r2 c2 w2 where 2: "teardown h (c1, w1) = (r2, (c2, w2))" by (metis prod.exhaust)
    note t = teardown_handle [OF 2]
    have c2: "idle c2" "\<not> cl_started c2" "cl_config c2 = cl_config c"
      using t s1 Suc.prems(3) by (simp_all add: same_config_def)
    have "attempts h v (Suc n) e (c, w) =
        (if isPortConflict e1 then attempts h v n e1 (c2, w2) else (Inl e1, (c2, w2)))"
      by (simp add: 1 Inl 2)
    with Suc.prems(1) Suc.IH [OF _ c2(1,2)] c2 show ?thesis
      by (auto simp: handle_ok_def idle_def split: if_splits)
  qed
qed


subsection \<open>The life of a handle\<close>

datatype operation = Starting | Stopping

fun perform :: "host \<Rightarrow> env \<Rightarrow> operation \<Rightarrow> unit cluster_io" where
  "perform h v Starting s = Start h v s"
| "perform h v Stopping s = Stop h s"

text \<open>
  What a program can bring a handle to: it makes one, and calls \<open>Start\<close> and \<open>Stop\<close> in any order, any
  number of times, on one goroutine or on several (the mutex makes each call one step); in between
  the rest of the machine does what it likes.
\<close>

inductive reached :: "host \<Rightarrow> env \<Rightarrow> Config list \<Rightarrow> Cluster \<times> world \<Rightarrow> bool" for h v cfg where
  reached_new: "reached h v cfg (New cfg, w)"
| reached_meanwhile: "reached h v cfg (c, w) \<Longrightarrow> reached h v cfg (c, w')"
| reached_call: "reached h v cfg s \<Longrightarrow> perform h v op s = (r, s') \<Longrightarrow> reached h v cfg s'"

definition cluster_inv :: "Cluster \<Rightarrow> bool" where
  "cluster_inv c \<longleftrightarrow>
    (if cl_started c then cl_pd c \<noteq> None \<and> length (cl_tikvs c) = nat (cfg_tikvCount (cl_config c)) \<and>
        1 \<le> cfg_tikvCount (cl_config c) \<and> cl_record c \<noteq> None \<and> handle_ok c
     else idle c)"

lemma Start_cases:
  assumes "Start h v (c, w) = (r, (c', w'))"
  obtains (running) "cl_started c" "r = Inl ErrClusterAlreadyStarted" "c' = c" "w' = w"
  | (refused) e where "\<not> cl_started c" "r = Inl e" "c' = c"
  | (tried) b w1 where "\<not> cl_started c" "1 \<le> cfg_tikvCount (cl_config c)"
      "attempts h v startAttempts [] (c\<lparr>cl_binaries := b\<rparr>, w1) = (r, (c', w'))"
  using assms
  by (auto simp: Start_def start_def split: if_splits prod.splits sum.splits)

lemma Start_handle:
  assumes "Start h v (c, w) = (r, (c', w'))" "cluster_inv c"
  shows "cluster_inv c' \<and> cl_config c' = cl_config c \<and>
    (case r of
      Inr _ \<Rightarrow> \<not> cl_started c \<and> cl_started c' \<and> serving h c' w'
    | Inl e \<Rightarrow> cl_started c' = cl_started c \<and> (cl_started c \<longrightarrow> e = ErrClusterAlreadyStarted \<and> c' = c \<and> w' = w))"
  using assms(1)
proof (cases rule: Start_cases)
  case (tried b w1)
  let ?c = "c\<lparr>cl_binaries := b\<rparr>"
  have "idle ?c" "\<not> cl_started ?c" using tried(1) assms(2) by (simp_all add: cluster_inv_def idle_def)
  from attempts_handle [OF tried(3) this] tried(1,2) show ?thesis
    by (cases r) (auto simp: cluster_inv_def serving_def)
qed (use assms(2) in simp_all)

lemma Stop_handle:
  assumes "Stop h (c, w) = (r, (c', w'))"
  shows "cl_config c' = cl_config c \<and> \<not> cl_started c' \<and>
    (if cl_started c then idle c' else r = Inl ErrClusterNotStarted \<and> c' = c \<and> w' = w)"
proof (cases "cl_started c")
  case True
  obtain r1 c1 w1 where t: "teardown h (c, w) = (r1, (c1, w1))" by (metis prod.exhaust)
  from assms True t have "c' = c1\<lparr>cl_started := False\<rparr>" by (simp add: Stop_def)
  with teardown_handle(1,2) [OF t] True show ?thesis by (simp add: idle_def)
next
  case False
  with assms show ?thesis by (simp add: Stop_def)
qed

lemma reached_inv:
  assumes "reached h v cfg s"
  shows "cluster_inv (fst s) \<and> cl_config (fst s) = cl_config (New cfg)"
  using assms
proof (induction rule: reached.induct)
  case (reached_new w)
  then show ?case by (simp add: New_def cluster_inv_def idle_def)
next
  case (reached_call s op r s')
  obtain c w c' w' where s: "s = (c, w)" "s' = (c', w')" by (metis prod.exhaust)
  from reached_call.IH have inv: "cluster_inv c" "cl_config c = cl_config (New cfg)" by (simp_all add: s)
  show ?case
  proof (cases op)
    case Starting
    with Start_handle [OF _ inv(1)] reached_call.hyps(2) inv(2) show ?thesis by (simp add: s)
  next
    case Stopping
    with Stop_handle [of h c w r c' w'] reached_call.hyps(2) inv show ?thesis
      by (auto simp: s cluster_inv_def split: if_splits)
  qed
qed auto

text \<open>
  C11: the invariant of a handle. However a program calls \<open>Start\<close> and \<open>Stop\<close>, and whatever fails, between
  two calls a handle is either idle, with no server and no record, or it is started and has PD, as
  many stores as were asked for, a process for each of them, and a record.
\<close>

theorem handle_invariant:
  assumes "reached h v cfg (c, w)"
  shows "if cl_started c
    then cl_pd c \<noteq> None \<and> length (cl_tikvs c) = nat (cfg_tikvCount (cl_config c)) \<and> 1 \<le> cfg_tikvCount (cl_config c) \<and>
      cl_record c \<noteq> None \<and> length (processes c) = Suc (length (cl_tikvs c))
    else cl_pd c = None \<and> cl_tikvs c = [] \<and> cl_record c = None"
proof -
  have len: "length (List.map_filter kv_proc ts) = length ts" if "list_all (\<lambda>t. kv_proc t \<noteq> None) ts" for ts
    using that by (induction ts) (auto simp: List.map_filter_simps)
  from reached_inv [OF assms] show ?thesis
    using len [of "cl_tikvs c"]
    by (auto simp: cluster_inv_def idle_def handle_ok_def processes_def pd_process_def split: if_splits option.splits)
qed

text \<open>The life of a cluster as the documentation tells it.\<close>

datatype phase = Stopped | Running

inductive lifecycle :: "phase \<Rightarrow> operation \<Rightarrow> unit result \<Rightarrow> phase \<Rightarrow> bool" where
  life_started: "lifecycle Stopped Starting (Inr ()) Running"
| life_failed: "lifecycle Stopped Starting (Inl e) Stopped"
| life_again: "lifecycle Running Starting (Inl ErrClusterAlreadyStarted) Running"
| life_stopped: "lifecycle Running Stopping r Stopped"
| life_nothing: "lifecycle Stopped Stopping (Inl ErrClusterNotStarted) Stopped"

inductive_simps lifecycle_Starting: "lifecycle p Starting r q"
inductive_simps lifecycle_Stopping: "lifecycle p Stopping r q"

definition phase_of :: "Cluster \<Rightarrow> phase" where
  "phase_of c = (if cl_started c then Running else Stopped)"

text \<open>
  C2: the methods refine the life cycle. Every call, in whatever state and with whatever outcome, is a
  step of the two-state machine, so a second \<open>Start\<close> and a \<open>Stop\<close> without a start are refused with the
  documented errors; and when \<open>Start\<close> reports success, all stores are up at that moment and no server
  has exited.
\<close>

theorem life_refined:
  assumes "reached h v cfg (c, w)" "perform h v op (c, w) = (r, (c', w'))"
  shows "lifecycle (phase_of c) op r (phase_of c') \<and>
    (op = Starting \<and> r = Inr () \<longrightarrow> serving h c' w') \<and>
    (phase_of c = phase_of c' \<and> (phase_of c = Running \<or> op = Stopping) \<longrightarrow> c' = c \<and> w' = w)"
proof (cases op)
  case Starting
  with Start_handle [of h v c w r c' w'] reached_inv [OF assms(1)] assms(2) show ?thesis
    by (auto simp: lifecycle_Starting phase_of_def split: sum.splits)
next
  case Stopping
  with Stop_handle [of h c w r c' w'] assms(2) show ?thesis
    by (auto simp: lifecycle_Stopping phase_of_def split: if_splits)
qed

end
