(* ===== verification/Teardown.thy ===== *)
theory Teardown
  imports Lifecycle
begin

text \<open>
  What is left of the servers: no operation but \<open>startProcess\<close> makes a process, the stores are
  stopped in parallel within the time one of them may take, and an attempt to start that fails
  leaves no server behind.
\<close>

subsection \<open>Operations that start nothing\<close>

definition same_identity :: "os_process \<Rightarrow> os_process \<Rightarrow> bool" where
  "same_identity q q' \<longleftrightarrow>
    proc_pid q' = proc_pid q \<and> proc_group q' = proc_group q \<and> argv q' = argv q \<and> (alive q' \<longrightarrow> alive q)"

text \<open>No new process, and inodes that were not in use are not locked.\<close>

definition steady :: "world \<Rightarrow> world \<Rightarrow> bool" where
  "steady w w' \<longleftrightarrow>
    list_all2 same_identity (procs w) (procs w') \<and> next_pid w' = next_pid w \<and> (fresh_ok w \<longrightarrow> fresh_ok w')"

interpretation steady: frame steady
proof
  fix s t u
  show "steady s s" by (auto simp: steady_def list_all2_same same_identity_def)
  have tr: "list_all2 same_identity qs rs \<Longrightarrow> list_all2 same_identity rs us \<Longrightarrow> list_all2 same_identity qs us" for qs rs us
    by (rule list_all2_trans [where ?P1.0 = same_identity and ?P2.0 = same_identity])
      (simp_all add: same_identity_def)
  assume "steady s t" "steady t u"
  then show "steady s u"
    unfolding steady_def using tr by (metis (no_types, lifting))
qed

lemma steady_origin:
  assumes "steady w w'" "q' \<in> set (procs w')"
  obtains q where "q \<in> set (procs w)" "same_identity q q'"
proof -
  from assms(2) obtain n where n: "n < length (procs w')" "q' = procs w' ! n"
    by (auto simp: in_set_conv_nth)
  with assms(1) that [of "procs w ! n"] show thesis
    unfolding steady_def by (auto simp: list_all2_conv_all_nth)
qed

lemma fresh_ok_same:
  "files w' = files w \<Longrightarrow> locks w' = locks w \<Longrightarrow> next_ino w' = next_ino w \<Longrightarrow> fresh_ok w' = fresh_ok w"
  by (simp add: fresh_ok_def lookup_def)

lemma steady_files:
  assumes "same_rest w w'" "fresh_ok w \<Longrightarrow> fresh_ok w'"
  shows "steady w w'"
  using assms same_restD(1,6) [OF assms(1)]
  by (simp add: steady_def list_all2_same same_identity_def)

text \<open>Processes end, time passes, watchdogs are told; the file system and the locks stay.\<close>

definition ending :: "world \<Rightarrow> world \<Rightarrow> bool" where
  "ending w w' \<longleftrightarrow> steady w w' \<and> files w' = files w \<and> locks w' = locks w \<and> next_ino w' = next_ino w"

interpretation ending: frame ending
proof
  fix s t u
  show "ending s s" by (simp add: ending_def steady.frame_refl)
  assume "ending s t" "ending t u"
  then show "ending s u" using steady.frame_trans [of s t u] by (simp add: ending_def)
qed

lemma ending_steady: "ending w w' \<Longrightarrow> steady w w'"
  by (simp add: ending_def)

lemma endingI:
  assumes "list_all2 same_identity (procs w) (procs w')" "next_pid w' = next_pid w" "files w' = files w"
    "locks w' = locks w" "next_ino w' = next_ino w"
  shows "ending w w'"
  using assms fresh_ok_same [of w' w] by (simp add: ending_def steady_def)

lemma ending_procs: "w' = w\<lparr>procs := ps\<rparr> \<Longrightarrow> list_all2 same_identity (procs w) ps \<Longrightarrow> ending w w'"
  by (rule endingI) simp_all

lemma exited_steady:
  assumes "steady w w'" "exited p w"
  shows "exited p w'"
  unfolding exited_iff
proof
  fix q'
  assume "q' \<in> set (procs w')"
  with assms(1) obtain q where "q \<in> set (procs w)" "same_identity q q'" by (rule steady_origin)
  with assms(2) show "\<not> waited_for p q'" by (auto simp: exited_iff waited_for_def same_identity_def)
qed

lemma exited_ending: "ending w w' \<Longrightarrow> exited p w \<Longrightarrow> exited p w'"
  using ending_steady exited_steady by blast

text \<open>File operations: what a regular file was, and what it may be afterwards.\<close>

lemma fresh_drop:
  assumes "fresh_ok w" "locks w' = locks w" "next_ino w' = next_ino w"
    and "\<And>p i s x. lookup w' p = Some (Regular i s x) \<Longrightarrow> \<exists>q s' x'. lookup w q = Some (Regular i s' x')"
  shows "fresh_ok w'"
  using assms unfolding fresh_ok_def by metis

lemma put_select [simp]: "locks (put_node p n w) = locks w" "next_ino (put_node p n w) = next_ino w"
  by (simp_all add: put_node_def)

lemma fresh_put: "lookup w p = Some (Regular i s x) \<Longrightarrow> fresh_ok w \<Longrightarrow> fresh_ok (put_node p (Regular i s' x') w)"
  by (erule fresh_drop) (auto simp: lookup_put_node split: if_splits)

lemma fresh_new:
  assumes "fresh_ok w"
  shows "fresh_ok (new_file p s x w)"
  unfolding fresh_ok_def
proof (intro conjI allI impI)
  fix q i s' x'
  assume "lookup (new_file p s x w) q = Some (Regular i s' x')"
  then have "i = next_ino w \<or> lookup w q = Some (Regular i s' x')"
    by (auto simp: new_file_def lookup_add_Regular split: if_splits)
  with assms show "i < next_ino (new_file p s x w)" by (simp add: new_file_def fresh_ok_def) (metis less_SucI lessI)
qed (use assms in \<open>simp add: new_file_def fresh_ok_def\<close>)

lemma touch_select [simp]: "locks (touch d w) = locks w" "next_ino (touch d w) = next_ino w"
  by (simp_all add: touch_def split: option.split node.split)

lemma drop_select [simp]: "locks (drop_entries P w) = locks w" "next_ino (drop_entries P w) = next_ino w"
  by (simp_all add: drop_entries_def)

lemma fresh_touch_drop: "fresh_ok w \<Longrightarrow> fresh_ok (touch d (drop_entries P w))"
  by (rule fresh_drop) (auto simp: lookup_drop_entries split: if_splits)

lemma steady_ops [stays_intros]:
  "stays steady (createFile h p)" "stays steady (writeFd h p s)" "stays steady (closeFd h p)"
  "stays steady (remove h p)" "stays steady (removeAll h p)" "stays steady (createTemp h d a b)"
  "stays steady (mkdirAll h p)"
proof -
  note rest = same_rest_ops [THEN staysD] same_rest_createTemp [THEN staysD] same_rest_mkdirAll [THEN staysD]
  show "stays steady (createFile h p)"
    by (rule staysI, rule steady_files [OF rest(2)])
      (auto simp: createFile_def fresh_put fresh_new split: option.split node.split)
  show "stays steady (writeFd h p s)"
    by (rule staysI, rule steady_files [OF rest(3)])
      (auto simp: writeFd_def append_text_def fresh_put split: option.split node.split)
  show "stays steady (closeFd h p)"
    by (rule staysI, rule steady_files [OF rest(4)]) (auto simp: closeFd_def split: option.split)
  show "stays steady (remove h p)"
    by (rule staysI, rule steady_files [OF rest(7)])
      (auto simp: remove_def fresh_touch_drop split: option.split node.split)
  show "stays steady (removeAll h p)"
    by (rule staysI, rule steady_files [OF rest(8)])
      (auto simp: removeAll_def fresh_touch_drop split: option.split)
  show "stays steady (mkdirAll h p)"
    by (rule staysI, rule steady_files [OF rest(10)]) (use grows_mkdirAll [THEN staysD] in \<open>auto simp: grows_def\<close>)
  show "stays steady (createTemp h d a b)"
  proof (rule staysI, rule steady_files [OF rest(9)])
    fix w assume f: "fresh_ok w"
    then have d: "fresh_ok (w\<lparr>draws := k\<rparr>)" for k by (simp add: fresh_ok_def)
    show "fresh_ok (snd (createTemp h d a b w))"
    proof (cases "createTemp h d a b w")
      case (Pair r w')
      then show ?thesis by (cases r) (auto elim!: createTemp_Inr createTemp_Inl intro: fresh_new d)
    qed
  qed
qed

lemma steady_rename: "stays steady (rename h p q)"
proof (rule staysI, rule steady_files [OF staysD [OF same_rest_ops(6)]])
  fix w assume f: "fresh_ok w"
  show "fresh_ok (snd (rename h p q w))"
    by (rule fresh_drop [OF f])
      (auto simp: rename_def Let_def lookup_drop_entries lookup_add_Regular split: option.splits node.splits if_splits)
qed

lemma steady_save: "stays steady (save h r)"
  by (rule stays_save [OF steady.frame_axioms]) (rule steady_ops steady_rename)+


text \<open>Signals and time only end processes.\<close>

lemma deliver_identity: "same_identity q (deliver h sig t q)"
  by (auto simp: same_identity_def deliver_def split: signal.split option.split)

lemma expire_identity: "same_identity q (expire t q)"
  by (auto simp: same_identity_def expire_def split: option.split)

lemma identity_refl: "same_identity q q"
  by (simp add: same_identity_def)

lemma ending_kill: "ending w (snd (kill h target sig w))"
  by (cases "snd (kill h target sig w) = w")
    (auto simp: ending.frame_refl kill_def list_all2_map2 list_all2_same deliver_identity identity_refl
      intro!: ending_procs split: if_splits)

lemma ending_signalGroup: "ending w (snd (signalGroup h p sig w))"
proof -
  obtain r w1 where "kill h (- p) sig w = (r, w1)" by fastforce
  with ending_kill [of w h "- p" sig] have "ending w w1" "ending w (snd (kill h p sig w1))"
    using ending.frame_trans ending_kill by auto
  with \<open>kill h (- p) sig w = (r, w1)\<close> show ?thesis by (cases r) (auto simp: signalGroup_def)
qed

lemma ending_advance: "ending w (advance t w)"
  by (rule endingI) (simp_all add: advance_def list_all2_map2 list_all2_same expire_identity)

lemma ending_standDown: "ending w (standDown p w)"
  by (rule endingI) (simp_all add: standDown_def list_all2_same identity_refl split: option.split)

lemma ending_wait_done: "ending w (snd (wait_done p t w))"
  by (auto simp: wait_done_def ending_advance ending.frame_refl split: option.split)

lemma ending_stop_hard: "ending w (snd (stop_hard h p t w))"
proof -
  obtain r w1 where k: "signalGroup h (p_pid p) SIGKILL w = (r, w1)" by fastforce
  with ending_signalGroup [of w h "p_pid p" SIGKILL] have w1: "ending w w1" by simp
  obtain b w2 where d: "wait_done p t w1 = (b, w2)" by fastforce
  with ending_wait_done [of w1 p t] w1 have "ending w w2" using ending.frame_trans by force
  with k w1 d show ?thesis by (cases r; cases b) (simp_all add: stop_hard_def)
qed

lemma ending_stop_body: "ending w (snd (stop_body h p t w))"
proof -
  obtain r w1 where k: "signalGroup h (p_pid p) SIGTERM w = (r, w1)" by fastforce
  with ending_signalGroup [of w h "p_pid p" SIGTERM] have w1: "ending w w1" by simp
  obtain b w2 where d: "wait_done p t w1 = (b, w2)" by fastforce
  with ending_wait_done [of w1 p t] w1 have w2: "ending w w2" using ending.frame_trans by force
  then have "ending w (snd (stop_hard h p t w2))" using ending_stop_hard ending.frame_trans by blast
  with k w1 d w2 show ?thesis by (cases r; cases b) (simp_all add: stop_body_def ending.frame_refl)
qed

lemma ending_stop: "ending w (snd (stop h p t w))"
proof (cases p)
  case (Some pr)
  obtain r w1 where "stop_body h pr t w = (r, w1)" by fastforce
  with ending_stop_body [of w h pr t] ending_standDown [of w1 pr] Some show ?thesis
    using ending.frame_trans by (force simp: stop_def)
qed (simp add: stop_def ending.frame_refl)

subsection \<open>Stopping in parallel\<close>

lemma ending_stop_signals: "ending w (snd (stop_signals h sig err ps w))"
proof (induction ps arbitrary: w)
  case (Cons p ps)
  obtain r w1 where 1: "stop_signal h sig err p w = (r, w1)" by fastforce
  obtain r0 w0 where 0: "signalGroup h (p_pid p) sig w = (r0, w0)" by fastforce
  have "w1 = w0" using 0 1 by (cases r0) (auto simp: stop_signal_def)
  then have "ending w w1" using 0 ending_signalGroup [of w h "p_pid p" sig] by simp
  moreover obtain qs es w2 where 2: "stop_signals h sig err ps w1 = ((qs, es), w2)" by (metis prod.exhaust)
  moreover have "ending w1 w2" using Cons.IH [of w1] 2 by simp
  ultimately have "ending w w2" using ending.frame_trans by blast
  with 1 2 show ?case by (simp split: option.split)
qed (simp add: ending.frame_refl)

lemma ending_wait_all: "ending w (snd (wait_all ps t w))"
  by (auto simp: wait_all_def Let_def ending_advance ending.frame_refl split: option.split)

lemma ending_fold_standDown: "ending w (fold standDown ps w)"
proof (induction ps arbitrary: w)
  case (Cons p ps)
  with ending_standDown ending.frame_trans show ?case by (metis fold_simps(2))
qed (simp add: ending.frame_refl)

lemma stop_signals_cases:
  assumes "stop_signals h sig err ps w = ((qs, es), w')"
  shows "set qs \<subseteq> set ps" "es = [] \<Longrightarrow> qs = ps"
    "\<And>p. p \<in> set ps \<Longrightarrow> p \<notin> set qs \<Longrightarrow> es \<noteq> []"
proof -
  show "set qs \<subseteq> set ps" using assms
  proof (induction ps arbitrary: qs es w)
    case (Cons p ps)
    then show ?case by (auto split: prod.splits option.splits) blast+
  qed simp
  show "es = [] \<Longrightarrow> qs = ps" using assms
  proof (induction ps arbitrary: qs es w)
    case (Cons p ps)
    then show ?case by (auto split: prod.splits option.splits)
  qed simp
  then show "\<And>p. p \<in> set ps \<Longrightarrow> p \<notin> set qs \<Longrightarrow> es \<noteq> []" by auto
qed


lemma stop_signals_now: "now (snd (stop_signals h sig err ps w)) = now w"
proof (induction ps arbitrary: w)
  case (Cons p ps)
  obtain r0 w0 where 0: "signalGroup h (p_pid p) sig w = (r0, w0)" by fastforce
  obtain r w1 where 1: "stop_signal h sig err p w = (r, w1)" by fastforce
  have "w1 = w0" using 0 1 by (cases r0) (auto simp: stop_signal_def)
  then have "now w1 = now w" using 0 signalGroup_now [of h "p_pid p" sig w] by simp
  moreover obtain qs es w2 where 2: "stop_signals h sig err ps w1 = ((qs, es), w2)" by (metis prod.exhaust)
  moreover have "now w2 = now w1" using Cons.IH [of w1] 2 by simp
  ultimately show ?case using 1 by (simp split: option.split)
qed simp

lemma wait_all_now:
  "now w \<le> now (snd (wait_all ps t w)) \<and> now (snd (wait_all ps t w)) \<le> now w + max 0 t"
  by (auto simp: wait_all_def Let_def split: option.split)

lemma wait_all_rest: "fst (wait_all ps t w) = filter (\<lambda>p. \<not> exited p (snd (wait_all ps t w))) ps"
  by (simp add: wait_all_def Let_def)

text \<open>The four stages of \<open>stop_all\<close>, by the worlds between them.\<close>

lemma stop_all_stages:
  assumes "stop_all h ps t w = (es, w')"
  obtains ps1 es1 w1 ps2 w2 ps3 es2 w3 ps4 w4 where
    "stop_signals h SIGTERM signal_error (filter (\<lambda>p. \<not> exited p w) ps) w = ((ps1, es1), w1)"
    "wait_all ps1 t w1 = (ps2, w2)"
    "stop_signals h SIGKILL kill_error ps2 w2 = ((ps3, es2), w3)"
    "wait_all ps3 t w3 = (ps4, w4)"
    "es = es1 @ es2 @ map (\<lambda>p. survived_error (p_name p)) ps4" "w' = fold standDown ps w4"
    "ending w w1" "ending w1 w2" "ending w2 w3" "ending w3 w4" "ending w4 w'"
proof -
  obtain ps1 es1 w1 where 1: "stop_signals h SIGTERM signal_error (filter (\<lambda>p. \<not> exited p w) ps) w = ((ps1, es1), w1)"
    by (metis prod.exhaust)
  obtain ps2 w2 where 2: "wait_all ps1 t w1 = (ps2, w2)" by fastforce
  obtain ps3 es2 w3 where 3: "stop_signals h SIGKILL kill_error ps2 w2 = ((ps3, es2), w3)" by (metis prod.exhaust)
  obtain ps4 w4 where 4: "wait_all ps3 t w3 = (ps4, w4)" by fastforce
  have w': "es = es1 @ es2 @ map (\<lambda>p. survived_error (p_name p)) ps4" "w' = fold standDown ps w4"
    using assms by (simp_all add: stop_all_def 1 2 3 4)
  show thesis
    using that [OF 1 2 3 4 w'] ending_stop_signals [of w h SIGTERM signal_error "filter (\<lambda>p. \<not> exited p w) ps"]
      ending_wait_all [of w1 ps1 t] ending_stop_signals [of w2 h SIGKILL kill_error ps2]
      ending_wait_all [of w3 ps3 t] ending_fold_standDown [of w4 ps] 1 2 3 4 w' by simp
qed

lemma ending_stop_all: "ending w (snd (stop_all h ps t w))"
proof -
  obtain es w' where s: "stop_all h ps t w = (es, w')" by fastforce
  then show ?thesis
    by (rule stop_all_stages) (use s ending.frame_trans in \<open>metis snd_conv\<close>)
qed

lemma now_fold_standDown: "now (fold standDown ps w) = now w"
  by (induction ps arbitrary: w) simp_all

lemma stood_down_keeps: "stood_down p w \<Longrightarrow> stood_down p (standDown q w)"
  by (auto simp: stood_down_def standDown_def split: option.splits)

lemma stood_down_fold: "p \<in> set ps \<or> stood_down p w \<Longrightarrow> stood_down p (fold standDown ps w)"
proof (induction ps arbitrary: w)
  case (Cons q ps)
  have "p \<in> set ps \<or> stood_down p (standDown q w)"
    using Cons.prems stood_down_keeps stood_down_standDown by auto
  with Cons.IH show ?case by simp
qed simp

lemma stop_all_exited:
  assumes "stop_all h ps t w = ([], w')" "p \<in> set ps"
  shows "exited p w'"
  using assms(1)
proof (rule stop_all_stages)
  fix ps1 es1 w1 ps2 w2 ps3 es2 w3 ps4 w4
  assume 1: "stop_signals h SIGTERM signal_error (filter (\<lambda>p. \<not> exited p w) ps) w = ((ps1, es1), w1)"
    and 2: "wait_all ps1 t w1 = (ps2, w2)" and 3: "stop_signals h SIGKILL kill_error ps2 w2 = ((ps3, es2), w3)"
    and 4: "wait_all ps3 t w3 = (ps4, w4)" and es: "[] = es1 @ es2 @ map (\<lambda>p. survived_error (p_name p)) ps4"
    and steps: "ending w w1" "ending w1 w2" "ending w2 w3" "ending w3 w4" "ending w4 w'"
  from es have "ps1 = filter (\<lambda>p. \<not> exited p w) ps" "ps3 = ps2"
    using stop_signals_cases(2) [OF 1] stop_signals_cases(2) [OF 3] by auto
  moreover have "ps2 = filter (\<lambda>p. \<not> exited p w2) ps1" "ps4 = filter (\<lambda>p. \<not> exited p w4) ps3"
    using wait_all_rest [of ps1 t w1] wait_all_rest [of ps3 t w3] 2 4 by simp_all
  ultimately have "p \<in> set ps4 \<or> exited p w \<or> exited p w2 \<or> exited p w4" using assms(2) by auto
  with es consider "exited p w" | "exited p w2" | "exited p w4" by auto
  then show ?thesis
    using steps exited_ending ending.frame_trans by (cases; metis)
qed

text \<open>The stages when every member of the servers' groups can be killed.\<close>

lemma ending_stoppable:
  assumes "ending w w'" "stoppable h p w"
  shows "stoppable h p w'"
  unfolding stoppable_def
proof (intro conjI ballI impI)
  show "1 < p_pid p" using assms(2) by (simp add: stoppable_def)
  fix q'
  assume "q' \<in> set (procs w')"
  with assms(1) obtain q where q: "q \<in> set (procs w)" "same_identity q q'" by (rule steady_origin [OF ending_steady])
  show "proc_group q' = p_pid p" if "proc_pid q' = p_pid p"
    using that q assms(2) by (auto simp: stoppable_def same_identity_def)
  show "killable h (proc_pid q')" if "proc_group q' = p_pid p"
    using that q assms(2) by (auto simp: stoppable_def same_identity_def)
qed

lemma signal_stoppable:
  assumes "stoppable h p w"
  shows "fst (stop_signal h sig err p w) = None"
proof -
  obtain r w1 where k: "signalGroup h (p_pid p) sig w = (r, w1)" by fastforce
  with ending_signalGroup [of w h "p_pid p" sig] have w1: "ending w w1" by simp
  show ?thesis
  proof (cases "exited p w")
    case True
    with exited_ending [OF w1] k show ?thesis by (cases r) (simp_all add: stop_signal_def)
  next
    case False
    with signalGroup_stoppable(1) [OF assms, of sig] k show ?thesis by (simp add: stop_signal_def)
  qed
qed

lemma kill_stoppable:
  assumes "stoppable h p w"
  shows "exited p (snd (stop_signal h SIGKILL err p w))"
proof -
  obtain r w1 where k: "signalGroup h (p_pid p) SIGKILL w = (r, w1)" by fastforce
  then have w1: "snd (stop_signal h SIGKILL err p w) = w1" by (cases r) (simp_all add: stop_signal_def)
  show ?thesis
  proof (cases "exited p w")
    case True
    with exited_ending ending_signalGroup [of w h "p_pid p" SIGKILL] k show ?thesis unfolding w1 by fastforce
  next
    case False
    have "w1 = w\<lparr>procs := map (\<lambda>q. if alive q \<and> proc_group q = p_pid p
        then deliver h SIGKILL (now w) q else q) (procs w)\<rparr>"
      using signalGroup_stoppable(2) [OF assms False, of SIGKILL] k by simp
    then show ?thesis
      using assms unfolding w1
      by (auto simp: exited_iff waited_for_def deliver_def stoppable_def killable_def split: if_splits)
  qed
qed

lemma ending_stop_signal: "ending w (snd (stop_signal h sig err p w))"
proof -
  obtain r w1 where "signalGroup h (p_pid p) sig w = (r, w1)" by fastforce
  with ending_signalGroup [of w h "p_pid p" sig] show ?thesis by (cases r) (simp_all add: stop_signal_def)
qed

lemma stop_signals_stoppable:
  assumes "\<And>p. p \<in> set ps \<Longrightarrow> stoppable h p w"
  shows "fst (stop_signals h sig err ps w) = (ps, [])"
    and "sig = SIGKILL \<Longrightarrow> p \<in> set ps \<Longrightarrow> exited p (snd (stop_signals h sig err ps w))"
proof -
  have "fst (stop_signals h sig err ps w) = (ps, []) \<and>
      (sig = SIGKILL \<longrightarrow> (\<forall>p \<in> set ps. exited p (snd (stop_signals h sig err ps w))))"
    using assms
  proof (induction ps arbitrary: w)
    case (Cons q ps)
    obtain w1 where 1: "stop_signal h sig err q w = (None, w1)"
      using signal_stoppable [of h q w sig err] Cons.prems by (metis list.set_intros(1) prod.collapse)
    have w1: "ending w w1" using ending_stop_signal [of w h sig err q] 1 by simp
    obtain w2 where 2: "stop_signals h sig err ps w1 = ((ps, []), w2)"
      and rest: "sig = SIGKILL \<longrightarrow> (\<forall>p \<in> set ps. exited p w2)"
      using Cons.IH [of w1] ending_stoppable [OF w1] Cons.prems by (metis list.set_intros(2) prod.collapse snd_conv)
    have q: "exited q w2" if "sig = SIGKILL"
    proof (rule exited_ending)
      show "ending w1 w2" using ending_stop_signals [of w1 h sig err ps] 2 by simp
      show "exited q w1" using kill_stoppable [of h q w err] Cons.prems 1 that by simp
    qed
    have eq: "stop_signals h sig err (q # ps) w = ((q # ps, []), w2)" by (simp add: 1 2)
    show ?case unfolding eq using rest q by simp
  qed simp
  then show "fst (stop_signals h sig err ps w) = (ps, [])"
    "sig = SIGKILL \<Longrightarrow> p \<in> set ps \<Longrightarrow> exited p (snd (stop_signals h sig err ps w))" by auto
qed

lemma stop_all_stoppable:
  assumes "\<And>p. p \<in> set ps \<Longrightarrow> stoppable h p w"
  shows "fst (stop_all h ps t w) = []"
proof -
  obtain es w' where s: "stop_all h ps t w = (es, w')" by fastforce
  then have "es = []"
  proof (rule stop_all_stages)
    fix ps1 es1 w1 ps2 w2 ps3 es2 w3 ps4 w4
    assume 1: "stop_signals h SIGTERM signal_error (filter (\<lambda>p. \<not> exited p w) ps) w = ((ps1, es1), w1)"
      and 2: "wait_all ps1 t w1 = (ps2, w2)" and 3: "stop_signals h SIGKILL kill_error ps2 w2 = ((ps3, es2), w3)"
      and 4: "wait_all ps3 t w3 = (ps4, w4)" and es: "es = es1 @ es2 @ map (\<lambda>p. survived_error (p_name p)) ps4"
      and steps: "ending w w1" "ending w1 w2" "ending w3 w4"
    from stop_signals_stoppable(1) [of "filter (\<lambda>p. \<not> exited p w) ps" h w SIGTERM signal_error] assms 1
    have a: "es1 = []" "set ps1 \<subseteq> set ps" by auto
    moreover have "set ps2 \<subseteq> set ps1" using wait_all_rest [of ps1 t w1] 2 by auto
    ultimately have st: "stoppable h p w2" if "p \<in> set ps2" for p
      using that assms ending_stoppable ending.frame_trans [OF steps(1,2)] by blast
    have b: "es2 = []" "ps3 = ps2" "\<forall>p \<in> set ps2. exited p w3"
      using stop_signals_stoppable(1) [of ps2 h w2 SIGKILL kill_error]
        stop_signals_stoppable(2) [where ps = ps2 and h = h and w = w2 and sig = SIGKILL and err = kill_error] st 3
      by auto
    then have "ps4 = []"
      using wait_all_rest [of ps3 t w3] 4 exited_ending [OF steps(3)] by (simp add: filter_empty_conv)
    with a b es show "es = []" by simp
  qed
  with s show ?thesis by simp
qed


text \<open>One store: the parallel stop is \<open>stop\<close>.\<close>

lemma last_exit_None: "last_exit qs = None \<Longrightarrow> qs \<noteq> [] \<Longrightarrow> \<exists>q \<in> set qs. exit_at q = None"
  by (induction qs rule: last_exit.induct) (auto split: option.splits)

lemma last_exit_attained: "last_exit qs = Some e \<Longrightarrow> \<exists>q \<in> set qs. exit_at q = Some e"
  by (induction qs arbitrary: e rule: last_exit.induct) (auto split: option.splits if_splits simp: max_def)

lemma advance_waiting:
  assumes "q \<in> set (procs w)" "waited_for p q" "\<And>e. exit_at q = Some e \<Longrightarrow> max (now w) t < e"
  shows "\<not> exited p (advance t w)"
proof -
  have "expire (max (now w) t) q = q"
    using assms(3) by (auto simp: expire_def split: option.split)
  with assms(1,2) show ?thesis by (force simp: exited_iff advance_def)
qed

lemma wait_all_Nil [simp]: "wait_all [] t w = ([], w)"
  by (simp add: wait_all_def)

lemma wait_all_single:
  assumes "0 \<le> t"
  shows "wait_all [p] t w = (case wait_done p t w of (b, w') \<Rightarrow> (if b then [] else [p], w'))"
proof (cases "exited p w")
  case True
  then have "filter (waited_for p) (procs w) = []" by (simp add: exited_iff filter_empty_conv)
  with True show ?thesis by (simp add: wait_all_def wait_done_def)
next
  case False
  let ?hs = "filter (waited_for p) (procs w)" and ?t = "now w + t"
  from False have hs: "?hs \<noteq> []" by (auto simp: exited_iff filter_empty_conv)
  have late: "\<not> exited p (advance ?t w)" if "q \<in> set ?hs" "\<And>e. exit_at q = Some e \<Longrightarrow> ?t < e" for q
    using that assms by (intro advance_waiting [of q]) auto
  show ?thesis
  proof (cases "last_exit ?hs")
    case None
    with last_exit_None [OF None hs] late have "\<not> exited p (advance ?t w)" by fastforce
    with None False hs show ?thesis by (simp add: wait_all_def wait_done_def)
  next
    case (Some e)
    show ?thesis
    proof (cases "e \<le> ?t")
      case True
      with Some False have d: "wait_done p t w = (True, advance e w)" by (simp add: wait_done_def)
      with True Some hs wait_done_True [OF d] show ?thesis by (simp add: wait_all_def)
    next
      case e: False
      with last_exit_attained [OF Some] late have "\<not> exited p (advance ?t w)" by fastforce
      with e Some False hs show ?thesis by (simp add: wait_all_def wait_done_def)
    qed
  qed
qed

text \<open>
  The parallel stop of one store is \<open>stop\<close> itself: the same world, and its error if there is one.
\<close>

lemma stop_all_single:
  assumes "0 \<le> t"
  shows "stop_all h [p] t w =
    (case stop h (Some p) t w of (Inl e, w') \<Rightarrow> ([e], w') | (Inr _, w') \<Rightarrow> ([], w'))"
proof (cases "exited p w")
  case True
  then show ?thesis by (simp add: stop_all_def stop_def stop_body_def)
next
  case False
  obtain r1 w1 where 1: "signalGroup h (p_pid p) SIGTERM w = (r1, w1)" by fastforce
  obtain b w2 where 2: "wait_done p t w1 = (b, w2)" by fastforce
  obtain r3 w3 where 3: "signalGroup h (p_pid p) SIGKILL w2 = (r3, w3)" by fastforce
  obtain b' w4 where 4: "wait_done p t w3 = (b', w4)" by fastforce
  have ex1: "b \<and> w2 = w1" if "exited p w1" using 2 wait_done_exited [OF that] by simp
  have ex3: "b' \<and> w4 = w3" if "exited p w3" using 4 wait_done_exited [OF that] by simp
  show ?thesis
    using False 1 2 3 4 ex1 ex3 assms
    by (cases r1; cases b; cases r3; cases b'; cases "exited p w1"; cases "exited p w3")
      (simp_all add: stop_all_def stop_def stop_body_def stop_hard_def stop_signal_def wait_all_single)
qed


subsection \<open>What a teardown leaves\<close>

lemma signalGroup_pipes: "pipes (snd (signalGroup h p sig w)) = pipes w"
  using signalGroup_world [of h p sig w] by auto

lemma wait_done_pipes: "wait_done p t w = (b, w') \<Longrightarrow> pipes w' = pipes w"
  by (auto simp: wait_done_def advance_def split: option.splits if_splits)

lemma stop_hard_pipes: "stop_hard h p t w = (r, w') \<Longrightarrow> pipes w' = pipes w"
  using signalGroup_pipes [of h "p_pid p" SIGKILL w]
  by (auto simp: stop_hard_def split: prod.splits sum.splits if_splits bool.splits dest!: wait_done_pipes)

lemma stop_body_pipes: "stop_body h p t w = (r, w') \<Longrightarrow> pipes w' = pipes w"
  using signalGroup_pipes [of h "p_pid p" SIGTERM w]
  by (fastforce simp: stop_body_def split: prod.splits sum.splits if_splits bool.splits
      dest!: wait_done_pipes stop_hard_pipes)

lemma stop_keeps_stood_down:
  assumes "stop h p t w = (r, w')" "stood_down q w"
  shows "stood_down q w'"
proof (cases p)
  case (Some pr)
  obtain r1 w1 where b: "stop_body h pr t w = (r1, w1)" by fastforce
  with assms(2) have "stood_down q w1" by (simp add: stood_down_def stop_body_pipes split: option.splits)
  then have "stood_down q (standDown pr w1)" by (rule stood_down_keeps)
  with assms(1) b Some show ?thesis by (auto simp: stop_def)
qed (use assms in \<open>simp add: stop_def\<close>)

lemma stop_Some:
  assumes "stop h (Some p) t w = (r, w')"
  shows "stood_down p w'" "now w \<le> now w' \<and> now w' \<le> now w + 2 * max 0 t" "r = Inr u \<Longrightarrow> exited p w'"
proof -
  obtain r1 w1 where b: "stop_body h p t w = (r1, w1)" by fastforce
  with assms have w': "r = r1" "w' = standDown p w1" by (simp_all add: stop_def)
  show "stood_down p w'" "now w \<le> now w' \<and> now w' \<le> now w + 2 * max 0 t"
    using stop_body_now [OF b] by (simp_all add: w' stood_down_standDown)
  show "exited p w'" if "r = Inr u" using stop_body_Inr [of h p t w u w1] that b by (simp add: w')
qed

lemma stop_all_bounds:
  assumes "stop_all h ps t w = (es, w')"
  shows "now w' \<le> now w + 2 * max 0 t" "p \<in> set ps \<Longrightarrow> stood_down p w'"
proof -
  have "now w' \<le> now w + 2 * max 0 t \<and> (\<forall>p \<in> set ps. stood_down p w')"
    using assms
  proof (rule stop_all_stages)
    fix ps1 es1 w1 ps2 w2 ps3 es2 w3 ps4 w4
    assume "stop_signals h SIGTERM signal_error (filter (\<lambda>p. \<not> exited p w) ps) w = ((ps1, es1), w1)"
      "wait_all ps1 t w1 = (ps2, w2)" "stop_signals h SIGKILL kill_error ps2 w2 = ((ps3, es2), w3)"
      "wait_all ps3 t w3 = (ps4, w4)" and w': "w' = fold standDown ps w4"
    then show ?thesis
      using stop_signals_now [of h SIGTERM signal_error "filter (\<lambda>p. \<not> exited p w) ps" w] wait_all_now [of w1 ps1 t]
        stop_signals_now [of h SIGKILL kill_error ps2 w2] wait_all_now [of w3 ps3 t] now_fold_standDown [of ps w4]
        stood_down_fold [of _ ps w4]
      by auto
  qed
  then show "now w' \<le> now w + 2 * max 0 t" "p \<in> set ps \<Longrightarrow> stood_down p w'" by auto
qed

text \<open>
  The stores are stopped in parallel. However many there are, \<open>stop_all\<close> returns within twice
  the timeout; every watchdog has been told that the shutdown is deliberate; and when no error is
  reported every server has exited.
\<close>

lemma stop_all_correct:
  "(case stop_all h ps t w of (es, w') \<Rightarrow>
      now w' \<le> now w + 2 * max 0 t \<and> list_all (\<lambda>p. stood_down p w') ps \<and>
      (if es = [] then list_all (\<lambda>p. exited p w' \<and> \<not> is_alive w' (p_pid p)) ps else True))"
proof (cases "stop_all h ps t w")
  case (Pair es w')
  from stop_all_bounds [OF this] Pair stop_all_exited exited_not_alive show ?thesis by (auto simp: list_all_iff)
qed

lemma processes_iff:
  "p \<in> set (processes c) \<longleftrightarrow> pd_process c = Some p \<or> p \<in> set (List.map_filter kv_proc (cl_tikvs c))"
  by (auto simp: processes_def split: option.split)

lemma stop_servers_spec:
  assumes "stop_servers h c w = (e, w')"
  shows "ending w w'" "now w' \<le> now w + 4 * shutdownTimeout" "\<forall>p \<in> set (processes c). stood_down p w'"
    "e = None \<Longrightarrow> \<forall>p \<in> set (processes c). exited p w'"
proof -
  let ?ps = "List.map_filter kv_proc (cl_tikvs c)"
  obtain es w1 where 1: "stop_all h ?ps shutdownTimeout w = (es, w1)" by fastforce
  obtain r w2 where 2: "stop h (pd_process c) shutdownTimeout w1 = (r, w2)" by fastforce
  from assms 1 2 have w': "w' = w2" "e = first_error (case es of [] \<Rightarrow> None | e # _ \<Rightarrow> Some e) r"
    by (simp_all add: stop_servers_def)
  have e1: "ending w w1" using ending_stop_all [of w h ?ps shutdownTimeout] 1 by simp
  have e2: "ending w1 w2" using ending_stop [of w1 h "pd_process c" shutdownTimeout] 2 by simp
  show "ending w w'" using ending.frame_trans [OF e1 e2] w' by simp
  have t: "max 0 shutdownTimeout = shutdownTimeout" by (simp add: shutdownTimeout_def second_def)
  have "now w2 \<le> now w1 + 2 * shutdownTimeout"
  proof (cases "pd_process c")
    case None
    with 2 show ?thesis by (simp add: stop_def shutdownTimeout_def second_def)
  next
    case (Some p)
    from stop_Some(2) [OF 2 [unfolded Some]] show ?thesis by (simp add: t)
  qed
  then show "now w' \<le> now w + 4 * shutdownTimeout" using stop_all_bounds(1) [OF 1] by (simp add: w' t)
  show "\<forall>p \<in> set (processes c). stood_down p w'"
    using stop_all_bounds(2) [OF 1] stop_keeps_stood_down [OF 2] stop_Some(1) 2 w' by (auto simp: processes_iff)
  show "\<forall>p \<in> set (processes c). exited p w'" if "e = None"
  proof -
    from that have "es = []" "\<exists>u. r = Inr u" using w' by (auto simp: first_error_def split: sum.splits list.splits)
    then show ?thesis
      using stop_all_exited [of h ?ps shutdownTimeout w w1] 1 exited_ending [OF e2] stop_Some(3) 2 w'
      by (auto simp: processes_iff)
  qed
qed

lemma file_text_files: "files w' = files w \<Longrightarrow> file_text w' = file_text w"
  by (simp add: file_text_def lookup_def fun_eq_iff)

lemma file_text_release [simp]: "file_text (snd (release l w)) = file_text w"
  by (simp add: file_text_def fun_eq_iff)

lemma removeAll_outside: "\<not> under d p \<Longrightarrow> file_text (snd (removeAll h d w)) p = file_text w p"
  by (simp add: removeAll_def split: option.split)

lemma removeAll_now: "now (snd (removeAll h d w)) = now w"
  using same_restD(4) [OF staysD [OF same_rest_ops(8)]] .

lemma now_release [simp]: "now (snd (release l w)) = now w"
  by (auto simp: release_def split: option.split)

lemma now_remove [simp]: "now (snd (remove h p w)) = now w"
  using same_restD(4) [OF staysD [OF same_rest_ops(7)]] .

lemma remove_select [simp]: "procs (snd (remove h p w)) = procs w" "pipes (snd (remove h p w)) = pipes w"
  using same_restD(1,3) [OF staysD [OF same_rest_ops(7)]] .

lemma release_pipes [simp]: "pipes (snd (release l w)) = pipes w"
  by (auto simp: release_def split: option.split)

lemma record_end_select:
  "now (close_record h r w) = now w" "procs (close_record h r w) = procs w" "pipes (close_record h r w) = pipes w"
  "now (abandon r w) = now w" "procs (abandon r w) = procs w" "pipes (abandon r w) = pipes w"
  "file_text (abandon r w) = file_text w"
  by (simp_all add: close_record_def abandon_def split: option.split)

text \<open>The files of a record; a cluster without one has none.\<close>

definition record_files :: "Cluster \<Rightarrow> string set" where
  "record_files c = (case cl_record c of None \<Rightarrow> {} | Some r \<Rightarrow> {rec_path r, lockPathFor (rec_path r)})"

lemma teardown_stages:
  assumes "teardown h (c, w) = (r, (c', w'))"
  obtains e1 w1 r2 w2 where "stop_servers h c w = (e1, w1)"
    "(if cl_ownsDataPath c \<and> cl_dataPath c \<noteq> [] then removeAll h (cl_dataPath c) w1 else (Inr (), w1)) = (r2, w2)"
    "r = (case first_error e1 r2 of None \<Rightarrow> Inr () | Some e \<Rightarrow> Inl e)"
    "w' = (case first_error e1 r2 of Some _ \<Rightarrow> abandon (cl_record c) w2 | None \<Rightarrow> close_record h (cl_record c) w2)"
proof -
  obtain e1 w1 where 1: "stop_servers h c w = (e1, w1)" by fastforce
  obtain r2 w2 where 2: "(if cl_ownsDataPath c \<and> cl_dataPath c \<noteq> [] then removeAll h (cl_dataPath c) w1 else (Inr (), w1)) = (r2, w2)"
    by fastforce
  have "r = (case first_error e1 r2 of None \<Rightarrow> Inr () | Some e \<Rightarrow> Inl e)"
    "w' = (case first_error e1 r2 of Some _ \<Rightarrow> abandon (cl_record c) w2 | None \<Rightarrow> close_record h (cl_record c) w2)"
    using assms 2
    by (cases "first_error e1 r2"; cases "cl_ownsDataPath c \<and> cl_dataPath c \<noteq> []"; simp add: teardown_def 1 Let_def)+
  with that 1 2 show thesis by blast
qed


lemma close_record_other:
  "p \<notin> (case r of None \<Rightarrow> {} | Some rc \<Rightarrow> {rec_path rc, lockPathFor (rec_path rc)}) \<Longrightarrow>
    file_text (close_record h r w) p = file_text w p"
  by (cases r) (simp_all add: close_record_def file_text_remove)

text \<open>
  C6: a teardown is safe on every path. It leaves an idle handle, in bounded time, and the watchdog of
  every server knows that the shutdown was deliberate. Without an error every server has exited; with
  one, the record and its lock file are still there, so a later sweep can find what survived. And no
  file but those two is touched outside a data directory that the cluster created itself: a
  directory that the caller supplied keeps everything.
\<close>

theorem teardown_correct:
  assumes "cl_ownsDataPath c \<Longrightarrow> p \<in> record_files c \<Longrightarrow> \<not> under (cl_dataPath c) p"
  shows "(case teardown h (c, w) of (r, (c', w')) \<Rightarrow>
      idle c' \<and> now w' \<le> now w + 4 * shutdownTimeout \<and> (\<forall>q \<in> set (processes c). stood_down q w') \<and>
      (case r of
        Inr _ \<Rightarrow> \<forall>q \<in> set (processes c). exited q w' \<and> \<not> is_alive w' (p_pid q)
      | Inl _ \<Rightarrow> p \<in> record_files c \<longrightarrow> file_text w' p = file_text w p) \<and>
      (p \<in> record_files c \<or> cl_ownsDataPath c \<and> under (cl_dataPath c) p \<or> file_text w' p = file_text w p))"
proof -
  obtain r c' w' where t: "teardown h (c, w) = (r, (c', w'))" by (metis prod.exhaust)
  then obtain e1 w1 r2 w2 where 1: "stop_servers h c w = (e1, w1)"
    and 2: "(if cl_ownsDataPath c \<and> cl_dataPath c \<noteq> [] then removeAll h (cl_dataPath c) w1 else (Inr (), w1)) = (r2, w2)"
    and r: "r = (case first_error e1 r2 of None \<Rightarrow> Inr () | Some e \<Rightarrow> Inl e)"
    and w': "w' = (case first_error e1 r2 of Some _ \<Rightarrow> abandon (cl_record c) w2 | None \<Rightarrow> close_record h (cl_record c) w2)"
    by (rule teardown_stages)
  note s = stop_servers_spec [OF 1]
  have w2: "now w2 = now w1" "procs w2 = procs w1" "pipes w2 = pipes w1"
    using 2 same_restD(1,3,4) [OF staysD [OF same_rest_ops(8) [of h "cl_dataPath c"], of w1]]
    by (auto split: if_splits)
  have sel: "now w' = now w1" "procs w' = procs w1" "pipes w' = pipes w1"
    using w2 by (simp_all add: w' record_end_select split: option.split)
  have text2: "file_text w2 q = file_text w q" if "\<not> (cl_ownsDataPath c \<and> under (cl_dataPath c) q)" for q
    using 2 that removeAll_outside [of "cl_dataPath c" q h w1] file_text_files [of w1 w] s(1)
    by (auto simp: ending_def split: if_splits)
  have stood: "\<forall>q \<in> set (processes c). stood_down q w'" using s(3) unfolding stood_down_def sel .
  have gone: "\<forall>q \<in> set (processes c). exited q w' \<and> \<not> is_alive w' (p_pid q)" if "r = Inr u" for u
  proof -
    from that r have "e1 = None" by (auto simp: first_error_def split: sum.splits option.splits)
    then have "\<forall>q \<in> set (processes c). exited q w'" using s(4) by (simp add: exited_def sel)
    then show ?thesis using exited_not_alive by blast
  qed
  have kept: "file_text w' p = file_text w p" if "r = Inl e" "p \<in> record_files c" for e
    using that r text2 assms by (auto simp: w' record_end_select split: option.splits)
  have other: "file_text w' p = file_text w p"
    if "p \<notin> record_files c" "\<not> (cl_ownsDataPath c \<and> under (cl_dataPath c) p)"
    using that text2 close_record_other [of p "cl_record c" h w2]
    by (auto simp: w' record_end_select record_files_def split: option.split)
  have "now w' \<le> now w + 4 * shutdownTimeout" using s(2) sel(1) by simp
  with stood gone kept other teardown_handle(1) [OF t] show ?thesis by (cases r) (auto simp: t)
qed

end
