(* ===== verification/Leftovers.thy ===== *)
theory Leftovers
  imports Teardown
begin

text \<open>
  A start that fails leaves no server: the invariant \<open>tracked\<close> of an attempt says that every server
  that was started since is in the handle, from the moment its process exists; a teardown stops what
  is in the handle.
\<close>

subsection \<open>The other operations of an attempt\<close>

lemma fresh_lock:
  assumes "fresh_ok w" "i < next_ino w" "locks w' = (locks w)(i := l)" "files w' = files w" "next_ino w' = next_ino w"
  shows "fresh_ok w'"
  using assms by (auto simp: fresh_ok_def lookup_def)

lemma steady_next_fd: "steady w (w\<lparr>next_fd := k\<rparr>)"
  using fresh_ok_same [of "w\<lparr>next_fd := k\<rparr>" w] by (simp add: steady_def list_all2_same identity_refl)

lemma steady_release:
  assumes "fresh_ok w"
  shows "steady w (snd (release l w))"
proof -
  have "fresh_ok (w\<lparr>locks := (locks w)(i := None)\<rparr>)" for i
    using assms by (auto simp: fresh_ok_def lookup_def)
  then show ?thesis
    by (auto simp: release_def steady_def list_all2_same identity_refl split: option.split)
qed

text \<open>A lock on a file that has just been made is free, so nobody waits for it.\<close>

lemma steady_acquire_new:
  assumes "fresh_ok w"
  shows "steady (new_file p [] False w) (snd (acquireFileLock h p True True (new_file p [] False w)))"
proof -
  let ?w = "new_file p [] False w"
  have l: "lookup ?w p = Some (Regular (next_ino w) [] False)"
    using lookup_add_Regular [of p "Regular (next_ino w) [] False" w p] by (simp add: new_file_def)
  have free: "locks ?w (next_ino w) = None" "next_ino ?w = Suc (next_ino w)"
    using assms by (simp_all add: new_file_def fresh_ok_def)
  have "fresh_ok (?w\<lparr>next_fd := k, locks := (locks ?w)(next_ino w \<mapsto> fd)\<rparr>)" for k fd
    using fresh_lock [OF fresh_new [OF assms, of p "[]" False], of "next_ino w"] free by simp
  then have "steady ?w (?w\<lparr>next_fd := k, locks := (locks ?w)(next_ino w \<mapsto> fd)\<rparr>)" for k fd
    by (simp add: steady_def list_all2_same identity_refl)
  with l free steady_next_fd show ?thesis
    by (auto simp: acquireFileLock_def open_rdwr_def flock_ex_def steady.frame_refl split: option.split)
qed

lemma steady_fresh: "steady w w' \<Longrightarrow> fresh_ok w \<Longrightarrow> fresh_ok w'"
  by (simp add: steady_def)

lemma steady_openRecord:
  assumes "fresh_ok w"
  shows "steady w (snd (openRecord h t cfg w))"
proof -
  obtain r1 w1 where 1: "registryDir h cfg w = (r1, w1)" by fastforce
  have "stays steady (registryDir h cfg)"
    unfolding registryDir_def Let_def by (intro steady.stays_combinators steady_ops)
  from staysE [OF this 1] have s1: "steady w w1" .
  show ?thesis
  proof (cases r1)
    case (Inl e)
    with 1 s1 show ?thesis by (simp add: openRecord_def)
  next
    case (Inr dir)
    obtain r2 w2 where 2: "createTemp h dir recordPrefix ''.lock'' w1 = (r2, w2)" by fastforce
    have s2: "steady w w2" using staysE [OF steady_ops(6) 2] s1 steady.frame_trans by blast
    show ?thesis
    proof (cases r2)
      case (Inl e)
      with 1 2 Inr s2 show ?thesis by (simp add: openRecord_def)
    next
      case (Inr lp)
      from 2 [unfolded Inr] obtain n where w2: "w2 = new_file lp [] False (w1\<lparr>draws := n\<rparr>)" by (rule createTemp_Inr)
      have "fresh_ok (w1\<lparr>draws := n\<rparr>)" using steady_fresh [OF s1 assms] by (simp add: fresh_ok_def)
      note acq = steady_acquire_new [OF this, of lp h, folded w2]
      obtain r3 w3 where 3: "acquireFileLock h lp True True w2 = (r3, w3)" by fastforce
      have s3: "steady w w3" using acq 3 s2 steady.frame_trans by auto
      show ?thesis
      proof (cases r3)
        case (Inl e)
        have "steady w (snd (remove h lp w3))" using s3 staysD [OF steady_ops(4)] steady.frame_trans by blast
        with 1 2 3 Inl Inr \<open>r1 = Inr dir\<close> show ?thesis by (simp add: openRecord_def)
      next
        case (Inr lock)
        have "steady w (snd (save h r w3))" for r
          using s3 staysD [OF steady_save] steady.frame_trans by blast
        with 1 2 3 Inr \<open>r1 = Inr dir\<close> \<open>r2 = Inr lp\<close> show ?thesis
          by (auto simp: openRecord_def Let_def split: sum.split prod.split) (metis snd_conv)+
      qed
    qed
  qed
qed

lemma steady_setDataPath: "setDataPath h p b r w = (x, w') \<Longrightarrow> steady w w'"
  using staysD [OF steady_save]
  by (auto simp: setDataPath_def Let_def steady.frame_refl split: option.splits prod.splits) (metis snd_conv)

lemma steady_addServer: "addServer h name pid b r w = (x, w') \<Longrightarrow> steady w w'"
  using staysD [OF steady_save]
  by (auto simp: addServer_def Let_def steady.frame_refl split: option.splits prod.splits) (metis snd_conv)

lemma steady_freePorts:
  assumes "freePorts h a n w = (r, w')"
  shows "steady w w'"
proof -
  have "ports_frame w w'" using freePorts_loop_spec [of h a n "[]" w r w'] assms by (simp add: freePorts_def)
  then have eq: "w\<lparr>portReserved := [], binds := 0\<rparr> = w'\<lparr>portReserved := [], binds := 0\<rparr>" by (simp add: ports_frame_def)
  have "procs w' = procs w" "next_pid w' = next_pid w" "files w' = files w" "locks w' = locks w" "next_ino w' = next_ino w"
    using arg_cong [OF eq, of procs] arg_cong [OF eq, of next_pid] arg_cong [OF eq, of files] arg_cong [OF eq, of locks]
      arg_cong [OF eq, of next_ino] by simp_all
  then show ?thesis using fresh_ok_same [of w' w] by (simp add: steady_def list_all2_same identity_refl)
qed

lemma steady_poll:
  "poll deadline (guarded_check guard ready) w = (r, w') \<Longrightarrow> steady w w'"
proof (induction "nat (deadline - now w)" arbitrary: w rule: less_induct)
  case less
  show ?case
  proof (cases "guard w = None \<and> \<not> ready w \<and> now w + tick < deadline")
    case True
    let ?w = "advance (now w + tick) w"
    have "poll deadline (guarded_check guard ready) ?w = (r, w')"
      using less.prems True by (subst (asm) poll_guarded) simp
    moreover have "nat (deadline - now ?w) < nat (deadline - now w)" using True by (simp add: tick_def)
    ultimately have "steady ?w w'" using less.hyps by blast
    then show ?thesis using ending_steady [OF ending_advance] steady.frame_trans by blast
  next
    case False
    with less.prems show ?thesis
      by (subst (asm) poll_guarded) (auto simp: ending_steady [OF ending_advance] steady.frame_refl split: option.splits if_splits)
  qed
qed


subsection \<open>Starting a process\<close>

lemma fresh_append: "fresh_ok w \<Longrightarrow> fresh_ok (append_text p s w)"
  by (auto simp: append_text_def fresh_put split: option.split node.split)

lemma fresh_tell [simp]: "fresh_ok (tell k s w) = fresh_ok w"
  by (rule fresh_ok_same) (simp_all add: tell_def)

lemma fresh_write_output: "fresh_ok w \<Longrightarrow> fresh_ok (write_output p l s w)"
  by (simp add: write_output_def Let_def fresh_append split: option.split)

lemma supervised_files:
  assumes "supervisedCommand h b as cl w = (r, w')"
  shows "files w' = files w \<and> locks w' = locks w \<and> next_ino w' = next_ino w"
proof -
  obtain s w1 where sh: "haveShell h w = (s, w1)" by fastforce
  then have "files w1 = files w \<and> locks w1 = locks w \<and> next_ino w1 = next_ino w"
    by (auto simp: haveShell_def Let_def split: option.splits)
  with assms sh show ?thesis
    by (cases s) (auto simp: supervisedCommand_def Let_def split: option.splits)
qed

lemma startCommand_files:
  "startCommand h c w = (r, w') \<Longrightarrow> files w' = files w \<and> locks w' = locks w \<and> next_ino w' = next_ino w"
  by (auto simp: startCommand_def spawn_eq split: option.splits)

lemma startProcess_fresh:
  assumes "startProcess h name binary args logPath logger cleanup w = (r, w')" "fresh_ok w"
  shows "fresh_ok w'"
proof -
  obtain r0 w0 where 0: "createFile h logPath w = (r0, w0)" by fastforce
  have f0: "fresh_ok w0" using steady_fresh [OF staysE [OF steady_ops(1) 0]] assms(2) .
  show ?thesis
  proof (cases r0)
    case (Inl e)
    with assms(1) 0 f0 show ?thesis by (simp add: startProcess_def seqE_def wrapE_def)
  next
    case (Inr u)
    obtain r1 w1 where 1: "supervisedCommand h binary args cleanup w0 = (r1, w1)" by fastforce
    have f1: "fresh_ok w1" using supervised_files [OF 1] fresh_ok_same f0 by blast
    show ?thesis
    proof (cases r1)
      case (Inl e)
      with assms(1) 0 Inr 1 f1 show ?thesis by (simp add: startProcess_def seqE_def wrapE_def)
    next
      case r1: (Inr cw)
      obtain c wd where cw: "cw = (c, wd)" by fastforce
      obtain r2 w2 where 2: "startCommand h c w1 = (r2, w2)" by fastforce
      have f2: "fresh_ok w2" using startCommand_files [OF 2] fresh_ok_same f1 by blast
      have "fresh_ok (closePipe wd w2)"
        using f2 fresh_ok_same [of "closePipe wd w2" w2] by (simp add: closePipe_def split: option.split)
      with assms(1) 0 Inr 1 r1 cw 2 fresh_write_output [OF f2] show ?thesis
        by (cases r2) (auto simp: startProcess_def seqE_def wrapE_def)
    qed
  qed
qed

text \<open>
  Every live server, a leader of its group, with a process id from \<open>n\<close> on is in the handle; what is in
  the handle is a group of processes from \<open>n\<close> on.
\<close>

definition tracked :: "int \<Rightarrow> Cluster \<Rightarrow> world \<Rightarrow> bool" where
  "tracked n c w \<longleftrightarrow>
    1 < n \<and> n \<le> next_pid w \<and> fresh_ok w \<and> pids_fresh w \<and>
    (\<forall>q \<in> set (procs w). n \<le> proc_group q \<longrightarrow> n \<le> proc_pid q) \<and>
    (\<forall>q \<in> set (procs w). n \<le> proc_pid q \<and> proc_group q = proc_pid q \<and> alive q \<longrightarrow>
      (\<exists>p \<in> set (processes c). p_pid p = proc_pid q)) \<and>
    (\<forall>p \<in> set (processes c). n \<le> p_pid p \<and> p_pid p < next_pid w \<and>
      (\<forall>q \<in> set (procs w). proc_pid q = p_pid p \<longrightarrow> proc_group q = p_pid p))"

lemma tracked_handle: "processes c' = processes c \<Longrightarrow> tracked n c' w = tracked n c w"
  by (simp add: tracked_def)

lemma tracked_begin:
  "processes c = [] \<Longrightarrow> pids_fresh w \<Longrightarrow> fresh_ok w \<Longrightarrow> tracked (next_pid w) c w"
  by (fastforce simp: tracked_def pids_fresh_def)

lemma tracked_steady:
  assumes "tracked n c w" "steady w w'"
  shows "tracked n c w'"
proof -
  have np: "next_pid w' = next_pid w" using assms(2) by (simp add: steady_def)
  have origin: "\<exists>q \<in> set (procs w). same_identity q q'" if "q' \<in> set (procs w')" for q'
    using steady_origin [OF assms(2) that] by blast
  show ?thesis
    unfolding tracked_def
  proof (intro conjI ballI impI)
    show "1 < n" "n \<le> next_pid w'" "fresh_ok w'"
      using assms np steady_fresh by (auto simp: tracked_def)
    show "pids_fresh w'"
      using assms(1) np origin unfolding tracked_def pids_fresh_def same_identity_def by metis
  next
    fix q' assume "q' \<in> set (procs w')"
    then obtain q where q: "q \<in> set (procs w)" "same_identity q q'" using origin by blast
    show "n \<le> proc_pid q'" if "n \<le> proc_group q'"
      using that q assms(1) by (auto simp: tracked_def same_identity_def)
    show "\<exists>p \<in> set (processes c). p_pid p = proc_pid q'"
      if "n \<le> proc_pid q' \<and> proc_group q' = proc_pid q' \<and> alive q'"
      using that q assms(1) by (auto simp: tracked_def same_identity_def)
  next
    fix p assume "p \<in> set (processes c)"
    then show "n \<le> p_pid p" "p_pid p < next_pid w'" using assms(1) np by (simp_all add: tracked_def)
  next
    fix p q' assume p: "p \<in> set (processes c)" and "q' \<in> set (procs w')" "proc_pid q' = p_pid p"
    moreover obtain q where "q \<in> set (procs w)" "same_identity q q'" using origin \<open>q' \<in> set (procs w')\<close> by blast
    ultimately show "proc_group q' = p_pid p" using assms(1) by (auto simp: tracked_def same_identity_def)
  qed
qed

lemma tracked_startProcess:
  assumes "tracked n c w" "startProcess h name binary args logPath logger cleanup w = (r, w')"
  shows "(case r of
      Inl _ \<Rightarrow> tracked n c w'
    | Inr p \<Rightarrow> set (processes c') = insert p (set (processes c)) \<longrightarrow> tracked n c' w')"
proof -
  from assms(1) have fresh: "pids_fresh w" "fresh_ok w" by (simp_all add: tracked_def)
  note cases = startProcess_cases [OF assms(2) fresh(1)]
  have f': "fresh_ok w'" by (rule startProcess_fresh [OF assms(2) fresh(2)])
  show ?thesis
  proof (cases r)
    case (Inl e)
    with cases have "procs w' = procs w" "next_pid w' = next_pid w" by simp_all
    with f' have "steady w w'" by (simp add: steady_def list_all2_same identity_refl)
    with tracked_steady [OF assms(1)] Inl show ?thesis by simp
  next
    case (Inr p)
    with cases obtain e1 ws where p: "p_pid p = next_pid w"
      and w': "next_pid w' = p_pid p + 1 + int (length ws)"
        "procs w' = procs w @ \<lparr>proc_pid = p_pid p, proc_group = p_pid p, argv = binary # args, alive = True, exit_at = e1\<rparr> # ws"
      and ws: "if p_watchdog p = None then ws = []
        else \<exists>e2 a. ws = [\<lparr>proc_pid = p_pid p + 1, proc_group = p_pid p, argv = a, alive = True, exit_at = e2\<rparr>]"
      by auto
    have wd: "\<forall>q \<in> set ws. proc_pid q = p_pid p + 1 \<and> proc_group q = p_pid p \<and> length ws = 1"
      using ws by (auto split: if_splits)
    have old: "\<forall>q \<in> set (procs w). proc_pid q < p_pid p \<and> proc_group q < p_pid p"
      using fresh(1) p by (auto simp: pids_fresh_def)
    have n: "n \<le> p_pid p" "1 < n" using assms(1) p by (simp_all add: tracked_def)
    have new: "next_pid w < next_pid w'" using p w'(1) by simp
    have procs': "q \<in> set (procs w) \<or> proc_pid q = p_pid p \<and> proc_group q = p_pid p \<or>
        proc_pid q = p_pid p + 1 \<and> proc_group q = p_pid p \<and> next_pid w' = p_pid p + 2"
      if "q \<in> set (procs w')" for q
      using that wd w' by auto
    have "pids_fresh w'"
      unfolding pids_fresh_def
    proof (intro conjI ballI)
      fix q assume "q \<in> set (procs w')"
      from procs' [OF this] show "proc_pid q < next_pid w'" "proc_group q < next_pid w'"
        using old p w'(1) new by auto
    qed (use n new p in simp)
    moreover have "tracked n c' w'" if eq: "set (processes c') = insert p (set (processes c))" "pids_fresh w'"
      unfolding tracked_def
    proof (intro conjI ballI impI)
      show "1 < n" "n \<le> next_pid w'" "fresh_ok w'" "pids_fresh w'" using n p new f' that by simp_all
    next
      fix q assume q: "q \<in> set (procs w')"
      show "n \<le> proc_pid q" if "n \<le> proc_group q"
        using procs' [OF q] that assms(1) n by (auto simp: tracked_def)
      show "\<exists>p \<in> set (processes c'). p_pid p = proc_pid q"
        if "n \<le> proc_pid q \<and> proc_group q = proc_pid q \<and> alive q"
        using procs' [OF q] that assms(1) by (auto simp: tracked_def eq)
    next
      fix p' assume "p' \<in> set (processes c')"
      then show "n \<le> p_pid p'" "p_pid p' < next_pid w'" using assms(1) n p new by (auto simp: tracked_def eq)
    next
      fix p' q assume p': "p' \<in> set (processes c')" and q: "q \<in> set (procs w')" "proc_pid q = p_pid p'"
      have "p_pid p' \<le> p_pid p" using p' assms(1) p by (auto simp: tracked_def eq)
      moreover have "p' = p \<or> p' \<in> set (processes c) \<and> p_pid p' < p_pid p"
        using p' assms(1) p by (auto simp: tracked_def eq)
      ultimately show "proc_group q = p_pid p'"
        using procs' [OF q(1)] q(2) old assms(1) by (auto simp: tracked_def)
    qed
    ultimately show ?thesis using Inr by simp
  qed
qed


subsection \<open>One attempt\<close>

lemma steady_writeConfigFile: "stays steady (writeConfigFile h enc p config)"
proof -
  have "stays steady (case writeTOML enc config of
      Inl e \<Rightarrow> failE (config_error p e) | Inr s \<Rightarrow> wrapE (config_error p) (writeFd h p s))"
    by (cases "writeTOML enc config") (simp_all add: steady.stays_combinators steady_ops)
  then show ?thesis
    unfolding writeConfigFile_def by (intro steady.stays_combinators steady_ops)
qed

lemma tracked_launch:
  assumes "tracked n c w" "launch h v c0 dir cp config name binary args lp w = (r, w')"
  shows "(case r of
      Inl _ \<Rightarrow> tracked n c w'
    | Inr p \<Rightarrow> set (processes c') = insert p (set (processes c)) \<longrightarrow> tracked n c' w')"
proof -
  let ?m = "seqE (wrapE (create_error dir) (mkdirAll h dir)) (\<lambda>_. writeConfigFile h (env_toml v) cp config)"
  obtain r1 w1 where 1: "?m w = (r1, w1)" by fastforce
  have "stays steady ?m" by (intro steady.stays_combinators steady_ops steady_writeConfigFile)
  from tracked_steady [OF assms(1) staysE [OF this 1]] have t1: "tracked n c w1" .
  have eq: "launch h v c0 dir cp config name binary args lp w =
      (case r1 of Inl e \<Rightarrow> (Inl e, w1) | Inr _ \<Rightarrow> startProcess h name binary args lp (cfg_logger (cl_config c0))
        (watchdogCleanupPaths c0) w1)"
    using 1 by (auto simp: launch_def seqE_def split: prod.splits sum.splits)
  show ?thesis
  proof (cases r1)
    case (Inl e)
    with assms(2) eq t1 show ?thesis by auto
  next
    case (Inr u)
    with assms(2) eq tracked_startProcess [OF t1] show ?thesis by simp
  qed
qed

definition tracks :: "int \<Rightarrow> Cluster \<times> world \<Rightarrow> Cluster \<times> world \<Rightarrow> bool" where
  "tracks n s s' \<longleftrightarrow> (tracked n (fst s) (snd s) \<longrightarrow> tracked n (fst s') (snd s'))"

interpretation tracks: frame "tracks n" for n
  by unfold_locales (auto simp: tracks_def)

lemma processes_record [simp]: "processes (c\<lparr>cl_record := r\<rparr>) = processes c"
  by (simp add: processes_def pd_process_def)

lemma tracks_register:
  assumes "\<And>p. set (processes (put p c)) = insert p (set (processes c))"
  shows "tracks n (c, w) (snd (register h name binary put (launch h v c0 dir cp config name' binary' args lp) (c, w)))"
proof -
  let ?l = "launch h v c0 dir cp config name' binary' args lp"
  obtain r c' w' where m: "register h name binary put ?l (c, w) = (r, (c', w'))" by (metis prod.exhaust)
  have "tracked n c' w'" if t: "tracked n c w"
    using m
  proof (cases rule: register_cases)
    case (failed e)
    with tracked_launch [OF t failed(1)] show ?thesis by simp
  next
    case (launched p w1 rec)
    from tracked_launch [OF t launched(1), where c' = "put p c"] assms have "tracked n (put p c) w1" by simp
    then have "tracked n (put p c) w'" using steady_addServer [OF launched(2)] by (rule tracked_steady)
    then show ?thesis unfolding launched(3) by (subst tracked_handle) simp_all
  qed
  then show ?thesis by (simp add: m tracks_def)
qed

lemma tracks_startPD:
  assumes "cl_pd c = None"
  shows "tracks n (c, w) (snd (startPD h v a b (c, w)))"
  unfolding startPD_def Let_def split
  by (rule tracks_register) (simp add: processes_def pd_process_def assms)

lemma map_filter_append: "List.map_filter f (xs @ ys) = List.map_filter f xs @ List.map_filter f ys"
  by (simp add: List.map_filter_def)

lemma processes_tikv:
  "set (processes (c\<lparr>cl_tikvs := cl_tikvs c @ [t\<lparr>kv_proc := Some p\<rparr>]\<rparr>)) = insert p (set (processes c))"
  unfolding processes_def pd_process_def by (simp add: map_filter_append List.map_filter_simps)

lemma tracks_startTiKV: "stays (tracks n) (startTiKV h v i a b)"
proof (rule staysI)
  fix s :: "Cluster \<times> world"
  obtain c w where s: "s = (c, w)" by fastforce
  show "tracks n s (snd (startTiKV h v i a b s))"
    unfolding s startTiKV_def Let_def split
    by (rule tracks_register) (simp add: processes_tikv)
qed

lemma tracks_steady:
  assumes "steady w w'" "processes c' = processes c"
  shows "tracks n (c, w) (c', w')"
  unfolding tracks_def fst_conv snd_conv tracked_handle [OF assms(2)] using tracked_steady assms(1) by blast

lemma tracks_call:
  assumes "stays steady m"
  shows "stays (tracks n) (call m)"
proof (rule staysI)
  fix s :: "Cluster \<times> world"
  obtain r w1 where m: "m (snd s) = (r, w1)" by fastforce
  have "tracks n (fst s, snd s) (fst s, w1)" by (rule tracks_steady [OF staysE [OF assms m] refl])
  then show "tracks n s (snd (call m s))" by (simp add: call_def m)
qed

lemma tracks_wait_pd: "stays (tracks n) (wait_pd h d)"
  unfolding wait_pd_def waits_are_polls
  by (auto simp: stays_def split: prod.split sum.split intro!: tracks_steady dest: steady_poll)

lemma tracks_wait_stores: "stays (tracks n) (wait_stores h d)"
  unfolding wait_stores_def waits_are_polls
  by (auto simp: stays_def split: prod.split sum.split intro!: tracks_steady dest: steady_poll)

lemma tracks_start_servers:
  assumes "cl_pd c = None"
  shows "tracks n (c, w) (snd (start_servers h v ports (c, w)))"
proof -
  let ?n = "nat (cfg_tikvCount (cl_config c))" and ?d = "now w + cfg_startTimeout (cl_config c)"
  let ?rest = "seqE (wait_pd h ?d) (\<lambda>_. seqE (forE [0..<?n] (\<lambda>i. startTiKV h v i (ports ! (2 + 2 * i)) (ports ! (3 + 2 * i))))
    (\<lambda>_. wait_stores h ?d))"
  obtain r1 s1 where 1: "startPD h v (ports ! 0) (ports ! 1) (c, w) = (r1, s1)" by (metis surj_pair)
  have t1: "tracks n (c, w) s1" using tracks_startPD [OF assms, of n w h v "ports ! 0" "ports ! 1"] 1 by simp
  have "stays (tracks n) ?rest"
    by (intro tracks.stays_combinators tracks_wait_pd tracks_wait_stores tracks_startTiKV)
  then have "tracks n s1 (snd (?rest s1))" by (rule staysD)
  then have t2: "tracks n (c, w) (snd (?rest s1))" by (rule tracks.frame_trans [OF t1])
  have "start_servers h v ports (c, w) = (case r1 of Inl e \<Rightarrow> (Inl e, s1) | Inr _ \<Rightarrow> ?rest s1)"
    unfolding start_servers_def Let_def split by (rule seqE_case) (rule 1)
  with t1 t2 show ?thesis by (cases r1) simp_all
qed


lemma tracks_prepare:
  "tracks n (c, w) (snd (prepareDataPath h i (c, w)))" "cl_pd (fst (snd (prepareDataPath h i (c, w)))) = cl_pd c"
proof -
  let ?c = "choose_dataPath h i c"
  let ?m = "seqE (call (wrapE (data_dir_error (cl_dataPath ?c)) (mkdirAll h (cl_dataPath ?c))))
    (\<lambda>_. call (forE (server_names (cfg_tikvCount (cl_config ?c)))
      (\<lambda>name. wrapE (clear_error name) (removeAll h (path_join [cl_dataPath ?c, name])))))"
  have eq: "prepareDataPath h i (c, w) = ?m (?c, w)" by (simp add: prepareDataPath_def Let_def)
  have "stays (tracks n) ?m"
    by (intro tracks.stays_combinators tracks_call steady.stays_combinators steady_ops)
  then have "tracks n (?c, w) (snd (?m (?c, w)))" by (rule staysD)
  moreover have "tracks n (c, w) (?c, w)"
    by (rule tracks_steady [OF steady.frame_refl]) (simp add: choose_dataPath_def processes_def pd_process_def)
  ultimately show "tracks n (c, w) (snd (prepareDataPath h i (c, w)))" unfolding eq using tracks.frame_trans by blast
  show "cl_pd (fst (snd (prepareDataPath h i (c, w)))) = cl_pd c"
    by (simp add: prepareDataPath_def Let_def choose_dataPath_def call_def split: prod.split sum.split)
qed

lemma tracks_record_dataPath:
  "tracks n (c, w) (snd (record_dataPath h (c, w)))" "cl_pd (fst (snd (record_dataPath h (c, w)))) = cl_pd c"
  unfolding record_dataPath_def split
  by (auto split: prod.split intro!: tracks_steady dest: steady_setDataPath)

lemma tracks_after_claim:
  assumes "cl_pd c = None"
  shows "tracks n (c, w) (snd (after_claim h v (c, w)))"
proof -
  obtain r1 c1 w1 where 1: "prepareDataPath h (record_id c) (c, w) = (r1, (c1, w1))" by (metis prod.exhaust)
  obtain r2 c2 w2 where 2: "record_dataPath h (c1, w1) = (r2, (c2, w2))" by (metis prod.exhaust)
  obtain r3 w3 where 3: "freePorts h (cfg_host (cl_config c)) (nat (2 + 2 * cfg_tikvCount (cl_config c))) w2 = (r3, w3)"
    by fastforce
  have t1: "tracks n (c, w) (c1, w1)" "cl_pd c1 = None"
    using tracks_prepare(1) [of n c w h "record_id c"] tracks_prepare(2) [of h "record_id c" c w] assms
    by (simp_all add: 1)
  have t2: "tracks n (c, w) (c2, w2)" "cl_pd c2 = None"
    using tracks_record_dataPath(1) [of n c1 w1 h] tracks_record_dataPath(2) [of h c1 w1] t1 tracks.frame_trans
    by (auto simp: 2)
  have t3: "tracks n (c, w) (c2, w3)"
    using tracks_steady [OF steady_freePorts [OF 3] refl] t2(1) tracks.frame_trans by blast
  have t4: "tracks n (c, w) (snd (start_servers h v ps (c2, w3)))" for ps
    using tracks_start_servers [OF t2(2)] t3 tracks.frame_trans by blast
  have "after_claim h v (c, w) =
      (case r1 of Inl e \<Rightarrow> (Inl e, (c1, w1)) | Inr _ \<Rightarrow>
        (case r2 of Inl e \<Rightarrow> (Inl e, (c2, w2)) | Inr _ \<Rightarrow>
          (case r3 of Inl e \<Rightarrow> (Inl e, (c2, w3)) | Inr ps \<Rightarrow> start_servers h v ps (c2, w3))))"
    unfolding after_claim_def split by (cases r1; cases r2; cases r3) (simp_all add: seqE_def call_def 1 2 3)
  with t1(1) t2(1) t3 t4 show ?thesis by (cases r1; cases r2; cases r3) simp_all
qed

lemma tracked_startOnce:
  assumes "startOnce h v (c, w) = (r, (c', w'))" "idle c" "tracked n c w"
  shows "tracked n c' w'"
  using assms(1)
proof (cases rule: startOnce_cases)
  case (failed e rec)
  have "steady w w'" using steady_openRecord [of w h "env_time v (now w)" "cl_config c"] assms(3) failed(1)
    by (simp add: tracked_def)
  with tracked_steady assms(3) failed(3) show ?thesis by blast
next
  case (claimed rc w1)
  let ?c = "c\<lparr>cl_record := Some rc\<rparr>"
  have "steady w w1" using steady_openRecord [of w h "env_time v (now w)" "cl_config c"] assms(3) claimed(1)
    by (simp add: tracked_def)
  then have "tracked n ?c w1" using tracked_steady [OF assms(3)] tracked_handle [of ?c c n w1] by simp
  moreover have "cl_pd ?c = None" using assms(2) by (simp add: idle_def)
  ultimately show ?thesis using tracks_after_claim [of ?c n w1 h v] claimed(2) by (simp add: tracks_def)
qed


subsection \<open>The end of a cluster\<close>

lemma steady_record_end:
  assumes "fresh_ok w"
  shows "steady w (abandon r w)" "steady w (close_record h r w)"
proof -
  have rel: "steady w (snd (release l w))" for l by (rule steady_release [OF assms])
  then show "steady w (abandon r w)" by (simp add: abandon_def steady.frame_refl split: option.split)
  have "steady w (snd (remove h a (snd (remove h b (snd (release l w))))))" for a b l
    by (rule steady.frame_trans [OF rel steady.frame_trans [OF staysD [OF steady_ops(4)] staysD [OF steady_ops(4)]]])
  then show "steady w (close_record h r w)" by (simp add: close_record_def steady.frame_refl split: option.split)
qed

lemma tracked_stoppable:
  assumes "tracked n c w" "\<And>p. n \<le> p \<Longrightarrow> killable h p" "p \<in> set (processes c)"
  shows "stoppable h p w"
  using assms by (auto simp: stoppable_def tracked_def)

lemma stop_servers_all:
  assumes "\<And>p. p \<in> set (processes c) \<Longrightarrow> stoppable h p w"
  shows "fst (stop_servers h c w) = None"
proof -
  let ?ps = "List.map_filter kv_proc (cl_tikvs c)"
  obtain es w1 where 1: "stop_all h ?ps shutdownTimeout w = (es, w1)" by fastforce
  have es: "es = []" using stop_all_stoppable [of ?ps h w shutdownTimeout] assms 1 by (simp add: processes_iff)
  have end1: "ending w w1" using ending_stop_all [of w h ?ps shutdownTimeout] 1 by simp
  obtain r w2 where 2: "stop h (pd_process c) shutdownTimeout w1 = (r, w2)" by fastforce
  have "r = Inr ()"
  proof (cases "pd_process c")
    case None
    with 2 show ?thesis by (simp add: stop_def)
  next
    case (Some p)
    then have "stoppable h p w1" using assms ending_stoppable [OF end1] by (simp add: processes_iff)
    from stop_body_stoppable [OF this, of shutdownTimeout] 2 Some show ?thesis
      by (cases "stop_body h p shutdownTimeout w1") (simp add: stop_def)
  qed
  with 1 2 es show ?thesis by (simp add: stop_servers_def first_error_def)
qed

text \<open>The live servers among the processes from \<open>n\<close> on; their watchdogs are not leaders of a group.\<close>

definition live_servers :: "int \<Rightarrow> world \<Rightarrow> os_process list" where
  "live_servers n w = filter (\<lambda>q. n \<le> proc_pid q \<and> proc_group q = proc_pid q \<and> alive q) (procs w)"

lemma tracked_idle: "tracked n c w \<Longrightarrow> processes c = [] \<Longrightarrow> live_servers n w = []"
  by (auto simp: tracked_def live_servers_def filter_empty_conv)

lemma idle_processes: "idle c \<Longrightarrow> processes c = []"
  by (simp add: idle_def processes_def pd_process_def List.map_filter_simps)

lemma tracked_teardown:
  assumes "teardown h (c, w) = (r, (c', w'))" "tracked n c w" "\<And>p. n \<le> p \<Longrightarrow> killable h p"
  shows "tracked n c' w'"
  using assms(1)
proof (rule teardown_stages)
  fix e1 w1 r2 w2
  assume 1: "stop_servers h c w = (e1, w1)"
    and 2: "(if cl_ownsDataPath c \<and> cl_dataPath c \<noteq> [] then removeAll h (cl_dataPath c) w1 else (Inr (), w1)) = (r2, w2)"
    and w': "w' = (case first_error e1 r2 of Some _ \<Rightarrow> abandon (cl_record c) w2 | None \<Rightarrow> close_record h (cl_record c) w2)"
  have e1: "e1 = None" using stop_servers_all [of c h w] tracked_stoppable [OF assms(2,3)] 1 by simp
  have s1: "steady w w1" using stop_servers_spec(1) [OF 1] by (rule ending_steady)
  have s2: "steady w1 w2"
  proof (cases "cl_ownsDataPath c \<and> cl_dataPath c \<noteq> []")
    case True
    with staysE [OF steady_ops(5), of h "cl_dataPath c" w1 r2 w2] 2 show ?thesis by simp
  next
    case False
    with 2 show ?thesis by (auto simp: steady.frame_refl)
  qed
  have "fresh_ok w2" using assms(2) s1 s2 steady_fresh by (simp add: tracked_def)
  then have s3: "steady w2 w'" using steady_record_end by (simp add: w' split: option.split)
  have t: "tracked n c w'" by (intro tracked_steady [OF _ s3] tracked_steady [OF _ s2] tracked_steady [OF _ s1] assms(2))
  have gone: "exited p w'" if "p \<in> set (processes c)" for p
    using stop_servers_spec(4) [OF 1 e1] that s2 s3 exited_steady by blast
  have idle: "processes c' = []" using teardown_handle(1) [OF assms(1)] by (rule idle_processes)
  have "\<not> (n \<le> proc_pid q \<and> proc_group q = proc_pid q \<and> alive q)" if q: "q \<in> set (procs w')" for q
  proof
    assume a: "n \<le> proc_pid q \<and> proc_group q = proc_pid q \<and> alive q"
    with t q obtain p where p: "p \<in> set (processes c)" "p_pid p = proc_pid q" unfolding tracked_def by blast
    from gone [OF p(1)] q have "\<not> waited_for p q" unfolding exited_iff by blast
    with a p(2) show False by (simp add: waited_for_def)
  qed
  with t idle show "tracked n c' w'" by (auto simp: tracked_def)
qed

lemma tracked_attempts:
  assumes "attempts h v k e (c, w) = (r, (c', w'))" "idle c" "\<not> cl_started c" "tracked n c w"
    "\<And>p. n \<le> p \<Longrightarrow> killable h p"
  shows "tracked n c' w'"
  using assms(1-4)
proof (induction k arbitrary: e c w)
  case 0
  then show ?case by simp
next
  case (Suc k)
  obtain r1 c1 w1 where 1: "startOnce h v (c, w) = (r1, (c1, w1))" by (metis prod.exhaust)
  have t1: "tracked n c1 w1" by (rule tracked_startOnce [OF 1 Suc.prems(2,4)])
  show ?case
  proof (cases r1)
    case (Inr u)
    with Suc.prems(1) 1 have "c' = c1\<lparr>cl_started := True\<rparr>" "w' = w1" by simp_all
    then show ?thesis using t1 tracked_handle [of c' c1 n w1] by (simp add: processes_def pd_process_def)
  next
    case (Inl e1)
    obtain r2 c2 w2 where 2: "teardown h (c1, w1) = (r2, (c2, w2))" by (metis prod.exhaust)
    note t2 = tracked_teardown [OF 2 t1 assms(5)]
    have c2: "idle c2" "\<not> cl_started c2"
      using teardown_handle(1,3) [OF 2] startOnce_handle [OF 1 Suc.prems(2)] Suc.prems(3)
      by (simp_all add: same_config_def)
    have "attempts h v (Suc k) e (c, w) =
        (if isPortConflict e1 then attempts h v k e1 (c2, w2) else (Inl e1, (c2, w2)))"
      by (simp add: 1 Inl 2)
    with Suc.prems(1) Suc.IH [OF _ c2 t2] t2 show ?thesis by (simp split: if_splits)
  qed
qed

text \<open>
  C3: no server is left behind. If the processes this program starts can be killed, then after a start
  that fails, whatever it fails on and however many attempts it took, none of the servers it started
  is alive; and after a start that succeeds, and a teardown at any later time, none is either.
\<close>

theorem no_server_left:
  assumes "idle c" "\<not> cl_started c" "pids_fresh w" "fresh_ok w" "\<And>p. next_pid w \<le> p \<Longrightarrow> killable h p"
    and "attempts h v k e (c, w) = (r, (c1, w1))" "steady w1 w2" "teardown h (c1, w2) = (r', (c3, w3))"
  shows "live_servers (next_pid w) (case r of Inl _ \<Rightarrow> w1 | Inr _ \<Rightarrow> w3) = []"
proof -
  have "tracked (next_pid w) c w" using assms(1,3,4) idle_processes by (intro tracked_begin)
  from tracked_attempts [OF assms(6,1,2) this assms(5)] have t1: "tracked (next_pid w) c1 w1" .
  from tracked_teardown [OF assms(8) tracked_steady [OF t1 assms(7)] assms(5)]
  have "tracked (next_pid w) c3 w3" .
  then have "live_servers (next_pid w) w3 = []"
    using teardown_handle(1) [OF assms(8)] idle_processes by (intro tracked_idle)
  moreover have "live_servers (next_pid w) w1 = []" if "r = Inl e'" for e'
  proof (rule tracked_idle [OF t1])
    have "idle c1" using attempts_handle [OF assms(6,1,2)] that by simp
    then show "processes c1 = []" by (rule idle_processes)
  qed
  ultimately show ?thesis by (cases r) auto
qed

end
