(* ===== verification/Recovery.thy ===== *)
theory Recovery
  imports Leftovers
begin

text \<open>
  Recovery: a server that a cluster has started is on its record, and a later sweep recognises it from
  there; and a sweep that gets the lock of a dead cluster reclaims everything the record names.
\<close>

subsection \<open>Servers are recognised\<close>

lemma find_append: "find P (xs @ ys) = (case find P xs of None \<Rightarrow> find P ys | Some x \<Rightarrow> Some x)"
  by (induction xs) auto

text \<open>
  What makes a command line visible: \<open>/proc\<close> can be read, or, where it is not mounted, \<^verbatim>\<open>ps\<close> runs. \<open>ps\<close> shows
  control characters as question marks, and both ends of its lines are trimmed.
\<close>

definition cmdlines_visible :: "host \<Rightarrow> world \<Rightarrow> bool" where
  "cmdlines_visible h w \<longleftrightarrow>
    (if procfs_seen h w then \<forall>i. io_fault h OpRead (''/proc/'' @ itoa i @ ''/cmdline'') = None else ps_works h)"

definition legible :: "bool \<Rightarrow> string \<Rightarrow> bool" where
  "legible procfs s \<longleftrightarrow> s \<noteq> [] \<and>
    (if procfs then CHR 0x00 \<notin> set s
     else \<not> is_space (hd s) \<and> \<not> is_space (last s) \<and>
       (\<forall>c \<in> set s. \<not> (of_char c :: nat) < 32 \<and> of_char c \<noteq> (127 :: nat)))"

lemma dropWhile_keep: "s \<noteq> [] \<Longrightarrow> \<not> f (hd s) \<Longrightarrow> \<exists>x'. dropWhile f (x @ s @ y) = x' @ s @ y"
proof (induction x)
  case Nil
  then show ?case by (cases s) (auto intro: exI [of _ "[]"])
next
  case (Cons c x)
  then show ?case by (cases "f c") (auto intro: exI [of _ "c # x"])
qed

lemma trimSpace_contains:
  assumes "s \<noteq> []" "\<not> is_space (hd s)" "\<not> is_space (last s)"
  shows "contains (trimSpace (x @ s @ y)) s"
proof -
  obtain x' where "dropWhile is_space (x @ s @ y) = x' @ s @ y" using dropWhile_keep [of s is_space x y] assms(1,2) by blast
  then have "trimSpace (x @ s @ y) = (x' @ s) @ trim_right is_space y"
    using trim_right_keep [of "x' @ s" is_space y] assms(1,3) by (simp add: trimSpace_def)
  then show ?thesis by (auto simp: contains_iff)
qed

lemma shown_legible:
  assumes "a \<in> set (argv q)" "contains a s" "legible b s"
  shows "contains (shown b q) s"
proof (cases b)
  case True
  with assms shown_contains show ?thesis by (simp add: legible_def)
next
  case False
  let ?f = "\<lambda>c. if (of_char c :: nat) < 32 \<or> of_char c = (127 :: nat) then CHR ''?'' else c"
  have "contains (join '' '' (argv q)) s" by (rule contains_in_join [OF assms(1,2)])
  then obtain x y where "join '' '' (argv q) = x @ s @ y" by (auto simp: contains_iff)
  then have "ps_args q = map ?f x @ map ?f s @ map ?f y" by (simp add: ps_args_def)
  moreover have "map ?f s = s" using assms(3) False by (intro map_idI) (auto simp: legible_def)
  ultimately show ?thesis
    using trimSpace_contains [of s] assms(3) False by (simp add: shown_def legible_def)
qed

lemma recognised_shown:
  assumes "live_proc w pid = Some q" "contains (shown (procfs_seen h w) q) binary"
    and "contains (shown (procfs_seen h w) q) (d @ ''/'')"
    and "0 < pid" "binary \<noteq> []" "d \<noteq> []" "cmdlines_visible h w"
  shows "fst (processIsServer h pid binary d w)"
proof -
  have "shown (procfs_seen h w) q \<noteq> []" using assms(2,5) by (auto simp: contains_iff)
  then have "fst (processCommandLine h pid w) = Some (shown (procfs_seen h w) q)"
    using assms(1,7)
    by (simp add: processCommandLine_def haveProcfsCached_eq shown_def cmdlines_visible_def trimSpace_snoc Let_def
        split: if_splits)
  then obtain w1 where "processCommandLine h pid w = (Some (shown (procfs_seen h w) q), w1)"
    by (metis prod.collapse)
  with assms(2-6) show ?thesis by (simp add: processIsServer_def cmdlineReferences_def)
qed

lemma argument_names_dir:
  assumes "abs_dir d" "component n" "component f"
  shows "contains (pre @ path_join [path_join [d, n], f]) (d @ ''/'')"
proof -
  have "path_join [path_join [d, n], f] = (d @ ''/'') @ n @ ''/'' @ f"
    using assms path_join_abs [of d n] path_join_abs [of "d @ ''/'' @ n" f] abs_dir_append [of d n]
    by simp
  then show ?thesis using contains_appendI [of pre "d @ ''/''" "n @ ''/'' @ f"] by simp
qed

lemma launched_recognised:
  assumes "pids_fresh w" "launch h v c dir cp config name binary args lp w = (Inr p, w1)"
    and "addServer h name (p_pid p) binary r w1 = (res, w')"
    and "a \<in> set args" "contains a (d @ ''/'')" "d \<noteq> []" "legible (procfs_seen h w') (d @ ''/'')"
    and "legible (procfs_seen h w') binary" "cmdlines_visible h w'"
  shows "fst (processIsServer h (p_pid p) binary d w')"
proof -
  let ?m = "seqE (wrapE (create_error dir) (mkdirAll h dir)) (\<lambda>_. writeConfigFile h (env_toml v) cp config)"
  obtain r1 w0 where 1: "?m w = (r1, w0)" by fastforce
  have rest: "stays steady ?m" by (intro steady.stays_combinators steady_ops steady_writeConfigFile)
  have st: "steady w w0" by (rule staysE [OF rest 1])
  have "launch h v c dir cp config name binary args lp w =
      (case r1 of Inl e \<Rightarrow> (Inl e, w0) | Inr _ \<Rightarrow> startProcess h name binary args lp (cfg_logger (cl_config c))
        (watchdogCleanupPaths c) w0)"
    using 1 by (auto simp: launch_def seqE_def split: prod.splits sum.splits)
  with assms(2) have sp: "startProcess h name binary args lp (cfg_logger (cl_config c)) (watchdogCleanupPaths c) w0 = (Inr p, w1)"
    by (cases r1) simp_all
  have fresh: "pids_fresh w0"
    using steady_origin [OF st] assms(1) st unfolding pids_fresh_def steady_def same_identity_def by metis
  from startProcess_cases [OF sp fresh] obtain e1 ws where p: "p_pid p = next_pid w0"
    and w1: "procs w1 = procs w0 @ \<lparr>proc_pid = p_pid p, proc_group = p_pid p, argv = binary # args, alive = True, exit_at = e1\<rparr> # ws"
    by auto
  let ?q = "\<lparr>proc_pid = p_pid p, proc_group = p_pid p, argv = binary # args, alive = True, exit_at = e1\<rparr> :: os_process"
  have "procs w' = procs w1"
    using assms(3) same_restD(1) [OF staysD [OF same_rest_save]]
    by (auto simp: addServer_def Let_def split: option.splits prod.splits) (metis snd_conv)
  moreover have "find (\<lambda>q. proc_pid q = p_pid p \<and> alive q) (procs w0) = None"
    using fresh p by (auto simp: find_None_iff pids_fresh_def)
  ultimately have live: "live_proc w' (p_pid p) = Some ?q" by (simp add: live_proc_def w1 find_append)
  have "contains (shown (procfs_seen h w') ?q) (d @ ''/'')"
    using assms(4,5,7) by (intro shown_legible [of a]) simp_all
  moreover have "contains (shown (procfs_seen h w') ?q) binary"
    using assms(8) contains_appendI [of "[]" binary "[]"] by (intro shown_legible [of binary]) simp_all
  moreover have "0 < p_pid p" using fresh p by (simp add: pids_fresh_def)
  moreover have "binary \<noteq> []" using assms(8) by (simp add: legible_def)
  ultimately show ?thesis using live assms(6,9) by (intro recognised_shown)
qed

text \<open>A process of the handle that is on the record, and that the record's entry recognises.\<close>

definition on_record :: "host \<Rightarrow> Cluster \<Rightarrow> world \<Rightarrow> process \<Rightarrow> bool" where
  "on_record h c w p \<longleftrightarrow>
    (case cl_record c of None \<Rightarrow> False
     | Some rc \<Rightarrow> list_ex (\<lambda>s. sr_PID s = p_pid p \<and> fst (processIsServer h (sr_PID s) (sr_Binary s) (cl_dataPath c) w))
         (rec_Servers rc))"

lemma addServer_Some:
  "addServer h name pid b (Some rc) w = ((r, rec), w') \<Longrightarrow>
    rec = Some (rc\<lparr>rec_Servers := rec_Servers rc @ [\<lparr>sr_Name = name, sr_PID = pid, sr_Binary = b\<rparr>]\<rparr>)"
  by (auto simp: addServer_def Let_def split: prod.splits)

lemma addServer_saved:
  assumes "addServer h name pid b (Some rc) w = ((Inr u, Some rc'), w')" "\<not> temp_name rc (rec_path rc)"
  shows "file_text w' (rec_path rc') = Some (record_text rc')"
proof -
  let ?rc = "rc\<lparr>rec_Servers := rec_Servers rc @ [\<lparr>sr_Name = name, sr_PID = pid, sr_Binary = b\<rparr>]\<rparr>"
  have "rc' = ?rc" "save h ?rc w = (Inr u, w')"
    using assms(1) by (auto simp: addServer_def Let_def split: prod.splits)
  moreover have "\<not> temp_name ?rc (rec_path ?rc)" using assms(2) by (simp add: temp_name_def)
  ultimately show ?thesis using save_effect [where r = ?rc and h = h and w = w] by simp
qed

lemma component_names:
  "component ''pd''" "component ''pd.toml''" "component ''tikv.toml''" "component (''tikv-'' @ itoa i)"
proof -
  show "component (''tikv-'' @ itoa i)"
    using itoa_chars [of "CHR ''/''" i] is_digit_not(3) by (auto simp: component_def)
qed code_simp+

lemma pd_args_dir: "abs_dir (cl_dataPath c) \<Longrightarrow>
    \<exists>x \<in> set (pd_args (new_pd c a b)). contains x (cl_dataPath c @ ''/'')"
  using argument_names_dir [OF _ component_names(1,2), of "cl_dataPath c" "''--config=''"]
  by (simp add: pd_args_def new_pd_def Let_def)

lemma tikv_args_dir: "abs_dir (cl_dataPath c) \<Longrightarrow>
    \<exists>x \<in> set (tikv_args us (new_tikv c i a b)). contains x (cl_dataPath c @ ''/'')"
  using argument_names_dir [OF _ component_names(4,3), of "cl_dataPath c" "''--config=''" "int i"]
  by (simp add: tikv_args_def new_tikv_def Let_def)

text \<open>
  Both kinds of server at once: \<open>put\<close> adds the process, the arguments name the data directory.
\<close>

lemma register_on_record:
  assumes "register h name binary put (launch h v c dir cp config name binary args lp) (c, w) = (Inr u, (c', w'))"
    and "\<And>p. set (processes (put p c)) \<subseteq> insert p (set (processes c))" "\<And>p. cl_record (put p c) = cl_record c"
    "\<And>p. cl_dataPath (put p c) = cl_dataPath c"
    and "\<exists>x \<in> set args. contains x (cl_dataPath c @ ''/'')" "cl_dataPath c \<noteq> []"
    and "legible (procfs_seen h w') (cl_dataPath c @ ''/'')" "legible (procfs_seen h w') binary" "cmdlines_visible h w'"
    and "pids_fresh w"
    and "cl_record c = Some rc" "\<not> temp_name rc (rec_path rc)"
    and "p \<in> set (processes c')" "p \<notin> set (processes c)"
  shows "on_record h c' w' p \<and> (case cl_record c' of None \<Rightarrow> False | Some rc' \<Rightarrow> file_text w' (rec_path rc') = Some (record_text rc'))"
  using assms(1)
proof (cases rule: register_cases)
  case (launched p' w1 rec)
  have p: "p' = p" using assms(2) [of p'] assms(13,14) launched(3) by auto
  have add: "addServer h name (p_pid p) binary (Some rc) w1 = ((Inr u, rec), w')"
    using launched(2) assms(3,11) p by simp
  note rec = addServer_Some [OF this]
  obtain x where x: "x \<in> set args" "contains x (cl_dataPath c @ ''/'')" using assms(5) by blast
  have "fst (processIsServer h (p_pid p) binary (cl_dataPath c) w')"
    using launched_recognised [OF assms(10) launched(1) launched(2) x] assms(6-9) p by simp
  then have "on_record h c' w' p" by (simp add: on_record_def launched(3) rec assms(4))
  moreover have "file_text w' (rec_path (the rec)) = Some (record_text (the rec))"
    using addServer_saved [OF add [unfolded rec] assms(12)] by (simp add: rec)
  ultimately show ?thesis by (simp add: launched(3) rec)
qed simp

text \<open>
  C13: a server can be found again. Once a server has been started and its start recorded, the record on
  disk names it, and the test on which the sweep kills recognises it from there as a server of this data directory.
  It takes that the data directory is an absolute path written cleanly (\<open>Config.DataPath\<close> is not cleaned by the code: with
  a trailing separator, or written \<^verbatim>\<open>./data\<close>, the test looks for what no command line has), that command
  lines can be seen (\<open>/proc\<close> is mounted and can be read, or else \<^verbatim>\<open>ps\<close> runs), and that the paths of the directory and of
  the binaries can be shown there (\<open>legible\<close>).
\<close>

theorem servers_recognised:
  assumes "startPD h v a b (c, w) = (Inr u, (c', w')) \<or> startTiKV h v i a b (c, w) = (Inr u, (c', w'))"
    and "abs_dir (cl_dataPath c)" "cmdlines_visible h w'"
    and "\<And>s. s \<in> {cl_dataPath c @ ''/'', bin_pd (cl_binaries c), bin_tikv (cl_binaries c)} \<Longrightarrow> legible (procfs_seen h w') s"
    and "pids_fresh w" "cl_record c = Some rc" "\<not> temp_name rc (rec_path rc)"
    and "p \<in> set (processes c')" "p \<notin> set (processes c)"
  shows "on_record h c' w' p \<and> (case cl_record c' of None \<Rightarrow> False | Some rc' \<Rightarrow> file_text w' (rec_path rc') = Some (record_text rc'))"
  using assms(1)
proof
  assume "startPD h v a b (c, w) = (Inr u, (c', w'))"
  then show ?thesis
    unfolding startPD_def Let_def split
    by (rule register_on_record)
      (use assms(2-) pd_args_dir abs_dir_nonempty in \<open>auto simp: processes_def pd_process_def\<close>)
next
  assume "startTiKV h v i a b (c, w) = (Inr u, (c', w'))"
  then show ?thesis
    unfolding startTiKV_def Let_def split
    by (rule register_on_record)
      (use assms(2-) tikv_args_dir abs_dir_nonempty in \<open>auto simp: processes_tikv\<close>)
qed

subsection \<open>A dead cluster is reclaimed\<close>

text \<open>A process that \<open>SIGKILL\<close> ends: not the first, the caller's to signal, and leader of its group.\<close>

definition ordinary :: "host \<Rightarrow> world \<Rightarrow> int \<Rightarrow> bool" where
  "ordinary h w p \<longleftrightarrow> 1 < p \<and> may_signal h p \<and> \<not> unkillable (server h p) \<and>
    (\<forall>q \<in> set (procs w). proc_pid q = p \<longrightarrow> proc_group q = p)"

abbreviation dies :: "host \<Rightarrow> world \<Rightarrow> world \<Rightarrow> bool" where
  "dies h \<equiv> sweeps h (\<lambda>_. False) (\<lambda>_. False)"

lemma is_alive_iff: "is_alive w p \<longleftrightarrow> (\<exists>q \<in> set (procs w). proc_pid q = p \<and> alive q)"
  by (simp add: is_alive_def list_ex_iff)

lemma signalGroup_kills:
  assumes "ordinary h w p"
  shows "\<not> is_alive (snd (signalGroup h p SIGKILL w)) p"
proof (cases "is_alive w p")
  case True
  then obtain q where q: "q \<in> set (procs w)" "proc_pid q = p" "alive q" by (auto simp: is_alive_iff)
  have hit: "addressed h (- p) r \<longleftrightarrow> alive r \<and> proc_group r = p" for r
    using assms by (simp add: ordinary_def addressed_def)
  have found: "list_ex (addressed h (- p)) (procs w)"
    "list_ex (\<lambda>r. addressed h (- p) r \<and> may_signal h (proc_pid r)) (procs w)"
    using assms q by (auto simp: list_ex_iff hit ordinary_def)
  have "signalGroup h p SIGKILL w = (Inr (), w\<lparr>procs := map (\<lambda>r. if addressed h (- p) r \<and> may_signal h (proc_pid r)
      then deliver h SIGKILL (now w) r else r) (procs w)\<rparr>)"
    using found by (simp add: signalGroup_def kill_def)
  then show ?thesis using assms
    by (auto simp: is_alive_iff hit ordinary_def deliver_def)
next
  case False
  then show ?thesis using fewer_alive_origin [OF signalGroup_fewer_alive]
    by (force simp: is_alive_iff)
qed

lemma dead_stays: "dies h w w' \<Longrightarrow> is_alive w' p \<Longrightarrow> is_alive w p"
  by (auto simp: is_alive_iff dest!: sweepsD(2) elim!: fewer_alive_origin)

lemma ordinary_stays: "dies h w w' \<Longrightarrow> ordinary h w p \<Longrightarrow> ordinary h w' p"
  by (auto simp: ordinary_def dest!: sweepsD(2) elim!: fewer_alive_origin)

lemma pids_stay: "dies h w w' \<Longrightarrow> map proc_pid (procs w') = map proc_pid (procs w)"
  by (drule sweepsD(2)) (auto simp: fewer_alive_def list_all2_conv_all_nth intro!: nth_equalityI)

lemma find_unique:
  "distinct (map f xs) \<Longrightarrow> find (\<lambda>x. f x = k \<and> P x) xs = Some y \<longleftrightarrow> y \<in> set xs \<and> P y \<and> f y = k"
  by (induction xs) auto

lemma live_proc_unique:
  "distinct (map proc_pid (procs w)) \<Longrightarrow> live_proc w p = Some q \<longleftrightarrow> q \<in> set (procs w) \<and> alive q \<and> proc_pid q = p"
  by (simp add: live_proc_def find_unique)

lemma live_proc_stays:
  assumes "dies h w w'" "distinct (map proc_pid (procs w))" "live_proc w' p = Some q"
  shows "live_proc w p = Some q"
proof -
  from live_proc_Some [OF assms(3)] have q: "q \<in> set (procs w')" "alive q" "proc_pid q = p" by auto
  from fewer_alive_origin [OF sweepsD(2) [OF assms(1)] q(1)] q(2) have "q \<in> set (procs w)" by fastforce
  with q assms(2) show ?thesis by (simp add: live_proc_unique)
qed

lemma recognised_stays:
  assumes "dies h w w'" "distinct (map proc_pid (procs w))" "fst (processIsServer h p b d w)" "is_alive w' p"
  shows "fst (processIsServer h p b d w')"
proof -
  obtain q where q: "live_proc w' p = Some q"
    using assms(4) by (cases "live_proc w' p") (auto simp: is_alive_iff live_proc_def find_None_iff)
  note old = live_proc_stays [OF assms(1,2) q]
  show ?thesis
    using assms(3) q old sweepsD(3) [OF assms(1)]
    by (auto simp: processIsServer_def processCommandLine_def haveProcfsCached_eq Let_def split: if_splits)
qed

lemma kill_server_kills:
  assumes "fst (processIsServer h (sr_PID s) (sr_Binary s) d w)" "ordinary h w (sr_PID s)"
  shows "\<not> is_alive (kill_server h d s w) (sr_PID s)"
proof -
  obtain w1 where 1: "processIsServer h (sr_PID s) (sr_Binary s) d w = (True, w1)"
    using assms(1) by (cases "processIsServer h (sr_PID s) (sr_Binary s) d w") simp
  then have "looked h w w1"
    using processCommandLine_looked
    by (auto simp: processIsServer_def split: if_splits prod.splits option.splits)
  then have "ordinary h w1 (sr_PID s)" using assms(2) lookedD(1) by (simp add: ordinary_def)
  from signalGroup_kills [OF this] 1 show ?thesis by (simp add: kill_server_def)
qed

text \<open>Nothing the library kills is the first process of the machine.\<close>

lemma dies_kill_server: "foreign h w (\<lambda>_. False) d \<Longrightarrow> dies h w (kill_server h d s w)"
  by (rule kill_server_sweeps) (simp add: grouped_def)

lemma kill_servers_kill:
  assumes "foreign h w (\<lambda>_. False) d" "distinct (map proc_pid (procs w))" "s \<in> set ss"
    and "fst (processIsServer h (sr_PID s) (sr_Binary s) d w)" "ordinary h w (sr_PID s)"
  shows "\<not> is_alive (forS ss (kill_server h d) w) (sr_PID s)"
  using assms
proof (induction ss arbitrary: w)
  case (Cons a ss)
  let ?w = "kill_server h d a w"
  have one: "dies h w ?w" by (rule dies_kill_server [OF Cons.prems(1)])
  have rest: "dies h ?w (forS ss (kill_server h d) ?w)"
    by (rule kill_servers_sweeps) (simp add: grouped_def, rule foreign_sweeps [OF one Cons.prems(1)])
  show ?case
  proof (cases "is_alive ?w (sr_PID s)")
    case False
    then show ?thesis using dead_stays [OF rest] by auto
  next
    case True
    have "s \<in> set ss" using Cons.prems(3-5) True kill_server_kills by auto
    moreover have "distinct (map proc_pid (procs ?w))" using Cons.prems(2) pids_stay [OF one] by simp
    ultimately show ?thesis
      using Cons.IH [of ?w] foreign_sweeps [OF one Cons.prems(1)] ordinary_stays [OF one Cons.prems(5)]
        recognised_stays [OF one Cons.prems(2,4) True] by simp
  qed
qed simp

text \<open>Where nothing fails, \<open>/proc\<close> shows every live process.\<close>

lemma entries_of_complete:
  assumes "\<And>p. io_fault h OpRead p = None" "procfs_seen h w" "distinct (map proc_pid (procs w))"
    and "q \<in> set (procs w)" "alive q" "int64 (proc_pid q)" "itoa (proc_pid q) \<in> set names"
  shows "\<lparr>pe_pid = proc_pid q, pe_cmdline = shown True q\<rparr> \<in> set (fst (entries_of h names w))"
  using assms(2-7)
proof (induction names arbitrary: w)
  case (Cons name names)
  show ?case
  proof (cases "atoi name")
    case None
    then have "name \<noteq> itoa (proc_pid q)" using atoi_itoa64 Cons.prems(5) by auto
    with None Cons show ?thesis by simp
  next
    case (Some p)
    obtain r w1 where c: "processCommandLine h p w = (r, w1)" by fastforce
    note l = processCommandLine_looked [OF c]
    show ?thesis
    proof (cases "name = itoa (proc_pid q)")
      case True
      then have "p = proc_pid q" using Some atoi_itoa64 Cons.prems(5) by simp
      then have "live_proc w p = Some q" using Cons.prems(2-4) by (simp add: live_proc_unique)
      then have "r = Some (shown True q)"
        using c assms(1) Cons.prems(1) by (auto simp: processCommandLine_def haveProcfsCached_eq shown_def)
      with Some c \<open>p = proc_pid q\<close> show ?thesis by (simp split: prod.split)
    next
      case False
      then have "\<lparr>pe_pid = proc_pid q, pe_cmdline = shown True q\<rparr> \<in> set (fst (entries_of h names w1))"
        using Cons lookedD [OF l] by simp
      with Some c show ?thesis by (cases r) (auto split: prod.split)
    qed
  qed
qed simp

lemma enumerate_complete:
  assumes "\<And>k p. io_fault h k p = None" "procfs_seen h w" "distinct (map proc_pid (procs w))"
    and "q \<in> set (procs w)" "alive q" "int64 (proc_pid q)"
  shows "\<lparr>pe_pid = proc_pid q, pe_cmdline = shown True q\<rparr> \<in> set (fst (enumerateProcesses h w))"
proof -
  let ?w = "w\<lparr>haveProcfs := Some True\<rparr>"
  have "\<lparr>pe_pid = proc_pid q, pe_cmdline = shown True q\<rparr> \<in> set (fst (entries_of h (proc_dir h ?w) ?w))"
    by (rule entries_of_complete) (use assms in \<open>auto simp: proc_dir_def\<close>)
  then show ?thesis
    using assms(1,2) by (simp add: enumerateProcesses_def haveProcfsCached_eq enumerateViaProcfs_def)
qed

lemma kill_entries_kill:
  assumes "\<And>e. e \<in> set es \<Longrightarrow> cmdlineReferences (pe_cmdline e) d \<Longrightarrow> 1 < pe_pid e"
    and "e \<in> set es" "cmdlineReferences (pe_cmdline e) d" "pe_pid e \<noteq> self_pid h" "ordinary h w (pe_pid e)"
  shows "\<not> is_alive (forS es (kill_entry h d) w) (pe_pid e)"
  using assms
proof (induction es arbitrary: w)
  case (Cons a es)
  let ?w = "kill_entry h d a w"
  have one: "dies h t (kill_entry h d b t)" if "b \<in> set (a # es)" for b t
    using Cons.prems(1) that sweep.frame_refl
    by (auto simp: kill_entry_def grouped_def intro: sweeps_signal)
  have rest: "dies h ?w (forS es (kill_entry h d) ?w)" by (rule sweep.forS_stays) (simp add: one)
  show ?case
  proof (cases "e \<in> set es")
    case True
    with Cons.IH [of ?w] Cons.prems ordinary_stays [OF one] show ?thesis by simp
  next
    case False
    with Cons.prems have "\<not> is_alive ?w (pe_pid e)"
      using signalGroup_kills by (auto simp: kill_entry_def)
    with dead_stays [OF rest] show ?thesis by auto
  qed
qed simp

lemma killProcessesUsing_kills:
  assumes "\<And>k p. io_fault h k p = None" "procfs_seen h w" "distinct (map proc_pid (procs w))"
    and "foreign h w (\<lambda>_. False) d" "ownsDataDirName d"
    and "q \<in> set (procs w)" "alive q" "int64 (proc_pid q)" "cmdlineReferences (shown True q) d"
    and "proc_pid q \<noteq> self_pid h" "ordinary h w (proc_pid q)"
  shows "\<not> is_alive (killProcessesUsing h d w) (proc_pid q)"
proof -
  obtain es w1 where e: "enumerateProcesses h w = (es, w1)" by fastforce
  note sound = enumerateProcesses_sound [OF e]
  have entry: "\<lparr>pe_pid = proc_pid q, pe_cmdline = shown True q\<rparr> \<in> set es"
    using enumerate_complete [OF assms(1-3,6-8)] e by simp
  have "1 < pe_pid e" if "e \<in> set es" "cmdlineReferences (pe_cmdline e) d" for e
    using sound(2) [OF that(1)] that(2) assms(2,4) by (auto simp: shows_process_def foreign_def)
  from kill_entries_kill [OF this entry, where h = h and w = w1] assms(5,9-11) e lookedD(1) [OF sound(1)]
  show ?thesis by (simp add: killProcessesUsing_def ordinary_def)
qed

text \<open>What the deletions leave.\<close>

lemma remove_gone:
  assumes "\<And>k p. io_fault h k p = None"
  shows "file_text (snd (remove h p w)) p = None"
  using assms
  by (auto simp: remove_def file_text_def lookup_drop_entries lookup_touch split: option.split node.split)

lemma file_text_unlock [simp]: "file_text (unlock l w) = file_text w"
  by (rule ext) (simp add: file_text_def unlock_def)

lemma exists_unlock [simp]: "exists_at (unlock l w) p = exists_at w p"
  by (simp add: exists_at_def unlock_def)

lemma is_alive_unlock [simp]: "is_alive (unlock l w) p = is_alive w p"
  by (simp add: is_alive_def unlock_def)

lemma remove_both:
  assumes "\<And>k p. io_fault h k p = None"
  shows "file_text (snd (remove h q (snd (remove h p w)))) p = None \<and>
    file_text (snd (remove h q (snd (remove h p w)))) q = None \<and>
    (exists_at (snd (remove h q (snd (remove h p w)))) d \<longrightarrow> exists_at w d) \<and>
    is_alive (snd (remove h q (snd (remove h p w)))) = is_alive w"
proof -
  have "file_text (snd (remove h q (snd (remove h p w)))) p = None"
    using remove_gone [OF assms, where p = p and w = w] file_text_remove [of p q h "snd (remove h p w)"]
      remove_gone [OF assms, where p = p and w = "snd (remove h p w)"]
    by (cases "p = q") auto
  moreover have "is_alive (snd (remove h q (snd (remove h p w)))) = is_alive w"
    using same_restD(1) [OF staysD [OF same_rest_ops(7)]] by (intro ext) (simp add: is_alive_def)
  ultimately show ?thesis using remove_gone [OF assms] exists_remove by blast
qed

lemma recognised_same:
  assumes "procs w' = procs w" "procfs_seen h w' = procfs_seen h w"
  shows "fst (processIsServer h p b d w') = fst (processIsServer h p b d w)"
proof -
  have "live_proc (w'\<lparr>haveProcfs := x\<rparr>) p = live_proc w p" for x by (simp add: live_proc_def assms(1))
  then show ?thesis
    by (simp add: processIsServer_def processCommandLine_def haveProcfsCached_eq assms Let_def
        split: option.split)
qed

text \<open>The processes that a sweep of a dead cluster must not leave behind.\<close>

definition servers_of :: "host \<Rightarrow> clusterRecord \<Rightarrow> world \<Rightarrow> int set" where
  "servers_of h r w =
    {p. ordinary h w p \<and>
      ((\<exists>s \<in> set (rec_Servers r). sr_PID s = p \<and> fst (processIsServer h p (sr_Binary s) (rec_DataPath r) w)) \<or>
       (rec_OwnsDataPath r \<and> ownsDataDirName (rec_DataPath r) \<and> p \<noteq> self_pid h \<and> int64 p \<and>
        (\<exists>q \<in> set (procs w). alive q \<and> proc_pid q = p \<and> cmdlineReferences (shown True q) (rec_DataPath r))))}"

lemma reclaim_locked_reclaims:
  assumes quiet: "\<And>k p. io_fault h k p = None"
    and "procfs_seen h w" "distinct (map proc_pid (procs w))" "file_text w path = Some raw"
    and "decode_record raw = Some r" "foreign h w (\<lambda>_. False) (rec_DataPath r)" "leaf (rec_DataPath r) \<noteq> ''.''"
  shows "case reclaim_locked h path w of (ok, w') \<Rightarrow>
    ok \<and> file_text w' path = None \<and> file_text w' (lockPathFor path) = None \<and>
    (rec_OwnsDataPath r \<longrightarrow> rec_DataPath r \<noteq> [] \<longrightarrow> \<not> exists_at w' (rec_DataPath r)) \<and>
    (\<forall>p \<in> servers_of h r w. \<not> is_alive w' p)"
proof -
  let ?d = "rec_DataPath r"
  define w1 where "w1 = forS (rec_Servers r) (kill_server h ?d) w"
  define w2 where "w2 = (if rec_OwnsDataPath r then killProcessesUsing h ?d w1 else w1)"
  define w3 where "w3 = (if rec_OwnsDataPath r \<and> ?d \<noteq> [] then snd (removeAll h ?d w2) else w2)"
  have run: "reclaim_locked h path w = (True, snd (remove h (lockPathFor path) (snd (remove h path w3))))"
    using assms(4,5) quiet
    by (auto simp: reclaim_locked_def readFile_def Let_def w1_def w2_def w3_def elim!: file_text_SomeE)
  have 1: "dies h w w1" unfolding w1_def by (rule kill_servers_sweeps) (simp_all add: grouped_def assms(6))
  have 2: "dies h w1 w2"
    unfolding w2_def using foreign_sweeps [OF 1 assms(6)] sweep.frame_refl
    by (auto intro: killProcessesUsing_sweeps simp: grouped_def)
  have 3: "dies h w2 w3" unfolding w3_def using sweep.frame_refl by (auto intro: sweeps_removeAll simp: apart_def)
  have "\<not> is_alive w3 p" if p: "p \<in> servers_of h r w" for p
  proof -
    have "\<not> is_alive w1 p \<or> \<not> is_alive w2 p"
    proof (cases "\<exists>s \<in> set (rec_Servers r). sr_PID s = p \<and> fst (processIsServer h p (sr_Binary s) ?d w)")
      case True
      with p kill_servers_kill [OF assms(6,3)] show ?thesis by (auto simp: servers_of_def w1_def)
    next
      case False
      with p obtain q where q: "q \<in> set (procs w)" "alive q" "proc_pid q = p" "cmdlineReferences (shown True q) ?d"
        and own: "rec_OwnsDataPath r" "ownsDataDirName ?d" "p \<noteq> self_pid h" "int64 p" "ordinary h w p"
        by (auto simp: servers_of_def)
      show ?thesis
      proof (cases "live_proc w1 p")
        case None
        then show ?thesis by (auto simp: is_alive_iff live_proc_def find_None_iff)
      next
        case (Some q1)
        have "live_proc w p = Some q" using q assms(3) by (simp add: live_proc_unique)
        with live_proc_stays [OF 1 assms(3) Some] have "q1 = q" by simp
        with live_proc_Some [OF Some] have "q \<in> set (procs w1)" by simp
        then have "\<not> is_alive (killProcessesUsing h ?d w1) (proc_pid q)"
          using own q ordinary_stays [OF 1] pids_stay [OF 1] assms(2,3) sweepsD(3) [OF 1]
          by (intro killProcessesUsing_kills quiet foreign_sweeps [OF 1 assms(6)]) auto
        then show ?thesis using own q(3) by (simp add: w2_def)
      qed
    qed
    then show ?thesis using dead_stays [OF 2] dead_stays [OF 3] by blast
  qed
  moreover have "\<not> exists_at w3 ?d" if "rec_OwnsDataPath r" "?d \<noteq> []"
    using that removeAll_gone [OF that(2) assms(7) quiet] by (simp add: w3_def)
  ultimately show ?thesis using remove_both [OF quiet, where p = path and q = "lockPathFor path" and w = w3 and d = ?d]
    by (auto simp: run)
qed

text \<open>
  A dead cluster is reclaimed. When nothing fails and nobody holds the lock of a record that can be
  read, \<open>reclaimRecord\<close> reports success, the record and the lock are gone, so is the data directory if
  the cluster owned it, and no server of the cluster is alive: neither one that the record lists, nor, for
  an owned directory, one that was started and never recorded.
\<close>

lemma reclaimRecord_reclaims:
  assumes "\<And>k p. io_fault h k p = None" "procfs_seen h w" "distinct (map proc_pid (procs w))"
    and "lookup w (lockPathFor path) = Some (Regular i s x)" "locks w i = None"
    and "file_text w path = Some raw" "decode_record raw = Some r"
    and "foreign h w (\<lambda>_. False) (rec_DataPath r)" "leaf (rec_DataPath r) \<noteq> ''.''"
  shows "case reclaimRecord h path w of (ok, w') \<Rightarrow>
    ok \<and> file_text w' path = None \<and> file_text w' (lockPathFor path) = None \<and>
    (rec_OwnsDataPath r \<longrightarrow> rec_DataPath r \<noteq> [] \<longrightarrow> \<not> exists_at w' (rec_DataPath r)) \<and>
    (\<forall>p \<in> servers_of h r w. \<not> is_alive w' p)"
proof -
  let ?t = "w\<lparr>next_fd := Suc (next_fd w), locks := (locks w)(i \<mapsto> next_fd w)\<rparr>"
  let ?l = "\<lparr>lock_file = Some (next_fd w, i)\<rparr>"
  have probe: "tryLock h (lockPathFor path) w = (Some ?l, ?t)"
    using assms(1,4,5) by (simp add: tryLock_def acquireFileLock_def open_rdwr_def flock_ex_def)
  have same: "procs ?t = procs w" "file_text ?t = file_text w" "procfs_seen h ?t = procfs_seen h w"
    by (auto simp: file_text_def procfs_seen_def)
  have "servers_of h r ?t = servers_of h r w"
    using recognised_same [OF same(1,3)] by (simp add: servers_of_def ordinary_def)
  moreover obtain ok w' where run: "reclaim_locked h path ?t = (ok, w')" by fastforce
  moreover have "reclaimRecord h path w = (ok, unlock ?l w')"
    by (simp add: reclaimRecord_def guarded_def probe run)
  ultimately show ?thesis
    using reclaim_locked_reclaims [where h = h and w = ?t and path = path and raw = raw and r = r] assms(1-3,6-9)
    by (simp add: same foreign_def)
qed

text \<open>
  A record without its lock file is never reclaimed: \<open>reclaimRecord\<close> reports failure and changes nothing,
  whatever fails and whatever the record says.
\<close>

lemma reclaimRecord_no_lock:
  assumes "lookup w (lockPathFor path) = None"
  shows "reclaimRecord h path w = (False, w)"
  using assms
  by (auto simp: reclaimRecord_def guarded_def tryLock_def acquireFileLock_def open_rdwr_def split: option.split)

end
