(* ===== verification/Examples.thy ===== *)
theory Examples
  imports Recovery
begin

text \<open>
  Worked examples: the theorems about a whole cluster, applied to runs that are evaluated step by step.
  On \<open>ready_host\<close> PD and the store answer at once; the binaries are supplied in \<open>/opt\<close>. On
  \<open>stuck_host\<close> a server cannot be killed.
\<close>

subsection \<open>A start that succeeds\<close>

definition quote :: string where "quote = [CHR 0x22]"

definition members_text :: string where
  "members_text = ''{'' @ quote @ ''header'' @ quote @ '':{'' @ quote @ ''cluster_id'' @ quote @ '':7}}''"

definition stores_text :: string where
  "stores_text = ''{'' @ quote @ ''stores'' @ quote @ '':[{'' @ quote @ ''store'' @ quote @ '':{'' @ quote @ ''state_name'' @ quote @ '':'' @ quote @ ''Up'' @ quote @ ''}}]}''"

definition ready_host :: host where
  "ready_host = example_host\<lparr>kernel_port := \<lambda>k. int k + 2,
     http_get := \<lambda>url t. HttpResponse 200 [] (if hasSuffix url ''members'' then members_text else stores_text)\<rparr>"

definition example_env :: env where
  "example_env = \<lparr>env_codecs = example_codecs, env_toml = (\<lambda>_. Inr []), env_time = (\<lambda>_. ''t'')\<rparr>"

definition supplied :: Config where
  "supplied = DefaultConfig\<lparr>cfg_binariesPath := ''/opt'', cfg_cachePath := ''/tmp'', cfg_host := ''h'',
     cfg_reapOrphans := False\<rparr>"

definition opt_binaries :: binaries where
  "opt_binaries = \<lparr>bin_pd = ''/opt/pd-server'', bin_tikv = ''/opt/tikv-server''\<rparr>"

definition ready_world :: world where
  "ready_world = supplied_world\<lparr>shellAvailable := Some True, next_ino := 3\<rparr>"

lemma resolve_supplied: "resolveBinaries ready_host example_codecs supplied ready_world = (Inr opt_binaries, ready_world)"
proof -
  have supplied: "suppliedBinariesDir ready_host supplied \<noteq> []"
    "suppliedBinaries ready_host (suppliedBinariesDir ready_host supplied) ready_world = Inr opt_binaries"
    by code_simp+
  show ?thesis unfolding resolveBinaries_def Let_def by (simp only: supplied not_False_eq_True if_True)
qed

lemma warn_ready: "warnMissingWatchdog ready_host None ready_world = ready_world"
  by (simp add: warnMissingWatchdog_def haveShell_def ready_world_def)

definition supplied_handle :: Cluster where "supplied_handle = New [supplied]\<lparr>cl_binaries := opt_binaries\<rparr>"

lemma Start_supplied:
  "Start ready_host example_env (New [supplied], ready_world) =
    attempts ready_host example_env startAttempts [] (supplied_handle, ready_world)"
proof -
  have cfg: "cl_config (New [supplied]) = supplied" "cl_started (New [supplied]) = False" "cfg_tikvCount supplied = 1" "cfg_reapOrphans supplied = False" "cfg_logger supplied = None"
    by code_simp+
  show ?thesis
    by (simp add: Start_def start_def cfg sweep_orphans_def resolve_supplied warn_ready supplied_handle_def example_env_def)
qed

lemma run_evaluated:
  "(case attempts ready_host example_env startAttempts [] (supplied_handle, ready_world) of (r, (c, w)) \<Rightarrow>
     r = Inr () \<and> length (processes c) = 2 \<and> length (live_servers 101 w) = 2)"
  by code_simp

definition started_run :: "Cluster \<times> world" where
  "started_run = snd (Start ready_host example_env (New [supplied], ready_world))"

lemma Start_run: "Start ready_host example_env (New [supplied], ready_world) = (Inr (), started_run)"
  using run_evaluated unfolding started_run_def Start_supplied by (auto split: prod.splits)

lemma started_run_reached: "reached ready_host example_env [supplied] started_run"
proof -
  have "reached ready_host example_env [supplied] (New [supplied], ready_world)" by (rule reached_new)
  then show ?thesis by (rule reached_call [where op = Starting]) (simp add: Start_run)
qed

lemma started_run_select: "length (processes (fst started_run)) = 2" "length (live_servers 101 (snd started_run)) = 2"
  using run_evaluated unfolding started_run_def Start_supplied by (auto split: prod.splits)

theorem handle_invariant_witness:
  "(case started_run of (c, w) \<Rightarrow> length (processes c) = 2 \<and>
    (if cl_started c
     then cl_pd c \<noteq> None \<and> length (cl_tikvs c) = nat (cfg_tikvCount (cl_config c)) \<and> 1 \<le> cfg_tikvCount (cl_config c) \<and>
       cl_record c \<noteq> None \<and> length (processes c) = Suc (length (cl_tikvs c))
     else cl_pd c = None \<and> cl_tikvs c = [] \<and> cl_record c = None))"
proof -
  obtain c w where r: "started_run = (c, w)" by fastforce
  from handle_invariant [OF started_run_reached [unfolded r]] started_run_select show ?thesis by (simp add: r)
qed

theorem life_refined_witness:
  "lifecycle Stopped Starting (Inr ()) (phase_of (fst started_run)) \<and>
    serving ready_host (fst started_run) (snd started_run)"
proof -
  have p: "phase_of (New [supplied]) = Stopped" by (simp add: phase_of_def New_def)
  obtain c w where r: "started_run = (c, w)" by fastforce
  have "perform ready_host example_env Starting (New [supplied], ready_world) = (Inr (), (c, w))"
    by (simp add: Start_run r)
  from life_refined [OF reached_new this] show ?thesis by (simp add: p r)
qed

lemma ready_fresh: "fresh_ok ready_world" "pids_fresh ready_world"
  by (simp_all add: fresh_ok_def pids_fresh_def ready_world_def supplied_world_def example_world_def lookup_def)

lemma ready_killable: "0 < p \<Longrightarrow> killable ready_host p"
  by (simp add: killable_def ready_host_def example_host_def example_behaviour_def)

lemma supplied_handle_idle: "idle supplied_handle" "\<not> cl_started supplied_handle"
  by (simp_all add: idle_def supplied_handle_def New_def)

theorem no_server_left_witness:
  "length (live_servers 101 (snd started_run)) = 2 \<and>
    live_servers 101 (snd (snd (teardown ready_host started_run))) = []"
proof
  show "length (live_servers 101 (snd started_run)) = 2" by (rule started_run_select)
  obtain c1 w1 where 1: "started_run = (c1, w1)" by fastforce
  obtain r' c3 w3 where 3: "teardown ready_host (c1, w1) = (r', (c3, w3))" by (metis prod.exhaust)
  have n: "next_pid ready_world = 101" by (simp add: ready_world_def supplied_world_def example_world_def)
  have "attempts ready_host example_env startAttempts [] (supplied_handle, ready_world) = (Inr (), (c1, w1))"
    using Start_run by (simp add: Start_supplied 1)
  from no_server_left [OF supplied_handle_idle ready_fresh(2,1) _ this steady.frame_refl 3] ready_killable n
  show "live_servers 101 (snd (snd (teardown ready_host started_run))) = []" by (simp add: 1 3)
qed

subsection \<open>A teardown that cannot kill a server\<close>

text \<open>Process 101 cannot be killed: it is stuck in the kernel.\<close>

definition stuck_host :: host where
  "stuck_host = example_host\<lparr>server := \<lambda>_. example_behaviour\<lparr>term_delay := None, unkillable := True\<rparr>\<rparr>"

definition stuck_process :: process where
  "stuck_process = \<lparr>p_name = ''pd-0'', p_pid = 101, p_logPath = ''/tmp/pd.log'', p_watchdog = None, p_tee = None\<rparr>"

definition stuck_handle :: Cluster where
  "stuck_handle = New []\<lparr>cl_started := True, cl_dataPath := ''/tmp/embedded-tikv-8'', cl_ownsDataPath := True,
     cl_pd := Some (new_pd (New []) 2 3\<lparr>pd_proc := Some stuck_process\<rparr>),
     cl_record := Some (orphan_record\<lparr>rec_path := record_path example_registry ''8''\<rparr>)\<rparr>"

text \<open>The record of the stuck server survives the teardown.\<close>

theorem teardown_correct_witness:
  "isl (fst (teardown stuck_host (stuck_handle, example_two))) \<and>
    file_text (snd (snd (teardown stuck_host (stuck_handle, example_two)))) (record_path example_registry ''8'') =
      Some (record_text orphan_record)"
proof
  show err: "isl (fst (teardown stuck_host (stuck_handle, example_two)))" by code_simp
  have rec: "record_path example_registry ''8'' \<in> record_files stuck_handle"
    by (simp add: record_files_def stuck_handle_def New_def)
  have "\<not> under (cl_dataPath stuck_handle) (record_path example_registry ''8'')" by code_simp
  from teardown_correct [OF this, where h = stuck_host and w = example_two] err rec
  have "file_text (snd (snd (teardown stuck_host (stuck_handle, example_two)))) (record_path example_registry ''8'') =
      file_text example_two (record_path example_registry ''8'')"
    by (auto split: prod.splits sum.splits)
  moreover have "file_text example_two (record_path example_registry ''8'') = Some (record_text orphan_record)"
    by code_simp
  ultimately show "file_text (snd (snd (teardown stuck_host (stuck_handle, example_two)))) (record_path example_registry ''8'') =
      Some (record_text orphan_record)" by simp
qed

subsection \<open>Recognition and recovery\<close>

definition recorded_handle :: Cluster where
  "recorded_handle = supplied_handle\<lparr>cl_dataPath := ''/tmp/embedded-tikv-7'', cl_ownsDataPath := True,
     cl_record := Some (example_record\<lparr>rec_Servers := []\<rparr>)\<rparr>"

text \<open>The same machine without \<open>/proc\<close>, where \<^verbatim>\<open>ps\<close> shows the processes.\<close>

definition ps_host :: host where
  "ps_host = ready_host\<lparr>procfs_mounted := False\<rparr>"

lemma startPD_evaluated:
  "(case startPD ready_host example_env 2 3 (recorded_handle, ready_world) of (r, (c, w)) \<Rightarrow>
     r = Inr () \<and> length (processes c) = 1 \<and> procfs_seen ready_host w)"
  "(case startPD ps_host example_env 2 3 (recorded_handle, ready_world) of (r, (c, w)) \<Rightarrow>
     r = Inr () \<and> length (processes c) = 1 \<and> \<not> procfs_seen ps_host w)"
  by code_simp+

theorem servers_recognised_witness:
  "(case startPD ready_host example_env 2 3 (recorded_handle, ready_world) of (r, (c, w)) \<Rightarrow>
     length (processes c) = 1 \<and> list_all (on_record ready_host c w) (processes c)) \<and>
   (case startPD ps_host example_env 2 3 (recorded_handle, ready_world) of (r, (c, w)) \<Rightarrow>
     length (processes c) = 1 \<and> list_all (on_record ps_host c w) (processes c))"
proof -
  have none: "processes recorded_handle = []"
    by (simp add: processes_def pd_process_def recorded_handle_def supplied_handle_def New_def List.map_filter_simps)
  have dir: "abs_dir (cl_dataPath recorded_handle)"
    and temp: "\<not> temp_name (example_record\<lparr>rec_Servers := []\<rparr>) (rec_path (example_record\<lparr>rec_Servers := []\<rparr>))"
    and texts: "list_all (\<lambda>s. legible True s \<and> legible False s) [cl_dataPath recorded_handle @ ''/'',
      bin_pd (cl_binaries recorded_handle), bin_tikv (cl_binaries recorded_handle)]"
    by code_simp+
  have legible: "legible b s" if "s \<in> {cl_dataPath recorded_handle @ ''/'',
      bin_pd (cl_binaries recorded_handle), bin_tikv (cl_binaries recorded_handle)}" for b s
    using texts that by (cases b) (auto simp: list_all_iff)
  have rec: "cl_record recorded_handle = Some (example_record\<lparr>rec_Servers := []\<rparr>)" by (simp add: recorded_handle_def)
  have fresh: "pids_fresh ready_world"
    by (simp add: pids_fresh_def ready_world_def supplied_world_def example_world_def)
  have visible: "cmdlines_visible ready_host w" "cmdlines_visible ps_host w" for w
    by (simp_all add: cmdlines_visible_def ps_host_def ready_host_def example_host_def)
  have found: "list_all (on_record h c w) (processes c)"
    if "startPD h example_env 2 3 (recorded_handle, ready_world) = (Inr (), (c, w))" "\<And>w. cmdlines_visible h w" for h c w
    using servers_recognised [OF disjI1 [OF that(1)] dir that(2) legible fresh rec temp] none
    by (simp add: list_all_iff)
  from startPD_evaluated found [OF _ visible(1)] found [OF _ visible(2)] show ?thesis by (auto split: prod.splits)
qed

end
