(* ===== verification/Wiring.thy ===== *)
theory Wiring
  imports Examples
begin

text \<open>
  How the servers of a cluster are wired: which ports, names and directories they have, which command
  lines they run, and that no two of them share an address or a directory.
\<close>

subsection \<open>The shape of a started cluster\<close>

text \<open>The process of a server exists, and was started with this command line.\<close>

definition runs :: "world \<Rightarrow> process option \<Rightarrow> string list \<Rightarrow> bool" where
  "runs w p args \<longleftrightarrow>
    (case p of None \<Rightarrow> False | Some pr \<Rightarrow> list_ex (\<lambda>q. proc_pid q = p_pid pr \<and> argv q = args) (procs w))"

definition pd_wired :: "Cluster \<Rightarrow> world \<Rightarrow> pdInstance \<Rightarrow> bool" where
  "pd_wired c w p \<longleftrightarrow>
    p = (new_pd c (pd_peerPort p) (pd_clientPort p))\<lparr>pd_proc := pd_proc p\<rparr> \<and>
    runs w (pd_proc p) (bin_pd (cl_binaries c) # pd_args p)"

text \<open>The \<open>i\<close>th store talks to the PD of this handle.\<close>

definition kv_wired :: "Cluster \<Rightarrow> world \<Rightarrow> nat \<Rightarrow> tikvInstance \<Rightarrow> bool" where
  "kv_wired c w i t \<longleftrightarrow>
    t = (new_tikv c i (kv_port t) (kv_statusPort t))\<lparr>kv_proc := kv_proc t\<rparr> \<and>
    runs w (kv_proc t) (bin_tikv (cl_binaries c) # tikv_args [pd_url c] t)"

definition wired :: "Cluster \<Rightarrow> world \<Rightarrow> bool" where
  "wired c w \<longleftrightarrow>
    (case cl_pd c of None \<Rightarrow> False | Some p \<Rightarrow> pd_wired c w p) \<and>
    (\<forall>i < length (cl_tikvs c). kv_wired c w i (cl_tikvs c ! i))"

definition cluster_ports :: "Cluster \<Rightarrow> int list" where
  "cluster_ports c =
    (case cl_pd c of None \<Rightarrow> [] | Some p \<Rightarrow> [pd_peerPort p, pd_clientPort p]) @
    concat (map (\<lambda>t. [kv_port t, kv_statusPort t]) (cl_tikvs c))"

definition server_dirs :: "Cluster \<Rightarrow> string list" where
  "server_dirs c = (case cl_pd c of None \<Rightarrow> [] | Some p \<Rightarrow> [pd_dir p]) @ map kv_dir (cl_tikvs c)"

subsection \<open>Command lines stay\<close>

definition keeps :: "world \<Rightarrow> world \<Rightarrow> bool" where
  "keeps w w' \<longleftrightarrow> (pids_fresh w \<longrightarrow> pids_fresh w' \<and> (\<forall>p args. runs w p args \<longrightarrow> runs w' p args))"

interpretation keeps: frame keeps
  by unfold_locales (auto simp: keeps_def)

lemma keeps_fresh: "keeps w w' \<Longrightarrow> pids_fresh w \<Longrightarrow> pids_fresh w'"
  by (simp add: keeps_def)

lemma keeps_runs: "keeps w w' \<Longrightarrow> pids_fresh w \<Longrightarrow> runs w p args \<Longrightarrow> runs w' p args"
  by (simp add: keeps_def)

lemma steady_keeps:
  assumes "steady w w'"
  shows "keeps w w'"
  unfolding keeps_def
proof (intro impI conjI allI)
  assume fresh: "pids_fresh w"
  then show "pids_fresh w'"
    using steady_origin [OF assms] assms unfolding pids_fresh_def steady_def same_identity_def by metis
  fix p args assume "runs w p args"
  then obtain pr q where p: "p = Some pr" and q: "q \<in> set (procs w)" "proc_pid q = p_pid pr" "argv q = args"
    by (auto simp: runs_def list_ex_iff split: option.splits)
  from q(1) obtain n where n: "n < length (procs w)" "q = procs w ! n" by (auto simp: in_set_conv_nth)
  moreover have all: "list_all2 same_identity (procs w) (procs w')" using assms by (simp add: steady_def)
  ultimately have "same_identity q (procs w' ! n)" "n < length (procs w')"
    using list_all2_nthD list_all2_lengthD by fastforce+
  with p q show "runs w' p args" by (auto simp: runs_def list_ex_iff same_identity_def)
qed

lemma launch_wired:
  assumes "launch h v c dir cp config name binary args lp w = (Inr p, w')" "pids_fresh w"
  shows "keeps w w' \<and> runs w' (Some p) (binary # args)"
proof -
  let ?m = "seqE (wrapE (create_error dir) (mkdirAll h dir)) (\<lambda>_. writeConfigFile h (env_toml v) cp config)"
  obtain r1 w0 where 1: "?m w = (r1, w0)" by fastforce
  have "stays steady ?m" by (intro steady.stays_combinators steady_ops steady_writeConfigFile)
  from steady_keeps [OF staysE [OF this 1]] have k0: "keeps w w0" .
  have "launch h v c dir cp config name binary args lp w =
      (case r1 of Inl e \<Rightarrow> (Inl e, w0) | Inr _ \<Rightarrow> startProcess h name binary args lp (cfg_logger (cl_config c))
        (watchdogCleanupPaths c) w0)"
    using 1 by (auto simp: launch_def seqE_def split: prod.splits sum.splits)
  with assms(1) have sp: "startProcess h name binary args lp (cfg_logger (cl_config c)) (watchdogCleanupPaths c) w0 = (Inr p, w')"
    by (cases r1) simp_all
  have fresh: "pids_fresh w0" using keeps_fresh [OF k0 assms(2)] .
  from startProcess_cases [OF sp fresh] obtain e1 ws where p: "p_pid p = next_pid w0"
    and np: "next_pid w' = p_pid p + 1 + int (length ws)"
    and ps: "procs w' = procs w0 @ \<lparr>proc_pid = p_pid p, proc_group = p_pid p, argv = binary # args, alive = True, exit_at = e1\<rparr> # ws"
    and ws: "if p_watchdog p = None then ws = []
      else \<exists>e2 a. ws = [\<lparr>proc_pid = p_pid p + 1, proc_group = p_pid p, argv = a, alive = True, exit_at = e2\<rparr>]"
    by auto
  have "keeps w0 w'"
    unfolding keeps_def
  proof (intro impI conjI allI)
    show "pids_fresh w'" using fresh p np ps ws by (fastforce simp: pids_fresh_def split: if_splits)
    show "runs w' p' a" if "runs w0 p' a" for p' a using that by (auto simp: runs_def ps split: option.splits)
  qed
  with k0 have "keeps w w'" by (rule keeps.frame_trans)
  then show ?thesis by (simp add: runs_def ps)
qed

lemma register_wired:
  assumes "register h name binary put (launch h v c dir cp config name binary args lp) (c, w) = (Inr u, (c', w'))"
    and "pids_fresh w"
  obtains p rec where "c' = (put p c)\<lparr>cl_record := rec\<rparr>" "keeps w w'" "runs w' (Some p) (binary # args)"
  using assms(1)
proof (cases rule: register_cases)
  case (launched p w1 rec)
  from launch_wired [OF launched(1) assms(2)] have 1: "keeps w w1" "runs w1 (Some p) (binary # args)" by simp_all
  have 2: "keeps w1 w'" using steady_keeps [OF steady_addServer [OF launched(2)]] .
  show thesis
    using that [OF launched(3) keeps.frame_trans [OF 1(1) 2] keeps_runs [OF 2 keeps_fresh [OF 1(1) assms(2)] 1(2)]] .
qed simp

subsection \<open>Starting the servers\<close>

text \<open>What the layout of the servers depends on.\<close>

definition same_setup :: "Cluster \<Rightarrow> Cluster \<Rightarrow> bool" where
  "same_setup c c' \<longleftrightarrow>
    cl_config c' = cl_config c \<and> cl_binaries c' = cl_binaries c \<and> cl_dataPath c' = cl_dataPath c"

lemma new_server_setup:
  "same_setup c c' \<Longrightarrow> new_pd c' = new_pd c" "same_setup c c' \<Longrightarrow> new_tikv c' = new_tikv c"
  by (simp_all add: same_setup_def new_pd_def new_tikv_def fun_eq_iff Let_def)

lemma new_server_update [simp]:
  "new_pd (c\<lparr>cl_pd := x\<rparr>) = new_pd c" "new_pd (c\<lparr>cl_record := r\<rparr>) = new_pd c"
  "new_tikv (c\<lparr>cl_tikvs := ts\<rparr>) = new_tikv c" "new_tikv (c\<lparr>cl_record := r\<rparr>) = new_tikv c"
  by (simp_all add: new_pd_def new_tikv_def fun_eq_iff Let_def)

lemma wired_keeps:
  assumes "wired c w" "keeps w w'" "pids_fresh w"
  shows "wired c w'"
proof -
  have "pd_wired c w p \<Longrightarrow> pd_wired c w' p" "kv_wired c w i t \<Longrightarrow> kv_wired c w' i t" for p i t
    unfolding pd_wired_def kv_wired_def using keeps_runs [OF assms(2,3)] by blast+
  with assms(1) show ?thesis unfolding wired_def by (simp split: option.splits)
qed

lemma pd_args_proc [simp]: "pd_args (p\<lparr>pd_proc := x\<rparr>) = pd_args p"
  by (simp add: pd_args_def peerURL_def clientURL_def)

lemma tikv_args_proc [simp]: "tikv_args us (t\<lparr>kv_proc := x\<rparr>) = tikv_args us t"
  by (simp add: tikv_args_def addr_def statusAddr_def)

lemma new_server_ports [simp]:
  "pd_peerPort (new_pd c a b) = a" "pd_clientPort (new_pd c a b) = b"
  "kv_port (new_tikv c i a b) = a" "kv_statusPort (new_tikv c i a b) = b"
  by (simp_all add: new_pd_def new_tikv_def Let_def)

lemma startPD_wired:
  assumes "startPD h v a b (c, w) = (Inr u, (c', w'))" "pids_fresh w" "cl_tikvs c = []"
  shows "wired c' w' \<and> cl_tikvs c' = [] \<and> cluster_ports c' = [a, b] \<and> same_setup c c' \<and> keeps w w'"
  using assms(1) unfolding startPD_def Let_def split
proof (rule register_wired [OF _ assms(2)], goal_cases)
  case (1 p rec)
  then have s: "same_setup c c'" by (simp add: same_setup_def)
  have "runs w' (Some p) (bin_pd (cl_binaries c) # pd_args (new_pd c a b))" using 1 by simp
  with 1 s assms(3) show ?case
    by (simp add: wired_def pd_wired_def cluster_ports_def new_server_setup [OF s])
qed

lemma wired_append:
  assumes "wired c w" "cl_pd c' = cl_pd c" "cl_tikvs c' = cl_tikvs c @ [t]" "same_setup c c'"
    and "kv_wired c' w (length (cl_tikvs c)) t"
  shows "wired c' w"
proof -
  have url: "pd_url c' = pd_url c" by (simp add: pd_url_def assms(2))
  have "kv_wired c' w i (cl_tikvs c' ! i)" if "i < length (cl_tikvs c')" for i
  proof (cases "i < length (cl_tikvs c)")
    case True
    with assms(1,3,4) show ?thesis
      by (simp add: wired_def kv_wired_def nth_append url new_server_setup [OF assms(4)] same_setup_def)
  next
    case False
    with that assms(3) have "i = length (cl_tikvs c)" by simp
    with assms(3,5) show ?thesis by simp
  qed
  moreover have "case cl_pd c' of None \<Rightarrow> False | Some p \<Rightarrow> pd_wired c' w p"
    using assms(1,2,4) by (simp add: wired_def pd_wired_def new_server_setup [OF assms(4)] same_setup_def split: option.splits)
  ultimately show ?thesis by (simp add: wired_def)
qed

lemma startTiKV_wired:
  assumes "startTiKV h v i a b (c, w) = (Inr u, (c', w'))" "pids_fresh w" "wired c w" "i = length (cl_tikvs c)"
  shows "wired c' w' \<and> length (cl_tikvs c') = Suc i \<and> cluster_ports c' = cluster_ports c @ [a, b] \<and>
    same_setup c c' \<and> keeps w w'"
  using assms(1) unfolding startTiKV_def Let_def split
proof (rule register_wired [OF _ assms(2)], goal_cases)
  case (1 p rec)
  let ?t = "new_tikv c i a b\<lparr>kv_proc := Some p\<rparr>"
  from 1 have s: "same_setup c c'" "cl_pd c' = cl_pd c" "cl_tikvs c' = cl_tikvs c @ [?t]"
    by (simp_all add: same_setup_def)
  have "pd_url c' = pd_url c" "cl_binaries c' = cl_binaries c" using s by (simp_all add: pd_url_def same_setup_def)
  then have "kv_wired c' w' (length (cl_tikvs c)) ?t"
    using 1 by (simp add: kv_wired_def new_server_setup [OF s(1)] assms(4))
  with wired_append [OF wired_keeps [OF assms(3) _ assms(2)] s(2,3,1)] 1 have "wired c' w'" by blast
  with 1 s assms(4) show ?case by (simp add: cluster_ports_def)
qed


lemma start_tikvs_wired:
  assumes "forE [k..<k + m] (\<lambda>i. startTiKV h v i (f i) (g i)) (c, w) = (Inr u, (c', w'))"
    and "pids_fresh w" "wired c w" "length (cl_tikvs c) = k"
  shows "wired c' w' \<and> length (cl_tikvs c') = k + m \<and>
    cluster_ports c' = cluster_ports c @ concat (map (\<lambda>i. [f i, g i]) [k..<k + m]) \<and> same_setup c c' \<and> keeps w w'"
  using assms
proof (induction m arbitrary: k c w)
  case 0
  then show ?case by (simp add: same_setup_def keeps.frame_refl)
next
  case (Suc m)
  have up: "[k..<k + Suc m] = k # [Suc k..<Suc k + m]" by (simp add: upt_conv_Cons)
  from Suc.prems(1) obtain c1 w1 where 1: "startTiKV h v k (f k) (g k) (c, w) = (Inr (), (c1, w1))"
    and 2: "forE [Suc k..<Suc k + m] (\<lambda>i. startTiKV h v i (f i) (g i)) (c1, w1) = (Inr u, (c', w'))"
    unfolding up by (auto simp: seqE_eq_Inr simp del: upt_Suc)
  note a = startTiKV_wired [OF 1 Suc.prems(2,3)]
  have "pids_fresh w1" using a Suc.prems(2,4) keeps_fresh by blast
  moreover have "concat (map (\<lambda>i. [f i, g i]) [k..<k + Suc m]) = [f k, g k] @ concat (map (\<lambda>i. [f i, g i]) [Suc k..<Suc k + m])"
    by (simp only: up) simp
  ultimately show ?case
    using Suc.IH [OF 2] a Suc.prems(4) keeps.frame_trans [of w w1 w'] by (simp add: same_setup_def del: upt_Suc)
qed

lemma wait_pd_Inr: "wait_pd h d (c, w) = (Inr u, (c', w')) \<Longrightarrow> c' = c \<and> keeps w w'"
  unfolding wait_pd_def waits_are_polls
  by (auto split: prod.splits sum.splits dest!: steady_poll intro: steady_keeps)

lemma wait_stores_keeps: "wait_stores h d (c, w) = (Inr u, (c', w')) \<Longrightarrow> c' = c \<and> keeps w w'"
  unfolding wait_stores_def waits_are_polls
  by (auto split: prod.splits sum.splits dest!: steady_poll intro: steady_keeps)

text \<open>The ports are dealt out in the order of the list.\<close>

lemma deal_ports: "length ps = 2 + 2 * n \<Longrightarrow>
    [ps ! 0, ps ! 1] @ concat (map (\<lambda>i. [ps ! (2 + 2 * i), ps ! (3 + 2 * i)]) [0..<n]) = ps"
proof (induction n arbitrary: ps)
  case 0
  then show ?case by (cases ps; cases "tl ps") simp_all
next
  case (Suc n)
  define qs where "qs = take (2 + 2 * n) ps"
  have len: "length qs = 2 + 2 * n" using Suc.prems by (simp add: qs_def)
  have nth: "ps ! j = qs ! j" if "j < 2 + 2 * n" for j using that by (simp add: qs_def)
  have stores: "map (\<lambda>i. [ps ! (2 + 2 * i), ps ! (3 + 2 * i)]) [0..<n] = map (\<lambda>i. [qs ! (2 + 2 * i), qs ! (3 + 2 * i)]) [0..<n]"
    by (rule map_cong [OF refl]) (simp add: nth)
  have half: "[ps ! 0, ps ! 1] @ concat (map (\<lambda>i. [ps ! (2 + 2 * i), ps ! (3 + 2 * i)]) [0..<n]) = qs"
    using Suc.IH [OF len] nth [of 0] nth [of 1] unfolding stores by simp
  have "ps = qs @ [ps ! (2 + 2 * n), ps ! (3 + 2 * n)]"
    using Suc.prems id_take_nth_drop [of "2 + 2 * n" ps] Cons_nth_drop_Suc [of "3 + 2 * n" ps]
    by (simp add: qs_def numeral_3_eq_3)
  then show ?case unfolding half [symmetric] by simp
qed

lemma start_servers_wired:
  assumes "start_servers h v ps (c, w) = (Inr u, (c', w'))" "pids_fresh w" "cl_tikvs c = []"
    and "length ps = 2 + 2 * nat (cfg_tikvCount (cl_config c))"
  shows "wired c' w' \<and> cluster_ports c' = ps \<and> same_setup c c'"
proof -
  let ?n = "nat (cfg_tikvCount (cl_config c))" and ?d = "now w + cfg_startTimeout (cl_config c)"
  from assms(1) obtain c1 w1 c2 w2 c3 w3 where
    1: "startPD h v (ps ! 0) (ps ! 1) (c, w) = (Inr (), (c1, w1))" and
    2: "wait_pd h ?d (c1, w1) = (Inr (), (c2, w2))" and
    3: "forE [0..<0 + ?n] (\<lambda>i. startTiKV h v i (ps ! (2 + 2 * i)) (ps ! (3 + 2 * i))) (c2, w2) = (Inr (), (c3, w3))" and
    4: "wait_stores h ?d (c3, w3) = (Inr u, (c', w'))"
    by (auto simp: start_servers_def Let_def seqE_eq_Inr)
  note a = startPD_wired [OF 1 assms(2,3)]
  have b: "c2 = c1" "keeps w1 w2" using wait_pd_Inr [OF 2] by simp_all
  have f1: "pids_fresh w1" using a assms(2) keeps_fresh by blast
  have f2: "pids_fresh w2" using keeps_fresh [OF b(2) f1] .
  have "wired c2 w2" using a b wired_keeps [OF _ b(2) f1] by simp
  note d = start_tikvs_wired [OF 3 f2 this]
  have e: "c' = c3" "keeps w3 w'" using wait_stores_keeps [OF 4] by simp_all
  have f3: "pids_fresh w3" using d keeps_fresh [OF _ f2] a b(1) by simp
  have "wired c' w'" using wired_keeps [OF _ e(2) f3] d a b(1) e(1) by simp
  moreover have "cluster_ports c' = ps" using d a b e(1) deal_ports [OF assms(4)] by simp
  ultimately show ?thesis using a b d e(1) by (simp add: same_setup_def)
qed


lemma startOnce_wired:
  assumes "startOnce h v (c, w) = (Inr u, (c', w'))" "idle c" "pids_fresh w" "fresh_ok w"
    and "1 \<le> cfg_tikvCount (cl_config c)"
  shows "wired c' w' \<and> distinct (cluster_ports c') \<and>
    length (cluster_ports c') = 2 + 2 * nat (cfg_tikvCount (cl_config c'))"
  using assms(1)
proof (cases rule: startOnce_cases)
  case (claimed rc w1)
  let ?c = "c\<lparr>cl_record := Some rc\<rparr>"
  have "steady w w1" using steady_openRecord [of w h "env_time v (now w)" "cl_config c"] assms(4) claimed(1) by simp
  then have t1: "tracked (next_pid w) ?c w1"
    using tracked_steady tracked_begin [of c w] assms(2-4) idle_processes tracked_handle [of ?c c "next_pid w" w1] by simp
  from claimed(2) obtain s1 c2 w2 ports s3 where
    1: "prepareDataPath h (record_id ?c) (?c, w1) = (Inr (), s1)" and
    2: "record_dataPath h s1 = (Inr (), (c2, w2))" and
    3: "call (freePorts h (cfg_host (cl_config c)) (nat (2 + 2 * cfg_tikvCount (cl_config c)))) (c2, w2) = (Inr ports, s3)" and
    4: "start_servers h v ports s3 = (Inr u, (c', w'))"
    by (auto simp: after_claim_def seqE_eq_Inr simp del: seqE_call)
  obtain c1 w1' where s1: "s1 = (c1, w1')" by fastforce
  obtain w3 where s3: "s3 = (c2, w3)" and p: "freePorts h (cfg_host (cl_config c)) (nat (2 + 2 * cfg_tikvCount (cl_config c))) w2 = (Inr ports, w3)"
    using 3 by (cases s3) (simp add: call_eq)
  have g1: "same_config (?c, w1) (c1, w1')"
    using staysE [OF grown_prepareDataPath 1] by (simp add: grown_def s1)
  have g2: "same_config (c1, w1') (c2, w2)"
    using staysE [OF grown_record_dataPath 2] by (simp add: grown_def s1)
  have cfg: "cl_config c2 = cl_config c" using g1 g2 by (simp add: same_config_def)
  have tk: "cl_tikvs c2 = []"
    using 1 2 assms(2) by (auto simp: s1 idle_def prepareDataPath_def Let_def choose_dataPath_def record_dataPath_def call_def
      split: prod.splits sum.splits if_splits)
  have "tracked (next_pid w) c1 w1'"
    using tracks_prepare(1) [of "next_pid w" ?c w1 h "record_id ?c"] 1 t1 by (simp add: tracks_def s1)
  then have "tracked (next_pid w) c2 w2"
    using tracks_record_dataPath(1) [of "next_pid w" c1 w1' h] 2 by (simp add: tracks_def s1)
  then have "tracked (next_pid w) c2 w3" using steady_freePorts [OF p] by (rule tracked_steady)
  then have "pids_fresh w3" by (simp add: tracked_def)
  moreover have ports: "length ports = nat (2 + 2 * cfg_tikvCount (cl_config c)) \<and> distinct ports"
    using freePorts_loop_spec [of h _ _ "[]" w2 "Inr ports" w3] p by (simp add: freePorts_def)
  moreover have "nat (2 + 2 * cfg_tikvCount (cl_config c)) = 2 + 2 * nat (cfg_tikvCount (cl_config c2))"
    using assms(5) cfg by simp
  ultimately have "wired c' w' \<and> cluster_ports c' = ports \<and> same_setup c2 c'"
    using start_servers_wired [OF 4 [unfolded s3] _ tk] by simp
  with ports cfg assms(5) show ?thesis by (simp add: same_setup_def)
qed simp

subsection \<open>Addresses and directories\<close>

lemma joinHostPort_inject [simp]: "joinHostPort a p = joinHostPort a q \<longleftrightarrow> p = q"
  by (simp add: joinHostPort_def)

lemma pd_wired_fields:
  assumes "pd_wired c w p"
  shows "pd_host p = cfg_host (cl_config c)" "pd_dir p = path_join [cl_dataPath c, ''pd'']"
proof -
  have eq: "p = (new_pd c (pd_peerPort p) (pd_clientPort p))\<lparr>pd_proc := pd_proc p\<rparr>"
    using assms unfolding pd_wired_def by (rule conjunct1)
  show "pd_host p = cfg_host (cl_config c)" "pd_dir p = path_join [cl_dataPath c, ''pd'']"
    using arg_cong [OF eq, of pd_host] arg_cong [OF eq, of pd_dir] by (simp_all add: new_pd_def Let_def)
qed

lemma kv_wired_fields:
  assumes "kv_wired c w i t"
  shows "kv_host t = cfg_host (cl_config c)" "kv_name t = ''tikv-'' @ itoa (int i)"
    "kv_dir t = path_join [cl_dataPath c, ''tikv-'' @ itoa (int i)]"
proof -
  have eq: "t = (new_tikv c i (kv_port t) (kv_statusPort t))\<lparr>kv_proc := kv_proc t\<rparr>"
    using assms unfolding kv_wired_def by (rule conjunct1)
  show "kv_host t = cfg_host (cl_config c)" "kv_name t = ''tikv-'' @ itoa (int i)"
    "kv_dir t = path_join [cl_dataPath c, ''tikv-'' @ itoa (int i)]"
    using arg_cong [OF eq, of kv_host] arg_cong [OF eq, of kv_name] arg_cong [OF eq, of kv_dir]
    by (simp_all add: new_tikv_def Let_def)
qed

lemma wiredE:
  assumes "wired c w"
  obtains p where "cl_pd c = Some p" "pd_wired c w p" "\<And>i. i < length (cl_tikvs c) \<Longrightarrow> kv_wired c w i (cl_tikvs c ! i)"
  using assms unfolding wired_def by (cases "cl_pd c") simp_all

text \<open>Every address is the configured host with one of the ports, each port used once.\<close>

lemma wired_addresses:
  assumes "wired c w"
  shows "map (\<lambda>p. joinHostPort (cfg_host (cl_config c)) (itoa p)) (tl (cluster_ports c)) =
    Endpoints c @ concat (map (\<lambda>t. [addr t, statusAddr t]) (cl_tikvs c))"
  using assms
proof (rule wiredE)
  fix p assume p: "cl_pd c = Some p" "pd_wired c w p"
    and ts: "\<And>i. i < length (cl_tikvs c) \<Longrightarrow> kv_wired c w i (cl_tikvs c ! i)"
  have "kv_host t = cfg_host (cl_config c)" if "t \<in> set (cl_tikvs c)" for t
    using that kv_wired_fields(1) [OF ts] by (auto simp: in_set_conv_nth)
  then show ?thesis
    using pd_wired_fields(1) [OF p(2)]
    by (simp add: p(1) cluster_ports_def Endpoints_def endpoint_def map_concat comp_def addr_def statusAddr_def cong: map_cong)
qed

lemma wired_addresses_distinct:
  assumes "wired c w" "distinct (cluster_ports c)"
  shows "distinct (Endpoints c @ concat (map (\<lambda>t. [addr t, statusAddr t]) (cl_tikvs c)))"
  unfolding wired_addresses [OF assms(1), symmetric]
  using distinct_tl [OF assms(2)] by (simp add: distinct_map inj_on_def)

lemma wired_dirs:
  assumes "wired c w" "abs_dir (cl_dataPath c)"
  shows "server_dirs c = map (\<lambda>n. cl_dataPath c @ ''/'' @ n) (''pd'' # map (\<lambda>i. ''tikv-'' @ itoa (int i)) [0..<length (cl_tikvs c)])"
  using assms(1)
proof (rule wiredE)
  fix p assume p: "cl_pd c = Some p" "pd_wired c w p"
    and ts: "\<And>i. i < length (cl_tikvs c) \<Longrightarrow> kv_wired c w i (cl_tikvs c ! i)"
  have "map kv_dir (cl_tikvs c) = map (\<lambda>i. cl_dataPath c @ ''/tikv-'' @ itoa (int i)) [0..<length (cl_tikvs c)]"
    using kv_wired_fields(3) [OF ts] path_join_abs [OF assms(2) component_names(4)]
    by (intro nth_equalityI) simp_all
  then show ?thesis
    using pd_wired_fields(2) [OF p(2)] path_join_abs [OF assms(2) component_names(1)]
    by (simp add: server_dirs_def p(1) comp_def)
qed

lemma wired_dirs_distinct:
  assumes "wired c w" "abs_dir (cl_dataPath c)"
  shows "distinct (server_dirs c)"
  unfolding wired_dirs [OF assms] by (auto simp: distinct_map inj_on_def)

subsection \<open>The property\<close>

text \<open>
  C12: a cluster that has started is wired as it should be. PD and every store have the fields the code computes for
  them from the handle, run the command line made of exactly these fields, and each store is pointed at the PD of
  this handle; the \<open>2 + 2 * n\<close> ports are pairwise different, so no two addresses that the servers listen on are
  the same; and no two servers share a directory.
\<close>

theorem started_wired:
  assumes "startOnce h v (c, w) = (Inr u, (c', w'))" "idle c" "pids_fresh w" "fresh_ok w"
    and "1 \<le> cfg_tikvCount (cl_config c)" "abs_dir (cl_dataPath c')"
  shows "wired c' w' \<and> distinct (cluster_ports c') \<and>
    length (cluster_ports c') = 2 + 2 * nat (cfg_tikvCount (cl_config c')) \<and>
    distinct (Endpoints c' @ concat (map (\<lambda>t. [addr t, statusAddr t]) (cl_tikvs c'))) \<and>
    distinct (server_dirs c')"
proof -
  note w = startOnce_wired [OF assms(1-5)]
  with wired_addresses_distinct [of c' w'] wired_dirs_distinct [OF _ assms(6), of w'] show ?thesis by simp
qed

text \<open>Two stores, which PD reports to be up.\<close>

definition pair_config :: Config where "pair_config = TiKVCount 2 supplied"

definition pair_host :: host where
  "pair_host = ready_host\<lparr>http_get := \<lambda>url t. HttpResponse 200 []
     (if hasSuffix url ''members'' then members_text
      else (let up = ''{'' @ quote @ ''store'' @ quote @ '':{'' @ quote @ ''state_name'' @ quote @ '':'' @ quote @ ''Up'' @ quote @ ''}}''
            in ''{'' @ quote @ ''stores'' @ quote @ '':['' @ up @ '','' @ up @ '']}''))\<rparr>"

definition pair_handle :: Cluster where "pair_handle = New [pair_config]\<lparr>cl_binaries := opt_binaries\<rparr>"

lemma pair_run:
  "case startOnce pair_host example_env (pair_handle, ready_world) of (r, (c, w)) \<Rightarrow>
     r = Inr () \<and> abs_dir (cl_dataPath c) \<and> length (cl_tikvs c) = 2"
  by code_simp

theorem started_wired_witness:
  "case startOnce pair_host example_env (pair_handle, ready_world) of (r, (c, w)) \<Rightarrow>
     r = Inr () \<and> length (cl_tikvs c) = 2 \<and> wired c w \<and> distinct (cluster_ports c) \<and> distinct (server_dirs c)"
proof -
  obtain r c w where run: "startOnce pair_host example_env (pair_handle, ready_world) = (r, (c, w))" by (metis prod.exhaust)
  with pair_run have r: "r = Inr ()" "abs_dir (cl_dataPath c)" "length (cl_tikvs c) = 2" by simp_all
  have "idle pair_handle" "1 \<le> cfg_tikvCount (cl_config pair_handle)"
    by (simp_all add: idle_def pair_handle_def New_def pair_config_def TiKVCount_def)
  from started_wired [OF run [unfolded r(1)] this(1) ready_fresh(2,1) this(2) r(2)] r run show ?thesis by simp
qed

end
