(* ===== verification/Interleaving.thy ===== *)
theory Interleaving
  imports Recovery
begin

text \<open>
  The registry as several processes see it. The other theories take each operation as one step; here the
  owner of one cluster and any number of sweepers of other processes take the system calls of
  \<^verbatim>\<open>registry.go\<close> and \<^verbatim>\<open>lock.go\<close> in turns, in any order. \<open>p\<close> is the lock path of the cluster.

  \<open>owner\<close> and \<open>sweeper\<close> say how far a process has got: \<open>owner_next\<close> is \<open>openRecord\<close>, \<open>save\<close>, \<open>close\<close> and
  \<open>abandon\<close>, call by call, and \<open>sweeper_next\<close> the body of the loops of the three passes. That a sweeper
  running alone does what the functions of \<^verbatim>\<open>Registry\<close> do is a theorem. A sweeper that believes the cluster dead
  kills one server of the record at a time, and looks for unrecorded ones and clears the data directory in a step
  each.
\<close>

subsection \<open>The processes\<close>

datatype owner = Absent | Created | Opened nat nat | Failing | Holding nat nat | Live nat nat
  | Leaked nat nat | Closing | Unrecorded | Gone

datatype deed = Proceed | Write clusterRecord | Close | Forsake | Die

fun owner_fd :: "owner \<Rightarrow> (nat \<times> nat) option" where
  "owner_fd (Opened fd i) = Some (fd, i)"
| "owner_fd (Holding fd i) = Some (fd, i)"
| "owner_fd (Live fd i) = Some (fd, i)"
| "owner_fd (Leaked fd i) = Some (fd, i)"
| "owner_fd _ = None"

abbreviation unlock_fd :: "nat \<Rightarrow> nat \<Rightarrow> world \<Rightarrow> world" where
  "unlock_fd fd i \<equiv> unlock \<lparr>lock_file = Some (fd, i)\<rparr>"

text \<open>The next call of the owner; \<open>None\<close> when there is none, or when \<open>flock\<close> blocks.\<close>

definition owner_next :: "host \<Rightarrow> string \<Rightarrow> string \<Rightarrow> deed \<Rightarrow> owner \<Rightarrow> world \<Rightarrow> (owner \<times> world) option" where
  "owner_next h dir p a ow w =
    (case a of
      Proceed \<Rightarrow>
        (case ow of
          Absent \<Rightarrow>
            (case createTemp h dir recordPrefix ''.lock'' w of
              (Inr q, w1) \<Rightarrow> if q = p then Some (Created, w1) else None
            | (Inl _, _) \<Rightarrow> None)
        | Created \<Rightarrow>
            (case open_rdwr h p True w of
              (Inl _, w1) \<Rightarrow> Some (Failing, w1) | (Inr (fd, i), w1) \<Rightarrow> Some (Opened fd i, w1))
        | Opened fd i \<Rightarrow>
            if locks w i \<noteq> None \<and> io_fault h OpFlock p = None then None
            else (case flock_ex h p True fd i w of
              (Inl _, w1) \<Rightarrow> Some (Failing, w1) | (Inr _, w1) \<Rightarrow> Some (Holding fd i, w1))
        | Failing \<Rightarrow> Some (Gone, snd (remove h p w))
        | _ \<Rightarrow> None)
    | Write r \<Rightarrow>
        if rec_path r \<noteq> recordPathFor p then None
        else (case ow of
          Holding fd i \<Rightarrow>
            (case save h r w of (Inl _, w1) \<Rightarrow> Some (Leaked fd i, w1) | (Inr _, w1) \<Rightarrow> Some (Live fd i, w1))
        | Live fd i \<Rightarrow> Some (Live fd i, snd (save h r w))
        | _ \<Rightarrow> None)
    | Close \<Rightarrow>
        (case ow of
          Live fd i \<Rightarrow> Some (Closing, unlock_fd fd i w)
        | Closing \<Rightarrow> Some (Unrecorded, snd (remove h (recordPathFor p) w))
        | Unrecorded \<Rightarrow> Some (Gone, snd (remove h p w))
        | _ \<Rightarrow> None)
    | Forsake \<Rightarrow> (case ow of Live fd i \<Rightarrow> Some (Gone, unlock_fd fd i w) | _ \<Rightarrow> None)
    | Die \<Rightarrow> Some (Gone, case owner_fd ow of None \<Rightarrow> w | Some (fd, i) \<Rightarrow> unlock_fd fd i w))"

datatype job = Stale_Lock | Stale_Record | Stale_Dir string

datatype sweeper = Looking job | Looking_Again string | Aging string | Opening job | Locking job nat nat
  | Locked job nat nat | Killing "serverRecord list" clusterRecord nat nat | Clearing clusterRecord nat nat
  | Removing bool nat nat | Removing_Lock bool nat nat | Unlocking bool nat nat
  | Killing_Users string | Clearing_Dir string | Ending | Finished bool

fun sweeper_fd :: "sweeper \<Rightarrow> (nat \<times> nat) option" where
  "sweeper_fd (Locking j fd i) = Some (fd, i)"
| "sweeper_fd (Locked j fd i) = Some (fd, i)"
| "sweeper_fd (Killing ss r fd i) = Some (fd, i)"
| "sweeper_fd (Clearing r fd i) = Some (fd, i)"
| "sweeper_fd (Removing b fd i) = Some (fd, i)"
| "sweeper_fd (Removing_Lock b fd i) = Some (fd, i)"
| "sweeper_fd (Unlocking b fd i) = Some (fd, i)"
| "sweeper_fd _ = None"

fun sweeper_next :: "host \<Rightarrow> string \<Rightarrow> sweeper \<Rightarrow> world \<Rightarrow> sweeper \<times> world" where
  "sweeper_next h p (Looking j) w =
    (case j of
      Stale_Record \<Rightarrow> (Opening j, w)
    | Stale_Lock \<Rightarrow> (case stat h (recordPathFor p) w of Inr _ \<Rightarrow> (Finished False, w) | Inl _ \<Rightarrow> (Opening j, w))
    | Stale_Dir d \<Rightarrow> (case stat h (recordPathFor p) w of Inr _ \<Rightarrow> (Finished False, w) | Inl _ \<Rightarrow> (Looking_Again d, w)))"
| "sweeper_next h p (Looking_Again d) w =
    (case stat h p w of Inr _ \<Rightarrow> (Opening (Stale_Dir d), w) | Inl _ \<Rightarrow> (Aging d, w))"
| "sweeper_next h p (Aging d) w =
    (case mod_time h d w of
      None \<Rightarrow> (Finished False, w)
    | Some t \<Rightarrow>
        if now w - t < orphanGracePeriod then (Finished False, w)
        else (case usedByLiveProcess h d w of
          (used, w1) \<Rightarrow> (if used then Finished False else Killing_Users d, w1)))"
| "sweeper_next h p (Opening j) w =
    (case open_rdwr h p False w of (Inl _, w1) \<Rightarrow> (Finished False, w1) | (Inr (fd, i), w1) \<Rightarrow> (Locking j fd i, w1))"
| "sweeper_next h p (Locking j fd i) w =
    (case flock_ex h p False fd i w of (Inl _, w1) \<Rightarrow> (Finished False, w1) | (Inr _, w1) \<Rightarrow> (Locked j fd i, w1))"
| "sweeper_next h p (Locked j fd i) w =
    (case j of
      Stale_Record \<Rightarrow>
        (case readFile h (recordPathFor p) w of
          Inl _ \<Rightarrow> (Unlocking False fd i, w)
        | Inr raw \<Rightarrow> (case decode_record raw of None \<Rightarrow> (Removing False fd i, w) | Some r \<Rightarrow> (Killing (rec_Servers r) r fd i, w)))
    | Stale_Lock \<Rightarrow> (Ending, unlock_fd fd i w)
    | Stale_Dir d \<Rightarrow> (Killing_Users d, unlock_fd fd i w))"
| "sweeper_next h p (Killing (s # ss) r fd i) w = (Killing ss r fd i, kill_server h (rec_DataPath r) s w)"
| "sweeper_next h p (Killing [] r fd i) w =
    (Clearing r fd i, if rec_OwnsDataPath r then killProcessesUsing h (rec_DataPath r) w else w)"
| "sweeper_next h p (Clearing r fd i) w =
    (Removing True fd i, if rec_OwnsDataPath r \<and> rec_DataPath r \<noteq> [] then snd (removeAll h (rec_DataPath r) w) else w)"
| "sweeper_next h p (Removing ok fd i) w = (Removing_Lock ok fd i, snd (remove h (recordPathFor p) w))"
| "sweeper_next h p (Removing_Lock ok fd i) w = (Unlocking ok fd i, snd (remove h (lockPathFor (recordPathFor p)) w))"
| "sweeper_next h p (Unlocking ok fd i) w = (Finished ok, unlock_fd fd i w)"
| "sweeper_next h p (Killing_Users d) w = (Clearing_Dir d, killProcessesUsing h d w)"
| "sweeper_next h p (Clearing_Dir d) w = (Ending, snd (removeAll h d w))"
| "sweeper_next h p Ending w = (Finished True, snd (remove h p w))"
| "sweeper_next h p (Finished b) w = (Finished b, w)"

subsection \<open>A sweeper that runs alone\<close>

fun alone :: "host \<Rightarrow> string \<Rightarrow> nat \<Rightarrow> sweeper \<times> world \<Rightarrow> sweeper \<times> world" where
  "alone h p 0 s = s"
| "alone h p (Suc n) (s, w) = alone h p n (sweeper_next h p s w)"

lemma alone_Finished [simp]: "alone h p n (Finished b, w) = (Finished b, w)"
  by (induction n) simp_all

lemma tryLock_eq:
  "tryLock h p w =
    (case open_rdwr h p False w of
      (Inl _, w1) \<Rightarrow> (None, w1)
    | (Inr (fd, i), w1) \<Rightarrow>
        (case flock_ex h p False fd i w1 of
          (Inl _, w2) \<Rightarrow> (None, w2) | (Inr _, w2) \<Rightarrow> (Some \<lparr>lock_file = Some (fd, i)\<rparr>, w2)))"
  by (simp add: tryLock_def acquireFileLock_def split: prod.split sum.split)

lemma alone_Opening:
  "alone h p (Suc (Suc n)) (Opening j, w) =
    (case tryLock h p w of
      (None, w1) \<Rightarrow> (Finished False, w1)
    | (Some l, w1) \<Rightarrow> (case lock_file l of None \<Rightarrow> (Finished False, w1) | Some (fd, i) \<Rightarrow> alone h p n (Locked j fd i, w1)))"
  by (simp add: tryLock_eq split: prod.split sum.split)

lemma tryLock_file: "tryLock h p w = (Some l, w1) \<Longrightarrow> \<exists>fd i. lock_file l = Some (fd, i) \<and> l = \<lparr>lock_file = Some (fd, i)\<rparr>"
  by (elim tryLock_Some) simp

lemma alone_probe:
  "alone h p (Suc (Suc n)) (Opening j, w) =
    (case tryLock h p w of
      (None, w1) \<Rightarrow> (Finished False, w1)
    | (Some l, w1) \<Rightarrow> (case the (lock_file l) of (fd, i) \<Rightarrow> alone h p n (Locked j fd i, w1)))"
  using tryLock_file [of h p w] by (subst alone_Opening) (auto split: prod.split option.split)

lemma alone_Killing:
  "alone h p (length ss + k) (Killing ss r fd i, w) = alone h p k (Killing [] r fd i, forS ss (kill_server h (rec_DataPath r)) w)"
  by (induction ss arbitrary: w) simp_all

lemma alone_locked:
  "\<exists>n. alone h p n (Locked Stale_Record fd i, w) =
    (case reclaim_locked h (recordPathFor p) w of (ok, w') \<Rightarrow> (Finished ok, unlock_fd fd i w'))"
proof (cases "readFile h (recordPathFor p) w")
  case (Inl e)
  then have "alone h p 2 (Locked Stale_Record fd i, w) =
      (case reclaim_locked h (recordPathFor p) w of (ok, w') \<Rightarrow> (Finished ok, unlock_fd fd i w'))"
    by (simp add: reclaim_locked_def eval_nat_numeral)
  then show ?thesis by (rule exI [of _ 2])
next
  case (Inr raw)
  show ?thesis
  proof (cases "decode_record raw")
    case None
    with Inr have "alone h p 4 (Locked Stale_Record fd i, w) =
        (case reclaim_locked h (recordPathFor p) w of (ok, w') \<Rightarrow> (Finished ok, unlock_fd fd i w'))"
      by (simp add: reclaim_locked_def eval_nat_numeral)
    then show ?thesis by (rule exI [of _ 4])
  next
    case (Some r)
    let ?w = "forS (rec_Servers r) (kill_server h (rec_DataPath r)) w"
    have next_step: "sweeper_next h p (Locked Stale_Record fd i) w = (Killing (rec_Servers r) r fd i, w)"
      using Inr Some by simp
    have "alone h p (Suc (length (rec_Servers r) + 5)) (Locked Stale_Record fd i, w) =
        alone h p (length (rec_Servers r) + 5) (Killing (rec_Servers r) r fd i, w)"
      by (simp only: alone.simps(2) next_step)
    also have "\<dots> = alone h p 5 (Killing [] r fd i, ?w)" by (rule alone_Killing)
    also have "\<dots> = (case reclaim_locked h (recordPathFor p) w of (ok, w') \<Rightarrow> (Finished ok, unlock_fd fd i w'))"
      using Inr Some by (simp add: reclaim_locked_def Let_def eval_nat_numeral)
    finally show ?thesis by (rule exI [of _ "Suc (length (rec_Servers r) + 5)"])
  qed
qed

lemma alone_record:
  "\<exists>n. alone h (x @ ''.lock'') n (Looking Stale_Record, w) =
    (case reclaimRecord h (x @ ''.json'') w of (ok, w') \<Rightarrow> (Finished ok, w'))"
proof (cases "tryLock h (x @ ''.lock'') w")
  case (Pair l w1)
  have start: "alone h (x @ ''.lock'') (Suc (Suc (Suc n))) (Looking Stale_Record, w) =
      (case tryLock h (x @ ''.lock'') w of
        (None, w1) \<Rightarrow> (Finished False, w1)
      | (Some l, w1) \<Rightarrow> (case the (lock_file l) of (fd, i) \<Rightarrow> alone h (x @ ''.lock'') n (Locked Stale_Record fd i, w1)))" for n
    by (simp only: alone.simps(2) sweeper_next.simps(1) job.case prod.case alone_probe [unfolded alone.simps(2)])
  show ?thesis
  proof (cases l)
    case None
    with Pair have "alone h (x @ ''.lock'') (Suc (Suc (Suc 0))) (Looking Stale_Record, w) =
        (case reclaimRecord h (x @ ''.json'') w of (ok, w') \<Rightarrow> (Finished ok, w'))"
      unfolding start by (simp add: reclaimRecord_def guarded_def)
    then show ?thesis by (rule exI [of _ "Suc (Suc (Suc 0))"])
  next
    case (Some lk)
    with Pair tryLock_file obtain fd i where lk: "lk = \<lparr>lock_file = Some (fd, i)\<rparr>" by blast
    obtain n where "alone h (x @ ''.lock'') n (Locked Stale_Record fd i, w1) =
        (case reclaim_locked h (x @ ''.json'') w1 of (ok, w') \<Rightarrow> (Finished ok, unlock_fd fd i w'))"
      using alone_locked [of h "x @ ''.lock''" fd i w1] by auto
    with Pair Some lk have "alone h (x @ ''.lock'') (Suc (Suc (Suc n))) (Looking Stale_Record, w) =
        (case reclaimRecord h (x @ ''.json'') w of (ok, w') \<Rightarrow> (Finished ok, w'))"
      unfolding start by (simp add: reclaimRecord_def guarded_def split: prod.split)
    then show ?thesis by (rule exI [of _ "Suc (Suc (Suc n))"])
  qed
qed

lemma alone_lock:
  "snd (alone h p 8 (Looking Stale_Lock, w)) = drop_stale_lock h p w"
proof (cases "stat h (recordPathFor p) w")
  case (Inl e)
  then have "alone h p 8 (Looking Stale_Lock, w) = alone h p (Suc (Suc 5)) (Opening Stale_Lock, w)"
    by (simp add: eval_nat_numeral)
  also have "\<dots> = (case tryLock h p w of
      (None, w1) \<Rightarrow> (Finished False, w1)
    | (Some l, w1) \<Rightarrow> (case the (lock_file l) of (fd, i) \<Rightarrow> alone h p 5 (Locked Stale_Lock fd i, w1)))"
    by (rule alone_probe)
  finally show ?thesis
    using Inl tryLock_file [of h p w]
    by (auto simp: drop_stale_lock_def guarded_def eval_nat_numeral split: prod.split option.split)
next
  case (Inr n)
  then show ?thesis by (simp add: drop_stale_lock_def eval_nat_numeral)
qed

lemma alone_dir:
  "alone h p 8 (Looking (Stale_Dir d), w) =
    (case may_reclaim_dir h d p w of
      (False, w1) \<Rightarrow> (Finished False, w1)
    | (True, w1) \<Rightarrow> (Finished True, snd (remove h p (snd (removeAll h d (killProcessesUsing h d w1))))))"
proof (cases "stat h (recordPathFor p) w")
  case rec: (Inl e)
  show ?thesis
  proof (cases "stat h p w")
    case (Inl e')
    with rec show ?thesis
      by (auto simp: may_reclaim_dir_def eval_nat_numeral split: prod.split option.split)
  next
    case (Inr n)
    with rec have "alone h p 8 (Looking (Stale_Dir d), w) = alone h p (Suc (Suc 4)) (Opening (Stale_Dir d), w)"
      by (simp add: eval_nat_numeral)
    also have "\<dots> = (case tryLock h p w of
        (None, w1) \<Rightarrow> (Finished False, w1)
      | (Some l, w1) \<Rightarrow> (case the (lock_file l) of (fd, i) \<Rightarrow> alone h p 4 (Locked (Stale_Dir d) fd i, w1)))"
      by (rule alone_probe)
    finally show ?thesis
      using rec Inr tryLock_file [of h p w]
      by (auto simp: may_reclaim_dir_def guarded_def eval_nat_numeral split: prod.split option.split)
  qed
next
  case (Inr n)
  then show ?thesis by (simp add: may_reclaim_dir_def eval_nat_numeral)
qed

text \<open>
  C38: the sweepers of this model are the code's. A sweeper that nobody interrupts comes to an end and does
  what the body of the loop of its pass does: reclaim a record, drop a stale lock, or reclaim a data
  directory.
\<close>

theorem sweeper_refines:
  "(\<exists>n. alone h (x @ ''.lock'') n (Looking Stale_Record, w) =
      (case reclaimRecord h (x @ ''.json'') w of (ok, w') \<Rightarrow> (Finished ok, w'))) \<and>
    snd (alone h p 8 (Looking Stale_Lock, w)) = drop_stale_lock h p w \<and>
    alone h (path_join [registry, recordPrefix @ trimPrefix name dataDirPrefix @ ''.lock'']) 8
        (Looking (Stale_Dir (path_join [tmp_dir h, name])), w) =
      (case reclaim_dir h registry name w of (ok, w') \<Rightarrow> (Finished ok, w'))"
proof (intro conjI)
  show "alone h (path_join [registry, recordPrefix @ trimPrefix name dataDirPrefix @ ''.lock'']) 8
        (Looking (Stale_Dir (path_join [tmp_dir h, name])), w) =
      (case reclaim_dir h registry name w of (ok, w') \<Rightarrow> (Finished ok, w'))"
    unfolding alone_dir reclaim_dir_def Let_def by (simp split: prod.split bool.split)
qed (rule alone_record alone_lock)+

subsection \<open>Taking turns\<close>

text \<open>
  One owner, any number of sweepers, and the world they share. \<open>turn_elsewhere\<close> is the rest of the machine:
  it may do anything, but it does not touch this lock, this record, or the locks on the files that
  the processes of this model have open, for nobody else opens them.
\<close>

type_synonym registry_state = "owner \<times> sweeper list \<times> world"

definition inodes :: "string \<Rightarrow> registry_state \<Rightarrow> nat set" where
  "inodes p = (\<lambda>(ow, ss, w).
    {i. (\<exists>s x. lookup w p = Some (Regular i s x)) \<or> (\<exists>fd. owner_fd ow = Some (fd, i)) \<or>
        (\<exists>s \<in> set ss. \<exists>fd. sweeper_fd s = Some (fd, i))})"

definition elsewhere :: "string \<Rightarrow> nat set \<Rightarrow> world \<Rightarrow> world \<Rightarrow> bool" where
  "elsewhere p I w w' \<longleftrightarrow>
    lookup w' p = lookup w p \<and> file_text w' (recordPathFor p) = file_text w (recordPathFor p) \<and>
    (\<forall>i \<in> I. locks w' i = locks w i) \<and> next_fd w \<le> next_fd w'"

inductive turn :: "host \<Rightarrow> string \<Rightarrow> string \<Rightarrow> registry_state \<Rightarrow> registry_state \<Rightarrow> bool" for h dir p where
  turn_owner: "owner_next h dir p a ow w = Some (ow', w') \<Longrightarrow> turn h dir p (ow, ss, w) (ow', ss, w')"
| turn_sweeper: "k < length ss \<Longrightarrow> sweeper_next h p (ss ! k) w = (s', w') \<Longrightarrow>
    turn h dir p (ow, ss, w) (ow, ss[k := s'], w')"
| turn_arrives: "turn h dir p (ow, ss, w) (ow, ss @ [Looking j], w)"
| turn_elsewhere: "elsewhere p (inodes p (ow, ss, w)) w w' \<Longrightarrow> turn h dir p (ow, ss, w) (ow, ss, w')"

text \<open>A schedule can be played, so that a run can be evaluated.\<close>

datatype move = Owner_Moves deed | Sweeper_Moves nat | Arrives job

fun play :: "host \<Rightarrow> string \<Rightarrow> string \<Rightarrow> move list \<Rightarrow> registry_state \<Rightarrow> registry_state option" where
  "play h dir p [] s = Some s"
| "play h dir p (Owner_Moves a # ms) (ow, ss, w) =
    (case owner_next h dir p a ow w of None \<Rightarrow> None | Some (ow', w') \<Rightarrow> play h dir p ms (ow', ss, w'))"
| "play h dir p (Sweeper_Moves k # ms) (ow, ss, w) =
    (if k < length ss
     then (case sweeper_next h p (ss ! k) w of (s', w') \<Rightarrow> play h dir p ms (ow, ss[k := s'], w')) else None)"
| "play h dir p (Arrives j # ms) (ow, ss, w) = play h dir p ms (ow, ss @ [Looking j], w)"

lemma play_turns: "play h dir p ms s = Some s' \<Longrightarrow> (turn h dir p)\<^sup>*\<^sup>* s s'"
proof (induction h dir p ms s rule: play.induct)
  case (2 h dir p a ms ow ss w)
  then show ?case
    by (auto split: option.splits intro: converse_rtranclp_into_rtranclp turn_owner)
next
  case (3 h dir p k ms ow ss w)
  then show ?case
    by (auto split: prod.splits if_splits intro: converse_rtranclp_into_rtranclp turn_sweeper)
next
  case (4 h dir p j ms ow ss w)
  then show ?case by (auto intro: converse_rtranclp_into_rtranclp turn_arrives)
qed simp

subsection \<open>An owner that runs alone\<close>

lemma open_new:
  assumes "fresh_ok w" "open_rdwr h p True (new_file p [] False (w\<lparr>draws := k\<rparr>)) = (Inr (fd, i), w')"
  shows "locks w' i = None"
proof -
  have "lookup (new_file p [] False (w\<lparr>draws := k\<rparr>)) p = Some (Regular (next_ino w) [] False)"
    using lookup_add_Regular [of p "Regular (next_ino w) [] False" "w\<lparr>draws := k\<rparr>" p] by (simp add: new_file_def)
  with assms(2) have "i = next_ino w" "locks w' = locks (new_file p [] False (w\<lparr>draws := k\<rparr>))"
    by (auto simp: open_rdwr_def split: option.splits)
  moreover have "locks (new_file p [] False (w\<lparr>draws := k\<rparr>)) = locks w"
    using same_restD(2) [of "w\<lparr>draws := k\<rparr>" "new_file p [] False (w\<lparr>draws := k\<rparr>)"] by (simp add: same_rest_def)
  ultimately show ?thesis using assms(1) by (simp add: fresh_ok_def)
qed

lemma openRecord_played:
  assumes "fresh_ok w1" "registryDir h cfg w = (Inr dir, w1)" "openRecord h t cfg w = ((Some r, None), w')"
  obtains fd i where "rec_lock r = Some \<lparr>lock_file = Some (fd, i)\<rparr>" "recordPathFor (lockPathFor (rec_path r)) = rec_path r"
    "play h dir (lockPathFor (rec_path r)) (map Owner_Moves [Proceed, Proceed, Proceed, Write r]) (Absent, [], w1) =
      Some (Live fd i, [], w')"
proof -
  obtain res p w2 where 2: "createTemp h dir recordPrefix ''.lock'' w1 = (res, w2)" by fastforce
  with assms(2,3) obtain p where p: "res = Inr p" by (cases res) (auto simp: openRecord_def)
  obtain ro wo where 3: "open_rdwr h p True w2 = (ro, wo)" by fastforce
  with assms(2,3) 2 p obtain fd i where fd: "ro = Inr (fd, i)"
    by (cases ro) (auto simp: openRecord_def acquireFileLock_def)
  obtain rf wf where 4: "flock_ex h p True fd i wo = (rf, wf)" by fastforce
  with assms(2,3) 2 p 3 fd obtain u where rf: "rf = Inr u"
    by (cases rf) (auto simp: openRecord_def acquireFileLock_def)
  let ?r = "\<lparr>rec_Created = t, rec_OwnerPID = self_pid h, rec_DataPath = [], rec_OwnsDataPath = False, rec_Servers = [],
    rec_id = trimSuffix (trimPrefix (base p) recordPrefix) ''.lock'', rec_path = recordPathFor p,
    rec_lock = Some \<lparr>lock_file = Some (fd, i)\<rparr>\<rparr>"
  obtain rs ws where 5: "save h ?r wf = (rs, ws)" by fastforce
  with assms(2,3) 2 p 3 fd 4 rf have r: "r = ?r" "w' = ws" "\<exists>u. rs = Inr u"
    by (auto simp: openRecord_def acquireFileLock_def Let_def split: sum.splits)
  from createTemp_Inr [OF 2 [unfolded p]] obtain y k where y: "p = dir @ ''/'' @ recordPrefix @ y @ ''.lock''"
    and w2: "w2 = new_file p [] False (w1\<lparr>draws := k\<rparr>)" .
  define x where "x = dir @ ''/'' @ recordPrefix @ y"
  have x: "p = x @ ''.lock''" by (simp add: x_def y)
  have path: "lockPathFor (rec_path r) = p" "recordPathFor p = rec_path r" by (simp_all add: r(1) x)
  have free: "locks wo i = None" by (rule open_new [OF assms(1) 3 [unfolded w2 fd]])
  from 5 r obtain v where saved: "save h r wf = (Inr v, w')" by metis
  have steps: "owner_next h dir p Proceed Absent w1 = Some (Created, w2)"
    "owner_next h dir p Proceed Created w2 = Some (Opened fd i, wo)"
    "owner_next h dir p Proceed (Opened fd i) wo = Some (Holding fd i, wf)"
    "owner_next h dir p (Write r) (Holding fd i) wf = Some (Live fd i, w')"
    by (simp_all add: owner_next_def 2 p 3 fd free 4 rf path saved)
  have "play h dir p (map Owner_Moves [Proceed, Proceed, Proceed, Write r]) (Absent, [], w1) = Some (Live fd i, [], w')"
    by (simp add: steps)
  moreover have "rec_lock r = Some \<lparr>lock_file = Some (fd, i)\<rparr>" by (subst r(1)) simp
  ultimately show thesis using that [of fd i] by (simp only: path)
qed

text \<open>
  C39: so are the owner's. \<open>openRecord\<close>, when it succeeds, is four turns of an owner from the world that
  \<open>registryDir\<close> leaves, \<open>close\<close> is three turns and \<open>abandon\<close> one.
\<close>

theorem owner_refines:
  assumes "fresh_ok w1" "registryDir h cfg w = (Inr dir, w1)" "openRecord h t cfg w = ((Some r, None), w')"
  shows "\<exists>fd i. rec_lock r = Some \<lparr>lock_file = Some (fd, i)\<rparr> \<and>
    (let p = lockPathFor (rec_path r)
     in play h dir p (map Owner_Moves [Proceed, Proceed, Proceed, Write r]) (Absent, [], w1) = Some (Live fd i, [], w') \<and>
        play h dir p (map Owner_Moves [Close, Close, Close]) (Live fd i, [], v) = Some (Gone, [], close_record h (Some r) v) \<and>
        play h dir p [Owner_Moves Forsake] (Live fd i, [], v) = Some (Gone, [], abandon (Some r) v))"
proof -
  from openRecord_played [OF assms] obtain fd i where 1: "rec_lock r = Some \<lparr>lock_file = Some (fd, i)\<rparr>"
    "recordPathFor (lockPathFor (rec_path r)) = rec_path r"
    "play h dir (lockPathFor (rec_path r)) (map Owner_Moves [Proceed, Proceed, Proceed, Write r]) (Absent, [], w1) =
      Some (Live fd i, [], w')" .
  then show ?thesis
    by (intro exI [of _ fd] exI [of _ i]) (simp add: Let_def owner_next_def close_record_def abandon_def unlock_def)
qed

theorem owner_refines_witness:
  "(case openRecord example_host ''t'' DefaultConfig example_world of ((rec, e), w') \<Rightarrow>
     e = None \<and>
     (\<exists>fd i. play example_host example_registry (lockPathFor (rec_path (the rec)))
         (map Owner_Moves [Proceed, Proceed, Proceed, Write (the rec)])
         (Absent, [], snd (registryDir example_host DefaultConfig example_world)) = Some (Live fd i, [], w')))"
proof -
  obtain rec e w' where run: "openRecord example_host ''t'' DefaultConfig example_world = ((rec, e), w')"
    by (metis prod.exhaust)
  have "snd (fst (openRecord example_host ''t'' DefaultConfig example_world)) = None \<and>
      fst (fst (openRecord example_host ''t'' DefaultConfig example_world)) \<noteq> None" by code_simp
  with run obtain r where r: "rec = Some r" "e = None" by auto
  obtain w1 where dir: "registryDir example_host DefaultConfig example_world = (Inr example_registry, w1)"
  proof -
    have "fst (registryDir example_host DefaultConfig example_world) = Inr example_registry" by code_simp
    then show thesis using that by (metis prod.collapse)
  qed
  have "grows example_world w1" using grows_registryDir dir by (rule staysE)
  then have "fresh_ok w1" using fresh_example by (simp add: grows_def)
  from owner_refines [OF this dir run [unfolded r]] obtain fd i where
    "play example_host example_registry (lockPathFor (rec_path r)) (map Owner_Moves [Proceed, Proceed, Proceed, Write r])
      (Absent, [], w1) = Some (Live fd i, [], w')"
    unfolding Let_def by blast
  then show ?thesis by (simp only: run r dir prod.case snd_conv option.sel) blast
qed

subsection \<open>A cluster that has settled\<close>

text \<open>
  The owner holds the lock, the lock file is the one it holds, its record is there once it has been written,
  and no sweeper is past its probe of the lock.
\<close>

fun harmless :: "nat \<Rightarrow> sweeper \<Rightarrow> bool" where
  "harmless i (Locking j fd i') \<longleftrightarrow> i' = i"
| "harmless i (Looking j) \<longleftrightarrow> True"
| "harmless i (Looking_Again d) \<longleftrightarrow> True"
| "harmless i (Opening j) \<longleftrightarrow> True"
| "harmless i (Finished b) \<longleftrightarrow> True"
| "harmless i _ \<longleftrightarrow> False"

fun settled :: "string \<Rightarrow> registry_state \<Rightarrow> bool" where
  "settled p (Holding fd i, ss, w) \<longleftrightarrow>
    holds_lock w p \<lparr>lock_file = Some (fd, i)\<rparr> \<and> list_all (harmless i) ss"
| "settled p (Live fd i, ss, w) \<longleftrightarrow>
    holds_lock w p \<lparr>lock_file = Some (fd, i)\<rparr> \<and> file_text w (recordPathFor p) \<noteq> None \<and> list_all (harmless i) ss"
| "settled p _ \<longleftrightarrow> False"

fun departed :: "owner \<Rightarrow> bool" where
  "departed (Leaked fd i) \<longleftrightarrow> True"
| "departed Closing \<longleftrightarrow> True"
| "departed Unrecorded \<longleftrightarrow> True"
| "departed Gone \<longleftrightarrow> True"
| "departed _ \<longleftrightarrow> False"

lemma departed_stays: "departed ow \<Longrightarrow> owner_next h dir p a ow w = Some (ow', w') \<Longrightarrow> departed ow'"
  by (cases ow; cases a) (auto simp: owner_next_def split: option.splits if_splits)

lemma holds_lockE:
  assumes "holds_lock w p \<lparr>lock_file = Some (fd, i)\<rparr>"
  obtains s x where "lookup w p = Some (Regular i s x)" "locks w i = Some fd"
  using assms by (auto simp: holds_lock_def split: option.splits node.splits)

lemma harmless_next:
  assumes "harmless i s" "holds_lock w p \<lparr>lock_file = Some (fd, i)\<rparr>" "io_fault h OpStat p = None"
    and "sweeper_next h p s w = (s', w')"
  shows "harmless i s' \<and> (w' = w \<or> w' = w\<lparr>next_fd := Suc (next_fd w)\<rparr>)"
proof -
  from assms(2) obtain c x where l: "lookup w p = Some (Regular i c x)" "locks w i = Some fd" by (rule holds_lockE)
  show ?thesis
    using assms(1,3,4) l
    by (cases s) (auto simp: stat_def open_rdwr_def flock_ex_def split: job.splits sum.splits option.splits)
qed

lemma same_text: "lookup w' q = lookup w q \<Longrightarrow> file_text w' q = file_text w q"
  by (simp add: file_text_def)

lemma holds_lock_cong:
  assumes "holds_lock w p \<lparr>lock_file = Some (fd, i)\<rparr>" "lookup w' p = lookup w p" "locks w' i = locks w i"
  shows "holds_lock w' p \<lparr>lock_file = Some (fd, i)\<rparr>"
proof -
  obtain s x where "lookup w p = Some (Regular i s x)" "locks w i = Some fd" using assms(1) by (rule holds_lockE)
  with assms(2,3) show ?thesis by (simp add: holds_lock_def)
qed

lemma settled_world:
  assumes "settled p (ow, ss, w)" "list_all (harmless (snd (the (owner_fd ow)))) ss'"
    and "lookup w' p = lookup w p" "file_text w' (recordPathFor p) = file_text w (recordPathFor p)"
    and "locks w' (snd (the (owner_fd ow))) = locks w (snd (the (owner_fd ow)))"
  shows "settled p (ow, ss', w')"
  using assms holds_lock_cong [OF _ assms(3)] by (cases ow) simp_all

lemma settled_harmless:
  assumes "settled p (ow, ss, w)"
  obtains fd i where "owner_fd ow = Some (fd, i)" "holds_lock w p \<lparr>lock_file = Some (fd, i)\<rparr>" "list_all (harmless i) ss"
  using assms by (cases ow) auto

text \<open>The owner's own writes: the record is there afterwards, and the lock is as it was.\<close>

lemma settled_save:
  assumes "names_ok h" "abs_dir reg" "CHR ''/'' \<notin> set n" "rec_path r = record_path reg n" "save h r w = (res, w')"
    and "holds_lock w (lock_path reg n) l"
  shows "holds_lock w' (lock_path reg n) l"
    "file_text w (record_path reg n) \<noteq> None \<or> (\<exists>u. res = Inr u) \<Longrightarrow> file_text w' (record_path reg n) \<noteq> None"
proof -
  show "holds_lock w' (lock_path reg n) l" using save_keeps_lock [OF assms(1-5)] assms(6) by simp
  have "dir_of (rec_path r) = reg"
    using dir_of_append [OF assms(2) component_record [OF assms(3)]] assms(4) by (simp add: record_path_def)
  then have "\<not> temp_name r (rec_path r)" by (simp add: temp_name_def assms(4) record_path_def hasPrefix_iff)
  from save_effect [OF this, where h = h and w = w] this assms(4,5)
  show "file_text w' (record_path reg n) \<noteq> None"
    if "file_text w (record_path reg n) \<noteq> None \<or> (\<exists>u. res = Inr u)"
    using that by (cases res) auto
qed

lemma owner_settled:
  assumes "names_ok h" "abs_dir reg" "CHR ''/'' \<notin> set n" "settled (lock_path reg n) (ow, ss, w)"
    and "owner_next h dir (lock_path reg n) a ow w = Some (ow', w')"
  shows "settled (lock_path reg n) (ow', ss, w') \<or> departed ow'"
proof -
  from assms(4) consider (holding) fd i where "ow = Holding fd i" | (live) fd i where "ow = Live fd i"
    by (cases ow) auto
  then show ?thesis
  proof cases
    case holding
    with assms settled_save [OF assms(1-3)] show ?thesis
      by (cases a) (fastforce simp: owner_next_def split: if_splits prod.splits sum.splits)+
  next
    case live
    show ?thesis
    proof (cases a)
      case (Write r)
      obtain res w1 where save: "save h r w = (res, w1)" by fastforce
      with Write live assms(4,5) settled_save [OF assms(1-3) _ save] show ?thesis
        by (auto simp: owner_next_def split: if_splits)
    qed (use live assms(5) in \<open>auto simp: owner_next_def\<close>)
  qed
qed

lemma turn_settled:
  assumes "names_ok h" "abs_dir reg" "CHR ''/'' \<notin> set n" "io_fault h OpStat (lock_path reg n) = None"
    and "settled (lock_path reg n) s" "turn h dir (lock_path reg n) s s'"
  shows "settled (lock_path reg n) s' \<or> departed (fst s')"
proof -
  obtain ow ss w where s: "s = (ow, ss, w)" by (metis prod.exhaust)
  from assms(5) s obtain fd i where o: "owner_fd ow = Some (fd, i)"
    "holds_lock w (lock_path reg n) \<lparr>lock_file = Some (fd, i)\<rparr>" "list_all (harmless i) ss"
    by (auto elim: settled_harmless)
  from o(2) obtain c x where l: "lookup w (lock_path reg n) = Some (Regular i c x)" by (rule holds_lockE)
  note stay = settled_world [OF assms(5) [unfolded s]]
  from assms(6) [unfolded s] show ?thesis
  proof (cases rule: turn.cases)
    case (turn_owner a ow' w')
    with owner_settled [OF assms(1-3) assms(5) [unfolded s]] show ?thesis by auto
  next
    case (turn_sweeper k t w')
    have "harmless i (ss ! k)" using o(3) turn_sweeper(2) by (simp add: list_all_length)
    from harmless_next [OF this o(2) assms(4) turn_sweeper(3)]
    have t: "harmless i t" "w' = w \<or> w' = w\<lparr>next_fd := Suc (next_fd w)\<rparr>" by auto
    have "list_all (harmless i) (ss[k := t])"
      using o(3) t(1) set_update_subset_insert [of ss k t] by (auto simp: list_all_iff)
    with t(2) stay [of "ss[k := t]" w'] o(1) show ?thesis by (auto simp: turn_sweeper(1) file_text_def)
  next
    case (turn_arrives j)
    then show ?thesis using stay [of "ss @ [Looking j]" w] o by simp
  next
    case (turn_elsewhere w')
    then have "locks w' i = locks w i" using l by (auto simp: elsewhere_def inodes_def)
    with turn_elsewhere show ?thesis using stay [of ss w'] o by (simp add: elsewhere_def)
  qed
qed

lemma turn_departed: "turn h dir p s s' \<Longrightarrow> departed (fst s) \<Longrightarrow> departed (fst s')"
  by (induction rule: turn.induct) (auto dest: departed_stays)

text \<open>
  C5: a cluster that has settled is safe from every interleaving. From a state in which the owner holds its
  lock, the lock file is the one it holds and no sweeper is past its probe, whatever order the owner, any
  number of sweepers and the rest of the machine take their system calls in: as long as the owner does not
  end the cluster or die, its lock is held on the file its path names, and its record is there.
\<close>

theorem settled_stays:
  assumes "names_ok h" "abs_dir reg" "CHR ''/'' \<notin> set n" "io_fault h OpStat (lock_path reg n) = None"
    and "settled (lock_path reg n) s" "(turn h dir (lock_path reg n))\<^sup>*\<^sup>* s s'"
  shows "departed (fst s') \<or> settled (lock_path reg n) s'"
  using assms(6)
proof (induction rule: rtranclp_induct)
  case base
  then show ?case using assms(5) by simp
next
  case (step t u)
  with turn_settled [OF assms(1-4)] turn_departed show ?case by blast
qed

theorem settled_stays_witness:
  "(let p = lock_path example_registry ''7''; s = (Live 9 1, [Looking Stale_Record], example_two)
    in settled p s \<and>
      (case play example_host example_registry p [Sweeper_Moves 0, Sweeper_Moves 0, Sweeper_Moves 0] s of
        None \<Rightarrow> False | Some s' \<Rightarrow> fst (snd s') = [Finished False] \<and> settled p s'))"
proof -
  let ?p = "lock_path example_registry ''7''" and ?s = "(Live 9 1, [Looking Stale_Record], example_two)"
  let ?run = "play example_host example_registry ?p [Sweeper_Moves 0, Sweeper_Moves 0, Sweeper_Moves 0] ?s"
  have s: "settled ?p ?s" by code_simp
  have ran: "(case ?run of None \<Rightarrow> False | Some s' \<Rightarrow> fst s' = Live 9 1 \<and> fst (snd s') = [Finished False])" by code_simp
  then obtain s' where s': "?run = Some s'" "fst s' = Live 9 1" "fst (snd s') = [Finished False]"
    by (auto split: option.splits)
  have dir: "abs_dir example_registry" "CHR ''/'' \<notin> set ''7''" by code_simp+
  have "io_fault example_host OpStat ?p = None" by (simp add: example_host_def)
  from settled_stays [OF names_example dir this s play_turns [OF s'(1)]] s' s show ?thesis
    by (simp add: Let_def)
qed

subsection \<open>A cluster that never settles\<close>

definition race :: "move list" where
  "race =
    [Owner_Moves Proceed, Arrives Stale_Lock, Sweeper_Moves 0, Sweeper_Moves 0, Owner_Moves Proceed, Sweeper_Moves 0,
     Sweeper_Moves 0, Owner_Moves Proceed,
     Owner_Moves (Write (example_record\<lparr>rec_path := record_path example_registry ''0''\<rparr>)), Sweeper_Moves 0]"

lemma race_played:
  "(case play example_host example_registry (lock_path example_registry ''0'') race (Absent, [], example_two) of
      None \<Rightarrow> False
    | Some (ow, ss, w) \<Rightarrow> ow = Live 4 6 \<and> ss = [Finished True] \<and>
        file_text w (record_path example_registry ''0'') \<noteq> None \<and> lookup w (lock_path example_registry ''0'') = None)"
  by code_simp

text \<open>
  C37: the lock of a new cluster can be lost. Between \<open>os.CreateTemp\<close> and \<open>flock\<close> of the owner, the third
  pass of a sweep can take the lock, release it, and remove the file after the owner has locked it: the owner
  is then live, with a record but no lock file at the path, and no sweep of the records can ever
  reclaim it.
\<close>

theorem lock_race:
  "\<exists>w. (turn example_host example_registry (lock_path example_registry ''0''))\<^sup>*\<^sup>*
      (Absent, [], example_two) (Live 4 6, [Finished True], w) \<and>
    file_text w (record_path example_registry ''0'') \<noteq> None \<and> lookup w (lock_path example_registry ''0'') = None \<and>
    reclaimRecord h (record_path example_registry ''0'') w = (False, w)"
proof -
  let ?p = "lock_path example_registry ''0''"
  obtain w where run: "play example_host example_registry ?p race (Absent, [], example_two) =
      Some (Live 4 6, [Finished True], w)"
    and w: "file_text w (record_path example_registry ''0'') \<noteq> None" "lookup w ?p = None"
    using race_played by (auto split: option.splits prod.splits)
  have "lockPathFor (record_path example_registry ''0'') = ?p" by simp
  then show ?thesis using play_turns [OF run] w reclaimRecord_no_lock by metis
qed

end
