(* ===== verification/Exclusion.thy ===== *)
theory Exclusion
  imports Interleaving
begin

text \<open>
  The liveness test is a lock, so at most one process may have it. The invariant is about the lock table
  alone: each process is reduced to what it has open and whether it has the lock, and the calls of
  \<^verbatim>\<open>Interleaving\<close> to five kinds of step on the table.
\<close>

text \<open>
  What the lock table needs to know of a process: the descriptor it has on a lock file, the file, and whether it
  has the lock. The steps of a process are one of five, whatever the process is.
\<close>

type_synonym view = "(nat \<times> nat \<times> bool) option"

fun owner_view :: "owner \<Rightarrow> view" where
  "owner_view (Opened fd i) = Some (fd, i, False)"
| "owner_view (Holding fd i) = Some (fd, i, True)"
| "owner_view (Live fd i) = Some (fd, i, True)"
| "owner_view (Leaked fd i) = Some (fd, i, True)"
| "owner_view _ = None"

fun sweeper_view :: "sweeper \<Rightarrow> view" where
  "sweeper_view (Locking j fd i) = Some (fd, i, False)"
| "sweeper_view (Locked j fd i) = Some (fd, i, True)"
| "sweeper_view (Killing ss r fd i) = Some (fd, i, True)"
| "sweeper_view (Clearing r fd i) = Some (fd, i, True)"
| "sweeper_view (Removing b fd i) = Some (fd, i, True)"
| "sweeper_view (Removing_Lock b fd i) = Some (fd, i, True)"
| "sweeper_view (Unlocking b fd i) = Some (fd, i, True)"
| "sweeper_view _ = None"

definition views :: "registry_state \<Rightarrow> view list" where
  "views = (\<lambda>(ow, ss, w). owner_view ow # map sweeper_view ss)"

inductive table_step :: "view \<Rightarrow> (nat \<Rightarrow> nat option) \<times> nat \<Rightarrow> view \<Rightarrow> (nat \<Rightarrow> nat option) \<times> nat \<Rightarrow> bool" where
  table_idle: "n \<le> n' \<Longrightarrow> table_step v (lk, n) v (lk, n')"
| table_drop: "n \<le> n' \<Longrightarrow> table_step v (lk, n) None (lk, n')"
| table_open: "table_step None (lk, n) (Some (n, i, False)) (lk, Suc n)"
| table_lock: "lk i = None \<Longrightarrow> table_step (Some (fd, i, False)) (lk, n) (Some (fd, i, True)) (lk(i \<mapsto> fd), n)"
| table_unlock: "table_step (Some (fd, i, b)) (lk, n) None (if lk i = Some fd then lk(i := None) else lk, n)"

definition table :: "world \<Rightarrow> (nat \<Rightarrow> nat option) \<times> nat" where
  "table w = (locks w, next_fd w)"

definition same_table :: "world \<Rightarrow> world \<Rightarrow> bool" where
  "same_table w w' \<longleftrightarrow> table w' = table w"

interpretation tables: frame same_table
  by unfold_locales (auto simp: same_table_def)

lemma same_table_rest: "same_rest w w' \<Longrightarrow> same_table w w'"
  using same_restD(2,5) by (simp add: same_table_def table_def)

lemma table_looked: "looked h w w' \<Longrightarrow> table w' = table w"
  by (auto simp: looked_def table_def)

lemma table_signal: "table (snd (signalGroup h p sig w)) = table w"
  using signalGroup_world [of h p sig w] by (auto simp: table_def)

lemma table_unlock_fd: "table (unlock_fd fd i w) = (if locks w i = Some fd then (locks w)(i := None) else locks w, next_fd w)"
  by (simp add: unlock_def release_def table_def)

lemma same_table_steps:
  "same_table w (snd (remove h q w))" "same_table w (snd (removeAll h q w))" "same_table w (snd (save h r w))"
  "same_table w (snd (createTemp h d pre suf w))"
proof -
  show "same_table w (snd (remove h q w))" by (rule same_table_rest [OF staysD [OF same_rest_ops(7)]])
  show "same_table w (snd (removeAll h q w))" by (rule same_table_rest [OF staysD [OF same_rest_ops(8)]])
  show "same_table w (snd (save h r w))" by (rule same_table_rest [OF staysD [OF same_rest_save]])
  show "same_table w (snd (createTemp h d pre suf w))" by (rule same_table_rest [OF staysD [OF same_rest_createTemp]])
qed

lemma processIsServer_looked: "looked h w (snd (processIsServer h p b d w))"
proof (cases "p \<le> 0 \<or> b = [] \<or> d = []")
  case True
  then show ?thesis by (simp add: processIsServer_def)
next
  case False
  obtain c w1 where 1: "processCommandLine h p w = (c, w1)" by fastforce
  with False processCommandLine_looked [OF 1] show ?thesis
    by (cases c) (auto simp: processIsServer_def)
qed

lemma same_table_kill_server: "same_table w (kill_server h d s w)"
proof -
  obtain b w1 where 1: "processIsServer h (sr_PID s) (sr_Binary s) d w = (b, w1)" by fastforce
  with table_looked [OF processIsServer_looked, of h "sr_PID s" "sr_Binary s" d w] have "table w1 = table w" by simp
  with 1 table_signal show ?thesis by (cases b) (simp_all add: kill_server_def same_table_def)
qed

lemma same_table_killProcessesUsing: "same_table w (killProcessesUsing h d w)"
proof (cases "ownsDataDirName d")
  case True
  obtain es w1 where e: "enumerateProcesses h w = (es, w1)" by fastforce
  have "same_table w w1" using table_looked [OF enumerateProcesses_sound(1) [OF e]] by (simp add: same_table_def)
  then have "same_table w (forS es (kill_entry h d) w1)"
    by (rule tables.forS_from) (simp add: kill_entry_def same_table_def table_signal)
  with True e show ?thesis by (simp add: killProcessesUsing_def)
qed (simp add: killProcessesUsing_def tables.frame_refl)

lemma usedByLiveProcess_table: "usedByLiveProcess h d w = (b, w') \<Longrightarrow> table w' = table w"
  using table_looked [OF usedByLiveProcess_looked, of h d w] by simp

lemma open_table:
  assumes "open_rdwr h p c w = (r, w')"
  shows "case r of Inl _ \<Rightarrow> table w' = table w | Inr (fd, i) \<Rightarrow> fd = next_fd w \<and> table w' = (locks w, Suc (next_fd w))"
  using assms
  by (auto simp: open_rdwr_def table_def new_file_def split: option.splits node.splits if_splits)

lemma flock_table:
  assumes "flock_ex h p False fd i w = (r, w')"
  shows "case r of Inl _ \<Rightarrow> table w' = table w
    | Inr _ \<Rightarrow> locks w i = None \<and> table w' = ((locks w)(i \<mapsto> fd), next_fd w)"
  using assms by (auto simp: flock_ex_def table_def split: option.splits if_splits)

lemma table_step_refl: "table_step v (table w) v (table w)"
  by (simp add: table_def table_idle)

lemma table_step_same: "same_table w w' \<Longrightarrow> table_step v (table w) v (table w')"
  by (simp add: same_table_def table_step_refl)

lemma table_step_drop: "table w' = table w \<Longrightarrow> table_step v (table w) None (table w')"
  by (simp add: table_def table_drop)

lemma table_step_unlock: "table_step (Some (fd, i, b)) (table w) None (table (unlock_fd fd i w))"
  unfolding table_unlock_fd by (simp only: table_def table_unlock)

lemma sweeper_table:
  assumes "sweeper_next h p s w = (s', w')"
  shows "table_step (sweeper_view s) (table w) (sweeper_view s') (table w')"
proof (cases s)
  case (Looking j)
  with assms show ?thesis by (auto split: job.splits sum.splits intro: table_step_refl)
next
  case (Looking_Again d)
  with assms show ?thesis by (auto split: sum.splits intro: table_step_refl)
next
  case (Aging d)
  with assms usedByLiveProcess_table show ?thesis
    by (auto split: option.splits if_splits prod.splits intro: table_step_refl)
next
  case (Opening j)
  obtain r w1 where 1: "open_rdwr h p False w = (r, w1)" by fastforce
  with assms Opening open_table [OF 1] table_step_refl [of None w] show ?thesis
    by (cases r) (auto simp: table_def intro: table_open)
next
  case (Locking j fd i)
  obtain r w1 where 1: "flock_ex h p False fd i w = (r, w1)" by fastforce
  with assms Locking flock_table [OF 1] show ?thesis
    by (cases r) (auto simp: table_def intro: table_lock table_drop)
next
  case (Locked j fd i)
  with assms table_step_unlock table_step_refl show ?thesis
    by (auto split: job.splits sum.splits option.splits)
next
  case (Killing us r fd i)
  with assms show ?thesis
    by (cases us) (auto simp: table_step_same table_step_refl same_table_kill_server same_table_killProcessesUsing)
next
  case (Clearing r fd i)
  with assms show ?thesis by (auto simp: table_step_same table_step_refl same_table_steps)
next
  case (Removing b fd i)
  with assms show ?thesis by (auto simp: table_step_same same_table_steps)
next
  case (Removing_Lock b fd i)
  with assms show ?thesis by (auto simp: table_step_same same_table_steps)
next
  case (Unlocking b fd i)
  with assms table_step_unlock show ?thesis by auto
next
  case (Killing_Users d)
  with assms show ?thesis by (auto simp: table_step_same same_table_killProcessesUsing)
next
  case (Clearing_Dir d)
  with assms show ?thesis by (auto simp: table_step_same same_table_steps)
next
  case Ending
  with assms show ?thesis by (auto simp: table_step_same same_table_steps)
next
  case (Finished b)
  with assms table_step_refl show ?thesis by auto
qed

lemma owner_table:
  assumes "owner_next h dir p a ow w = Some (ow', w')"
  shows "table_step (owner_view ow) (table w) (owner_view ow') (table w')"
proof (cases a)
  case Proceed
  show ?thesis
  proof (cases ow)
    case Absent
    obtain r w1 where 1: "createTemp h dir recordPrefix ''.lock'' w = (r, w1)" by fastforce
    have "table w1 = table w" using same_table_steps(4) [of w h dir recordPrefix "''.lock''"] 1 by (simp add: same_table_def)
    with assms Proceed Absent 1 table_step_refl [of None w] show ?thesis
      by (cases r) (auto simp: owner_next_def split: if_splits)
  next
    case Created
    obtain r w1 where 1: "open_rdwr h p True w = (r, w1)" by fastforce
    with assms Proceed Created open_table [OF 1] table_step_refl [of None w] show ?thesis
      by (cases r) (auto simp: owner_next_def table_def intro: table_open)
  next
    case (Opened fd i)
    obtain r w1 where 1: "flock_ex h p True fd i w = (r, w1)" by fastforce
    from assms Proceed Opened have "locks w i = None \<or> io_fault h OpFlock p \<noteq> None"
      by (auto simp: owner_next_def split: if_splits)
    with 1 have "flock_ex h p False fd i w = (r, w1)" by (auto simp: flock_ex_def split: option.splits)
    from flock_table [OF this] assms Proceed Opened 1 show ?thesis
      by (cases r) (auto simp: owner_next_def table_def split: if_splits intro: table_lock table_drop)
  next
    case Failing
    with assms Proceed same_table_steps(1) [of w h p] table_step_refl [of None w] show ?thesis
      by (auto simp: owner_next_def same_table_def)
  qed (use assms Proceed in \<open>auto simp: owner_next_def\<close>)
next
  case (Write r)
  have t: "table (snd (save h r w)) = table w" using same_table_steps(3) by (simp add: same_table_def)
  then have "table_step v (table w) v (table (snd (save h r w)))" for v using table_step_refl by metis
  with assms Write show ?thesis
    by (cases ow) (auto simp: owner_next_def split: if_splits prod.splits sum.splits)
next
  case Close
  have "table_step v (table w) v (table (snd (remove h q w)))" for v q
    using same_table_steps(1) [of w h q] table_step_refl by (simp add: same_table_def)
  with assms Close table_step_unlock show ?thesis by (cases ow) (auto simp: owner_next_def)
next
  case Forsake
  with assms table_step_unlock show ?thesis by (cases ow) (auto simp: owner_next_def)
next
  case Die
  with assms table_step_unlock table_step_refl show ?thesis by (cases ow) (auto simp: owner_next_def)
qed

text \<open>Every descriptor belongs to one process, and the lock table knows who holds what.\<close>

definition table_ok :: "view list \<Rightarrow> (nat \<Rightarrow> nat option) \<times> nat \<Rightarrow> bool" where
  "table_ok vs = (\<lambda>(lk, n).
    (\<forall>k fd i b. k < length vs \<longrightarrow> vs ! k = Some (fd, i, b) \<longrightarrow> fd < n \<and> (b \<longrightarrow> lk i = Some fd)) \<and>
    (\<forall>k l fd i b j c. k < length vs \<longrightarrow> l < length vs \<longrightarrow> vs ! k = Some (fd, i, b) \<longrightarrow> vs ! l = Some (fd, j, c) \<longrightarrow> k = l))"

lemma table_okD:
  assumes "table_ok vs (lk, n)" "m < length vs" "vs ! m = Some (fd, i, b)"
  shows "fd < n" "b \<Longrightarrow> lk i = Some fd" "l < length vs \<Longrightarrow> vs ! l = Some (fd, j, c) \<Longrightarrow> m = l"
  using assms unfolding table_ok_def split by blast+

lemma table_ok_update:
  assumes "table_ok vs (lk, n)" "k < length vs"
    and "\<And>m fd i b. m < length vs \<Longrightarrow> m \<noteq> k \<Longrightarrow> vs ! m = Some (fd, i, b) \<Longrightarrow> fd < n' \<and> (b \<longrightarrow> lk' i = Some fd)"
    and "\<And>fd i b. v = Some (fd, i, b) \<Longrightarrow> fd < n' \<and> (b \<longrightarrow> lk' i = Some fd) \<and>
      (\<forall>m j c. m < length vs \<longrightarrow> m \<noteq> k \<longrightarrow> vs ! m \<noteq> Some (fd, j, c))"
  shows "table_ok (vs[k := v]) (lk', n')"
  unfolding table_ok_def split
proof (intro conjI allI impI)
  fix m fd i b
  assume m: "m < length (vs[k := v])" "vs[k := v] ! m = Some (fd, i, b)"
  then show "fd < n'" "b \<Longrightarrow> lk' i = Some fd"
    using assms(2-4) by (cases "m = k"; force)+
  fix l j c
  assume l: "l < length (vs[k := v])" "vs[k := v] ! l = Some (fd, j, c)"
  show "m = l"
  proof (cases "m = k \<or> l = k")
    case True
    then show ?thesis
    proof (rule disjE)
      assume "m = k"
      with m(2) assms(2) have "v = Some (fd, i, b)" by simp
      from assms(4) [OF this] l \<open>m = k\<close> show ?thesis by (cases "l = k") auto
    next
      assume "l = k"
      with l(2) assms(2) have "v = Some (fd, j, c)" by simp
      from assms(4) [OF this] m \<open>l = k\<close> show ?thesis by (cases "m = k") auto
    qed
  next
    case False
    with m l table_okD(3) [OF assms(1), of m fd i b l j c] show ?thesis by simp
  qed
qed

lemma table_ok_step:
  assumes "table_ok vs t" "k < length vs" "table_step (vs ! k) t v t'"
  shows "table_ok (vs[k := v]) t'"
  using assms(3)
proof cases
  case (table_idle n n' lk)
  note ok = table_okD [OF assms(1) [unfolded table_idle(1)]]
  show ?thesis unfolding table_idle(3)
  proof (rule table_ok_update [OF assms(1) [unfolded table_idle(1)] assms(2)])
    show "fd < n' \<and> (b \<longrightarrow> lk i = Some fd)" if "m < length vs" "vs ! m = Some (fd, i, b)" for m fd i b
      using ok [OF that] table_idle(4) by auto
    then show "fd < n' \<and> (b \<longrightarrow> lk i = Some fd) \<and> (\<forall>m j c. m < length vs \<longrightarrow> m \<noteq> k \<longrightarrow> vs ! m \<noteq> Some (fd, j, c))"
      if "v = Some (fd, i, b)" for fd i b
      using that assms(2) table_idle(2) ok(3) by metis
  qed
next
  case (table_drop n n' lk)
  note ok = table_okD [OF assms(1) [unfolded table_drop(1)]]
  show ?thesis unfolding table_drop(3)
  proof (rule table_ok_update [OF assms(1) [unfolded table_drop(1)] assms(2)])
    show "fd < n' \<and> (b \<longrightarrow> lk i = Some fd)" if "m < length vs" "vs ! m = Some (fd, i, b)" for m fd i b
      using ok(1,2) [OF that] table_drop(4) by auto
  qed (use table_drop(2) in simp)
next
  case (table_open lk n i)
  note ok = table_okD [OF assms(1) [unfolded table_open(2)]]
  show ?thesis unfolding table_open(4)
  proof (rule table_ok_update [OF assms(1) [unfolded table_open(2)] assms(2)])
    show "fd < Suc n \<and> (b \<longrightarrow> lk j = Some fd)" if "m < length vs" "vs ! m = Some (fd, j, b)" for m fd j b
      using ok(1,2) [OF that] by auto
    show "fd < Suc n \<and> (b \<longrightarrow> lk j = Some fd) \<and> (\<forall>m l c. m < length vs \<longrightarrow> m \<noteq> k \<longrightarrow> vs ! m \<noteq> Some (fd, l, c))"
      if "v = Some (fd, j, b)" for fd j b
      using that table_open(3) ok(1) by auto
  qed
next
  case (table_lock lk i fd n)
  note ok = table_okD [OF assms(1) [unfolded table_lock(2)]]
  show ?thesis unfolding table_lock(4)
  proof (rule table_ok_update [OF assms(1) [unfolded table_lock(2)] assms(2)])
    show "fd' < n \<and> (b \<longrightarrow> (lk(i \<mapsto> fd)) j = Some fd')" if "m < length vs" "vs ! m = Some (fd', j, b)" for m fd' j b
      using ok(1,2) [OF that] table_lock(5) by auto
    show "fd' < n \<and> (b \<longrightarrow> (lk(i \<mapsto> fd)) j = Some fd') \<and> (\<forall>m j c. m < length vs \<longrightarrow> m \<noteq> k \<longrightarrow> vs ! m \<noteq> Some (fd', j, c))"
      if "v = Some (fd', j, b)" for fd' j b
      using that table_lock(3) ok(1) [OF assms(2) table_lock(1)] ok(3) [OF assms(2) table_lock(1)] by auto
  qed
next
  case (table_unlock fd i b lk n)
  note ok = table_okD [OF assms(1) [unfolded table_unlock(2)]]
  show ?thesis unfolding table_unlock(4)
  proof (rule table_ok_update [OF assms(1) [unfolded table_unlock(2)] assms(2)])
    show "fd' < n \<and> (b' \<longrightarrow> (if lk i = Some fd then lk(i := None) else lk) j = Some fd')"
      if "m < length vs" "m \<noteq> k" "vs ! m = Some (fd', j, b')" for m fd' j b'
    proof -
      have "fd' \<noteq> fd"
      proof
        assume "fd' = fd"
        with table_unlock(1) have "vs ! k = Some (fd', i, b)" by simp
        from ok(3) [OF that(1,3) assms(2) this] that(2) show False by simp
      qed
      then show ?thesis using ok(1,2) [OF that(1,3)] by auto
    qed
  qed (use table_unlock(3) in simp)
qed

lemma turn_table:
  assumes "turn h dir p s s'" "table_ok (views s) (table (snd (snd s)))"
  shows "table_ok (views s') (table (snd (snd s')))"
  using assms
proof cases
  case (turn_owner a ow w ow' w' ss)
  have "table_ok ((views (ow, ss, w))[0 := owner_view ow']) (table w')"
    using assms(2) owner_table [OF turn_owner(3)] by (intro table_ok_step) (simp_all add: turn_owner(1) views_def)
  then show ?thesis by (simp add: turn_owner(2) views_def)
next
  case (turn_sweeper k ss w t w' ow)
  have "table_ok ((views (ow, ss, w))[Suc k := sweeper_view t]) (table w')"
    using assms(2) sweeper_table [OF turn_sweeper(4)] turn_sweeper(3)
    by (intro table_ok_step) (simp_all add: turn_sweeper(1) views_def)
  then show ?thesis by (simp add: turn_sweeper(2) views_def map_update)
next
  case (turn_arrives ow ss w j)
  have "views (ow, ss @ [Looking j], w) = views (ow, ss, w) @ [None]" by (simp add: views_def)
  with assms(2) show ?thesis
    by (auto simp: turn_arrives table_ok_def table_def nth_append split: if_splits)
next
  case (turn_elsewhere ow ss w w')
  have used: "i \<in> inodes p (ow, ss, w)" if "k < length (views (ow, ss, w))" "views (ow, ss, w) ! k = Some (fd, i, b)" for k fd i b
  proof (cases k)
    case 0
    with that show ?thesis by (cases ow) (auto simp: views_def inodes_def)
  next
    case (Suc m)
    with that have "m < length ss" "sweeper_view (ss ! m) = Some (fd, i, b)" by (simp_all add: views_def)
    moreover from this have "sweeper_fd (ss ! m) = Some (fd, i)" by (cases "ss ! m") auto
    ultimately show ?thesis using nth_mem by (fastforce simp: inodes_def)
  qed
  have "locks w' i = locks w i" if "i \<in> inodes p (ow, ss, w)" for i
    using turn_elsewhere(3) that by (simp add: elsewhere_def)
  moreover have "next_fd w \<le> next_fd w'" using turn_elsewhere(3) by (simp add: elsewhere_def)
  moreover have "views (ow, ss, w') = views (ow, ss, w)" by (simp add: views_def)
  ultimately show ?thesis
    using assms(2) used unfolding turn_elsewhere(1,2) table_ok_def table_def by fastforce
qed

definition holds :: "nat \<Rightarrow> view \<Rightarrow> bool" where
  "holds i v \<longleftrightarrow> (case v of None \<Rightarrow> False | Some (fd, j, b) \<Rightarrow> j = i \<and> b)"

text \<open>
  C35: the liveness test is exclusive. Whatever order the system calls are taken in, from the moment the cluster
  is created, at most one process at a time holds the lock of a lock file: while the owner has it, no
  sweeper can conclude from that file that the owner is dead, and no two sweepers reclaim at once.
\<close>

theorem lock_exclusive:
  assumes "(turn h dir p)\<^sup>*\<^sup>* (Absent, [], w0) s"
  shows "length (filter (holds i) (views s)) \<le> 1"
proof -
  have "table_ok (views s) (table (snd (snd s)))"
    using assms
  proof (induction rule: rtranclp_induct)
    case base
    show ?case by (simp add: table_ok_def table_def views_def)
  next
    case (step t u)
    then show ?case using turn_table by blast
  qed
  then have ok: "table_ok (views s) (locks (snd (snd s)), next_fd (snd (snd s)))" by (simp add: table_def)
  have same: "k = l" if "k < length (views s)" "l < length (views s)" "holds i (views s ! k)" "holds i (views s ! l)" for k l
  proof -
    from that obtain fd fd' where v: "views s ! k = Some (fd, i, True)" "views s ! l = Some (fd', i, True)"
      by (auto simp: holds_def split: option.splits)
    have "locks (snd (snd s)) i = Some fd" by (rule table_okD(2) [OF ok that(1) v(1)]) simp
    moreover have "locks (snd (snd s)) i = Some fd'" by (rule table_okD(2) [OF ok that(2) v(2)]) simp
    ultimately have "fd = fd'" by simp
    with v table_okD(3) [OF ok that(1) v(1) that(2)] show ?thesis by simp
  qed
  have "length (filter P xs) \<le> 1" if "\<And>k l. k < length xs \<Longrightarrow> l < length xs \<Longrightarrow> P (xs ! k) \<Longrightarrow> P (xs ! l) \<Longrightarrow> k = l"
    for P and xs :: "view list"
  proof -
    have "card {k. k < length xs \<and> P (xs ! k)} \<le> Suc 0"
      using that by (auto simp: card_le_Suc0_iff_eq)
    then show ?thesis by (simp add: length_filter_conv_card)
  qed
  then show ?thesis using same by blast
qed

theorem lock_exclusive_witness:
  "(case play example_host example_registry (lock_path example_registry ''0'') (take 6 race) (Absent, [], example_two) of
      None \<Rightarrow> False
    | Some s \<Rightarrow> views s = [Some (4, 6, False), Some (3, 6, True)] \<and> length (filter (holds 6) (views s)) \<le> 1)"
proof -
  let ?run = "play example_host example_registry (lock_path example_registry ''0'') (take 6 race) (Absent, [], example_two)"
  have "(case ?run of None \<Rightarrow> False | Some s \<Rightarrow> views s = [Some (4, 6, False), Some (3, 6, True)])" by code_simp
  then obtain s where s: "?run = Some s" "views s = [Some (4, 6, False), Some (3, 6, True)]"
    by (auto split: option.splits)
  from lock_exclusive [OF play_turns [OF s(1)]] s(2) show ?thesis by (simp add: s(1))
qed

end
