(* ===== verification/Reclaim.thy ===== *)
theory Reclaim
  imports Exclusion
begin

text \<open>
  A whole sweep: what the three passes of \<open>CleanOrphans\<close> do for one dead cluster among others. The first
  pass reaches its record whatever it does to the records before, and nothing that the passes do afterwards
  brings anything back.
\<close>

subsection \<open>A sweep only takes away\<close>

definition decays :: "world \<Rightarrow> world \<Rightarrow> bool" where
  "decays w w' \<longleftrightarrow> shrinks w w' \<and> fewer_alive w w' \<and> (\<forall>p. exists_at w' p \<longrightarrow> exists_at w p)"

lemma decays_alive: "decays w w' \<Longrightarrow> is_alive w' p \<Longrightarrow> is_alive w p"
  by (auto simp: decays_def is_alive_iff elim!: fewer_alive_origin)

lemma decays_text: "decays w w' \<Longrightarrow> file_text w p = None \<Longrightarrow> file_text w' p = None"
  using shrinks_file_text by (cases "file_text w' p") (auto simp: decays_def)

interpretation decay: frame decays
proof
  show "decays w w" for w by (simp add: decays_def shrink.frame_refl deaths.frame_refl)
  show "decays w u" if "decays w t" "decays t u" for w t u
    using that shrink.frame_trans [of w t u] deaths.frame_trans [of w t u] by (simp add: decays_def)
qed

lemma decays_same:
  "procs w' = procs w \<Longrightarrow> files w' = files w \<Longrightarrow> decays w w'"
  by (simp add: decays_def shrinks_def fewer_alive_def list_all2_same exists_at_def lookup_def)

lemma decays_looked: "looked h w w' \<Longrightarrow> decays w w'"
  using lookedD by (intro decays_same) auto

lemma decays_only_locks: "only_locks w w' \<Longrightarrow> decays w w'"
  using only_locksD by (intro decays_same) auto

lemma decays_signal: "decays w (snd (signalGroup h p SIGKILL w))"
proof -
  obtain ps where "snd (signalGroup h p SIGKILL w) = w\<lparr>procs := ps\<rparr>" using signalGroup_world by blast
  then show ?thesis
    using signalGroup_fewer_alive [of w h p] by (simp add: decays_def shrinks_def exists_at_def)
qed

lemma decays_remove: "decays w (snd (remove h p w))"
proof -
  have "procs (snd (remove h p w)) = procs w" by (rule same_restD(1) [OF staysD [OF same_rest_ops(7)]])
  then show ?thesis
    using shrinks_remove exists_remove by (auto simp: decays_def fewer_alive_def list_all2_same)
qed

lemma decays_removeAll: "decays w (snd (removeAll h p w))"
proof -
  have "procs (snd (removeAll h p w)) = procs w" by (rule same_restD(1) [OF staysD [OF same_rest_ops(8)]])
  moreover have "exists_at (snd (removeAll h p w)) q \<Longrightarrow> exists_at w q" for q
    by (auto simp: removeAll_def split: option.splits if_splits)
  ultimately show ?thesis
    using shrinks_removeAll by (auto simp: decays_def fewer_alive_def list_all2_same)
qed

lemma decays_kill_server: "decays w (kill_server h d s w)"
proof -
  obtain b w1 where 1: "processIsServer h (sr_PID s) (sr_Binary s) d w = (b, w1)" by fastforce
  with decays_looked [OF processIsServer_looked, of w h "sr_PID s" "sr_Binary s" d] have "decays w w1" by simp
  with 1 decays_signal decay.frame_trans show ?thesis by (cases b) (auto simp: kill_server_def)
qed

lemma decays_killProcessesUsing: "decays w (killProcessesUsing h d w)"
proof (cases "ownsDataDirName d")
  case True
  obtain es w1 where e: "enumerateProcesses h w = (es, w1)" by fastforce
  have "decays w w1" by (rule decays_looked [OF enumerateProcesses_sound(1) [OF e]])
  then have "decays w (forS es (kill_entry h d) w1)"
    by (rule decay.forS_from) (simp add: kill_entry_def decays_signal decay.frame_refl)
  with True e show ?thesis by (simp add: killProcessesUsing_def)
qed (simp add: killProcessesUsing_def decay.frame_refl)

lemma decays_reclaim_locked: "decays w (snd (reclaim_locked h path w))"
proof -
  have two: "decays w t \<Longrightarrow> decays w (snd (remove h q (snd (remove h path t))))" for t q
    using decays_remove decay.frame_trans by blast
  show ?thesis
  proof (cases "readFile h path w")
    case (Inr raw)
    show ?thesis
    proof (cases "decode_record raw")
      case None
      with Inr two [OF decay.frame_refl] show ?thesis by (simp add: reclaim_locked_def)
    next
      case (Some r)
      define w1 where "w1 = forS (rec_Servers r) (kill_server h (rec_DataPath r)) w"
      define w2 where "w2 = (if rec_OwnsDataPath r then killProcessesUsing h (rec_DataPath r) w1 else w1)"
      define w3 where "w3 = (if rec_OwnsDataPath r \<and> rec_DataPath r \<noteq> []
        then snd (removeAll h (rec_DataPath r) w2) else w2)"
      have "decays w w1" unfolding w1_def by (rule decay.forS_stays) (rule decays_kill_server)
      moreover have "decays w1 w2" "decays w2 w3"
        using decays_killProcessesUsing decays_removeAll decay.frame_refl by (auto simp: w2_def w3_def)
      ultimately have "decays w w3" using decay.frame_trans by blast
      moreover have "snd (reclaim_locked h path w) = snd (remove h (lockPathFor path) (snd (remove h path w3)))"
        by (simp only: reclaim_locked_def Inr sum.case Some option.case Let_def snd_conv w1_def w2_def w3_def)
      ultimately show ?thesis using two by simp
    qed
  qed (simp add: reclaim_locked_def decay.frame_refl)
qed

text \<open>Whatever a sweep does with a lock in hand.\<close>

lemma decays_guarded:
  assumes "\<And>l t. decays t (snd (body l t))"
  shows "decays w (snd (guarded (tryLock h p) body w))"
  by (rule registry_lock.guarded_frame [OF decay.frame_axioms decays_only_locks assms])

lemma decays_unlock: "decays w t \<Longrightarrow> decays w (unlock l t)"
  using decay.frame_trans decays_only_locks [OF registry_lock.free_calm] by blast

lemma decays_reclaimRecord: "decays w (snd (reclaimRecord h path w))"
  unfolding reclaimRecord_def
proof (rule decays_guarded)
  fix l t
  show "decays t (snd (case reclaim_locked h path t of (ok, w') \<Rightarrow> (ok, unlock l w')))"
    using decays_unlock [OF decays_reclaim_locked [of t h path], of l]
    by (cases "reclaim_locked h path t") simp
qed

lemma decays_may_reclaim: "decays w (snd (may_reclaim_dir h d p w))"
proof -
  have "decays w (snd (guarded (tryLock h p) (\<lambda>lock w1. (True, unlock lock w1)) w))"
    by (rule decays_guarded) (simp add: decays_unlock decay.frame_refl)
  moreover have "decays w (snd (usedByLiveProcess h d w))" by (rule decays_looked [OF usedByLiveProcess_looked])
  ultimately show ?thesis
    by (auto simp: may_reclaim_dir_def decay.frame_refl split: sum.split option.split prod.splits)
qed

lemma decays_reclaim_dir: "decays w (snd (reclaim_dir h reg n w))"
proof -
  define d where "d = path_join [tmp_dir h, n]"
  define p where "p = path_join [reg, recordPrefix @ trimPrefix n dataDirPrefix @ ''.lock'']"
  obtain ok w1 where 1: "may_reclaim_dir h d p w = (ok, w1)" by fastforce
  with decays_may_reclaim [of w h d p] have "decays w w1" by simp
  moreover from this have "decays w (snd (remove h p (snd (removeAll h d (killProcessesUsing h d w1)))))"
    by (rule decay.frame_trans [OF decay.frame_trans [OF decay.frame_trans [OF _ decays_killProcessesUsing]
          decays_removeAll] decays_remove])
  ultimately show ?thesis
    using 1 by (cases ok) (simp_all add: reclaim_dir_def Let_def d_def [symmetric] p_def [symmetric])
qed

lemma decays_drop_stale_lock: "decays w (drop_stale_lock h p w)"
proof -
  have "decays w (snd (guarded (tryLock h p) (\<lambda>lock w1. (True, snd (remove h p (unlock lock w1)))) w))"
  proof (rule decays_guarded)
    fix l t
    show "decays t (snd (True, snd (remove h p (unlock l t))))"
      using decay.frame_trans [OF decays_unlock [OF decay.frame_refl] decays_remove] by simp
  qed
  then show ?thesis by (simp add: drop_stale_lock_def decay.frame_refl split: sum.split)
qed

lemma decays_count_loop: "(\<And>x t. decays t (snd (f x t))) \<Longrightarrow> decays s (snd (count_loop f xs s))"
proof (induction xs arbitrary: s)
  case (Cons x xs)
  obtain ok s1 where f: "f x s = (ok, s1)" by fastforce
  have "decays s s1" using Cons.prems [of s x] f by simp
  moreover have "decays s1 (snd (count_loop f xs s1))" by (rule Cons.IH [OF Cons.prems])
  ultimately show ?case using f decay.frame_trans by (cases "count_loop f xs s1") fastforce
qed (simp add: decay.frame_refl)

lemma decays_later_passes:
  "decays w (sweepStaleLocks h reg (snd (sweepDataDirectories h reg w)))"
proof -
  have "decays w (snd (sweepDataDirectories h reg w))"
    by (auto simp: sweepDataDirectories_def decay.frame_refl decays_reclaim_dir
        intro: decays_count_loop split: sum.split)
  moreover have "decays v (sweepStaleLocks h reg v)" for v
    by (auto simp: sweepStaleLocks_def decay.frame_refl decays_drop_stale_lock
        intro!: decay.forS_stays split: sum.split)
  ultimately show ?thesis using decay.frame_trans by blast
qed

subsection \<open>The record of a dead cluster\<close>

definition own_files :: "string \<Rightarrow> string \<Rightarrow> string \<Rightarrow> bool" where
  "own_files reg i p \<longleftrightarrow> p = record_path reg i \<or> p = lock_path reg i"

text \<open>
  A record that a sweep can act on: its lock file is there and nobody holds the lock, it can be read, its data
  directory is a possible argument of \<open>os.RemoveAll\<close>, and the first process of the machine does not name it.
\<close>

definition reclaimable :: "host \<Rightarrow> string \<Rightarrow> string \<Rightarrow> clusterRecord \<Rightarrow> world \<Rightarrow> bool" where
  "reclaimable h reg i r w \<longleftrightarrow>
    procfs_seen h w \<and> distinct (map proc_pid (procs w)) \<and>
    (case lookup w (lock_path reg i) of Some (Regular j _ _) \<Rightarrow> locks w j = None | _ \<Rightarrow> False) \<and>
    (case file_text w (record_path reg i) of None \<Rightarrow> False | Some raw \<Rightarrow> decode_record raw = Some r) \<and>
    foreign h w (\<lambda>_. False) (rec_DataPath r) \<and> leaf (rec_DataPath r) \<noteq> ''.''"

lemma reclaimable_stays:
  assumes "sweeps h (own_files reg i) (\<lambda>_. False) w t" "reclaimable h reg i r w"
  shows "reclaimable h reg i r t"
proof -
  have "lookup t (lock_path reg i) = lookup w (lock_path reg i)" "file_text t (record_path reg i) = file_text w (record_path reg i)"
    using sweepsD(5) [OF assms(1)] by (simp_all add: same_files_def own_files_def file_text_def)
  moreover have "map proc_pid (procs t) = map proc_pid (procs w)"
    using sweepsD(2) [OF assms(1)] by (auto simp: fewer_alive_def list_all2_conv_all_nth intro!: nth_equalityI)
  ultimately show ?thesis
    using assms(2) sweepsD(3,4) [OF assms(1)] foreign_sweeps [OF assms(1)]
    by (auto simp: reclaimable_def split: option.splits node.splits)
qed

text \<open>The frame of the processes alone.\<close>

lemma sweeps_dies: "sweeps h P (\<lambda>_. False) w t \<Longrightarrow> dies h w t"
  by (simp add: sweeps_def same_files_def)

lemma servers_of_stays:
  assumes "dies h w t" "distinct (map proc_pid (procs w))" "p \<in> servers_of h r w" "is_alive t p"
  shows "p \<in> servers_of h r t"
proof -
  have o: "ordinary h t p" using ordinary_stays [OF assms(1)] assms(3) by (simp add: servers_of_def)
  obtain q where q: "live_proc t p = Some q"
    using assms(4) by (cases "live_proc t p") (auto simp: is_alive_iff live_proc_def find_None_iff)
  note q' = live_proc_Some [OF q]
  have "live_proc w p = Some q" by (rule live_proc_stays [OF assms(1,2) q])
  then have only: "q' = q" if "q' \<in> set (procs w)" "alive q'" "proc_pid q' = p" for q'
  proof -
    have "live_proc w p = Some q'" using that by (simp add: live_proc_unique [OF assms(2)])
    with \<open>live_proc w p = Some q\<close> show ?thesis by simp
  qed
  have "fst (processIsServer h p b d w) \<Longrightarrow> fst (processIsServer h p b d t)" for b d
    using recognised_stays [OF assms(1,2) _ assms(4)] by blast
  then show ?thesis using assms(3) o only q' unfolding servers_of_def by blast
qed

lemma reclaimable_reclaimed:
  assumes "\<And>k p. io_fault h k p = None" "reclaimable h reg i r w"
  shows "case reclaimRecord h (record_path reg i) w of (ok, w') \<Rightarrow>
    ok \<and> file_text w' (record_path reg i) = None \<and> file_text w' (lock_path reg i) = None \<and>
    (rec_OwnsDataPath r \<longrightarrow> rec_DataPath r \<noteq> [] \<longrightarrow> \<not> exists_at w' (rec_DataPath r)) \<and>
    (\<forall>p \<in> servers_of h r w. \<not> is_alive w' p)"
proof -
  from assms(2) obtain j s x where lock: "lookup w (lock_path reg i) = Some (Regular j s x)" "locks w j = None"
    by (auto simp: reclaimable_def split: option.splits node.splits)
  from assms(2) obtain raw where raw: "file_text w (record_path reg i) = Some raw" "decode_record raw = Some r"
    by (auto simp: reclaimable_def split: option.splits)
  show ?thesis
    using reclaimRecord_reclaims [where h = h and w = w and path = "record_path reg i"] assms lock raw
    by (simp add: reclaimable_def)
qed

text \<open>The other records leave this one alone: none of them names a directory that its files are in.\<close>

definition others_apart :: "host \<Rightarrow> string \<Rightarrow> string \<Rightarrow> world \<Rightarrow> bool" where
  "others_apart h reg i w \<longleftrightarrow>
    (\<forall>n. n \<noteq> ''cluster-'' @ i @ ''.json'' \<longrightarrow> record_safe h (own_files reg i) (\<lambda>_. False) w (reg @ ''/'' @ n))"

lemma deletable_own:
  assumes "abs_dir reg" "component n" "n \<noteq> ''cluster-'' @ i @ ''.json''" "n \<noteq> ''cluster-'' @ i @ ''.lock''"
  shows "deletable (own_files reg i) (reg @ ''/'' @ n)"
  using assms parent_append [OF assms(1,2)]
  by (simp add: deletable_def own_files_def record_path_def lock_path_def del: append.simps)

lemma others_reclaimed:
  assumes "abs_dir reg" "CHR ''/'' \<notin> set i" "others_apart h reg i w" "sweeps h (own_files reg i) (\<lambda>_. False) w t"
    and "p \<in> set (files_ending v reg ''.json'' names)" "\<And>n. n \<in> set names \<Longrightarrow> CHR ''/'' \<notin> set n"
    and "p \<noteq> record_path reg i"
  shows "sweeps h (own_files reg i) (\<lambda>_. False) t (snd (reclaimRecord h p t))"
proof -
  from files_endingE [OF assms(5,1) _ _ assms(6)] obtain m where
    m: "CHR ''/'' \<notin> set m" "component (m @ ''.json'')" "p = reg @ ''/'' @ m @ ''.json''" by auto
  have lock: "lockPathFor p = reg @ ''/'' @ m @ ''.lock''"
    using lockPathFor_json [of "reg @ ''/'' @ m"] m(3) by (simp del: lockPathFor_json)
  have "m \<noteq> ''cluster-'' @ i" using assms(7) m(3) by (auto simp: record_path_def)
  then have ne: "m @ ''.json'' \<noteq> ''cluster-'' @ i @ ''.json''" "m @ ''.lock'' \<noteq> ''cluster-'' @ i @ ''.lock''"
    "m @ ''.json'' \<noteq> ''cluster-'' @ i @ ''.lock''" "m @ ''.lock'' \<noteq> ''cluster-'' @ i @ ''.json''"
    using json_not_lock [of m "''cluster-'' @ i"] lock_not_json [of m "''cluster-'' @ i"]
    by (metis append.assoc append_same_eq)+
  have c: "component (m @ ''.lock'')" using m(1) by (simp add: component_def)
  have "record_safe h (own_files reg i) (\<lambda>_. False) t p"
    using record_safe_sweeps [OF assms(4)] assms(3) ne(1) unfolding m(3) others_apart_def by blast
  with deletable_own [OF assms(1) m(2) ne(1,3)] deletable_own [OF assms(1) c ne(4,2)]
  have "grouped (\<lambda>_. False) t \<and> record_safe h (own_files reg i) (\<lambda>_. False) t p \<and>
      deletable (own_files reg i) p \<and> deletable (own_files reg i) (lockPathFor p)"
    unfolding lock unfolding m(3) by (simp add: grouped_def)
  then show ?thesis by (intro reclaimRecord_sweeps) blast
qed

lemma count_loop_append: "snd (count_loop f (xs @ ys) s) = snd (count_loop f ys (snd (count_loop f xs s)))"
proof (induction xs arbitrary: s)
  case (Cons x xs)
  obtain ok s1 where "f x s = (ok, s1)" by fastforce
  with Cons [of s1] show ?case
    by (cases "count_loop f (xs @ ys) s1"; cases "count_loop f xs s1") auto
qed simp

text \<open>The first pass lists the record.\<close>

lemma record_listed:
  assumes "abs_dir reg" "CHR ''/'' \<notin> set i" "is_dir w reg" "io_fault h OpReadDir reg = None"
    and "file_text w (record_path reg i) \<noteq> None"
  obtains names where "readDir h reg w = Inr names" "record_path reg i \<in> set (files_ending w reg ''.json'' names)"
proof -
  let ?n = "''cluster-'' @ i @ ''.json''"
  let ?names = "sort (remdups (child_names w reg))"
  have dir: "readDir h reg w = Inr ?names" using assms(3,4) by (simp add: readDir_def)
  obtain j s x where l: "lookup w (record_path reg i) = Some (Regular j s x)"
    using assms(5) by (auto simp: file_text_def split: option.splits node.splits)
  then have "record_path reg i \<in> fst ` set (files w)" by (auto simp: lookup_def dest: map_of_SomeD intro: image_eqI [rotated])
  moreover have leaf: "leaf (record_path reg i) = ?n"
    using component_record [OF assms(2)]
    by (simp add: leaf_def record_path_def split_on_append_sep split_on_no_sep component_def)
  moreover have "hasPrefix (record_path reg i) (reg @ ''/'')" "CHR ''/'' \<notin> set (drop (Suc (length reg)) (record_path reg i))"
    using assms(2) by (simp_all add: record_path_def hasPrefix_iff)
  ultimately have "?n \<in> set (child_names w reg)" unfolding child_names_def by force
  moreover have "\<not> is_dir w (reg @ ''/'' @ ?n)"
    using l assms(1) by (auto simp: is_dir_def record_path_def abs_dir_def)
  moreover have "hasSuffix ?n ''.json''" by (simp add: hasSuffix_iff suffix_def)
  moreover have "path_join [reg, ?n] = record_path reg i"
    using path_join_abs [OF assms(1) component_record [OF assms(2)]] by (simp add: record_path_def)
  ultimately have "record_path reg i \<in> set (files_ending w reg ''.json'' ?names)"
    unfolding files_ending_def by force
  with dir that show thesis by blast
qed

lemma count_loop_one:
  "fst (f x (snd (count_loop f xs s))) \<Longrightarrow> 1 \<le> fst (count_loop f (xs @ x # ys) s)"
proof (induction xs arbitrary: s)
  case Nil
  then show ?case by (cases "f x s"; cases "count_loop f ys (snd (f x s))") auto
next
  case (Cons y xs)
  obtain ok s1 where f: "f y s = (ok, s1)" by fastforce
  obtain n s2 where 1: "count_loop f xs s1 = (n, s2)" by fastforce
  obtain m s3 where 2: "count_loop f (xs @ x # ys) s1 = (m, s3)" by fastforce
  from Cons.prems f 1 have "fst (f x s2)" by simp
  then have "1 \<le> m" using Cons.IH [of s1] 1 2 by simp
  then show ?case using f 2 by simp
qed

lemma sweepRecords_reclaims:
  assumes quiet: "\<And>k p. io_fault h k p = None" and reg: "abs_dir reg" "CHR ''/'' \<notin> set i" "is_dir w reg"
    and r: "reclaimable h reg i r w" and "others_apart h reg i w"
  shows "case sweepRecords h reg w of (n, w') \<Rightarrow>
    1 \<le> n \<and> file_text w' (record_path reg i) = None \<and> file_text w' (lock_path reg i) = None \<and>
    (rec_OwnsDataPath r \<longrightarrow> rec_DataPath r \<noteq> [] \<longrightarrow> \<not> exists_at w' (rec_DataPath r)) \<and>
    (\<forall>p \<in> servers_of h r w. \<not> is_alive w' p)"
proof -
  let ?q = "record_path reg i"
  have "file_text w ?q \<noteq> None" using r by (auto simp: reclaimable_def split: option.splits)
  from record_listed [OF reg quiet this] obtain names where
    dir: "readDir h reg w = Inr names" and listed: "?q \<in> set (files_ending w reg ''.json'' names)" .
  from split_list_first [OF listed] obtain ys zs where
    split: "files_ending w reg ''.json'' names = ys @ ?q # zs" "?q \<notin> set ys" by auto
  obtain n1 w1 where 1: "count_loop (reclaimRecord h) ys w = (n1, w1)" by fastforce
  have "sweeps h (own_files reg i) (\<lambda>_. False) w (snd (count_loop (reclaimRecord h) ys w))"
  proof (rule count_loop_frame [OF _ sweep.frame_refl])
    fix p t
    assume p: "p \<in> set ys" and t: "sweeps h (own_files reg i) (\<lambda>_. False) w t"
    have "p \<in> set (files_ending w reg ''.json'' names)" "p \<noteq> ?q" using p split by auto
    from others_reclaimed [OF reg(1,2) assms(6) t this(1) readDir_names [OF dir] this(2)]
    show "sweeps h (own_files reg i) (\<lambda>_. False) t (snd (reclaimRecord h p t))" .
  qed
  with 1 have s1: "sweeps h (own_files reg i) (\<lambda>_. False) w w1" by simp
  note dies1 = sweeps_dies [OF s1]
  obtain ok w2 where 2: "reclaimRecord h ?q w1 = (ok, w2)" by fastforce
  from reclaimable_reclaimed [OF quiet reclaimable_stays [OF s1 r]] 2
  have gone: "ok" "file_text w2 ?q = None" "file_text w2 (lock_path reg i) = None"
    "rec_OwnsDataPath r \<longrightarrow> rec_DataPath r \<noteq> [] \<longrightarrow> \<not> exists_at w2 (rec_DataPath r)"
    "\<forall>p \<in> servers_of h r w1. \<not> is_alive w2 p" by auto
  obtain n3 w3 where 3: "count_loop (reclaimRecord h) zs w2 = (n3, w3)" by fastforce
  have d: "decays w1 w2" "decays w2 w3"
    using decays_reclaimRecord [of w1 h ?q] decays_count_loop [of "reclaimRecord h" w2 zs] decays_reclaimRecord 2 3
    by auto
  have dead: "\<not> is_alive w3 p" if "p \<in> servers_of h r w" for p
  proof
    assume "is_alive w3 p"
    then have "is_alive w2 p" by (rule decays_alive [OF d(2)])
    then have "is_alive w1 p" by (rule decays_alive [OF d(1)])
    moreover have "distinct (map proc_pid (procs w))" using r by (simp add: reclaimable_def)
    ultimately have "p \<in> servers_of h r w1" using servers_of_stays [OF dies1 _ that] by blast
    with gone(5) \<open>is_alive w2 p\<close> show False by blast
  qed
  have run: "snd (sweepRecords h reg w) = w3"
    using 1 2 3 by (simp add: sweepRecords_def dir split(1) count_loop_append)
  have "1 \<le> fst (sweepRecords h reg w)"
    using count_loop_one [of "reclaimRecord h" ?q ys w zs] 1 2 gone(1) by (simp add: sweepRecords_def dir split(1))
  with run dead gone d(2) decays_text [OF d(2)] show ?thesis
    by (cases "sweepRecords h reg w") (auto simp: decays_def)
qed

text \<open>
  C4: a sweep reclaims the dead. When nothing fails, and the registry has a record whose lock nobody holds, which
  can be read, and whose files are in no directory that another record names, then after \<open>CleanOrphans\<close>
  the record and the lock are gone, so is the data directory if the cluster owned it, and no server of the
  cluster is alive: neither one that the record lists nor, for an owned directory, one that was started and
  never recorded. And it is counted.
\<close>

theorem CleanOrphans_reclaims:
  assumes "\<And>k p. io_fault h k p = None" "abs_dir (registry_path h cfg)" "is_dir w (registry_path h cfg)"
    and "CHR ''/'' \<notin> set i" "reclaimable h (registry_path h cfg) i r w" "others_apart h (registry_path h cfg) i w"
  shows "case CleanOrphans h cfg w of
      (Inl e, w') \<Rightarrow> False
    | (Inr n, w') \<Rightarrow>
        1 \<le> n \<and> file_text w' (record_path (registry_path h cfg) i) = None \<and>
        file_text w' (lock_path (registry_path h cfg) i) = None \<and>
        (rec_OwnsDataPath r \<longrightarrow> rec_DataPath r \<noteq> [] \<longrightarrow> \<not> exists_at w' (rec_DataPath r)) \<and>
        (\<forall>p \<in> servers_of h r w. \<not> is_alive w' p)"
proof -
  let ?reg = "registry_path h cfg"
  have dir: "registryDir h cfg w = (Inr ?reg, w)"
    using clean_abs_dir [OF assms(2)] assms(3)
    by (simp add: registryDir_def Let_def seqE_def wrapE_def mkdirAll_def returnE_def)
  obtain n w1 where 1: "sweepRecords h ?reg w = (n, w1)" by fastforce
  obtain m w2 where 2: "sweepDataDirectories h ?reg w1 = (m, w2)" by fastforce
  from sweepRecords_reclaims [OF assms(1,2,4,3,5,6)] 1 have r: "1 \<le> n"
    "file_text w1 (record_path ?reg i) = None" "file_text w1 (lock_path ?reg i) = None"
    "rec_OwnsDataPath r \<longrightarrow> rec_DataPath r \<noteq> [] \<longrightarrow> \<not> exists_at w1 (rec_DataPath r)"
    "\<forall>p \<in> servers_of h r w. \<not> is_alive w1 p" by auto
  have d: "decays w1 (sweepStaleLocks h ?reg w2)" using decays_later_passes [of w1 h ?reg] 2 by simp
  have "CleanOrphans h cfg w = (Inr (n + m), sweepStaleLocks h ?reg w2)"
    by (simp add: CleanOrphans_def seqE_def dir 1 2)
  moreover have "\<not> exists_at (sweepStaleLocks h ?reg w2) q" if "\<not> exists_at w1 q" for q
    using d that by (auto simp: decays_def)
  ultimately show ?thesis using r decays_text [OF d] decays_alive [OF d] by auto
qed

lemma example_two_others: "others_apart example_host example_registry ''8'' example_two"
  unfolding others_apart_def
proof (intro allI impI)
  fix n
  assume n: "n \<noteq> ''cluster-'' @ ''8'' @ ''.json''"
  let ?p = "example_registry @ ''/'' @ n"
  show "record_safe example_host (own_files example_registry ''8'') (\<lambda>_. False) example_two ?p"
  proof (cases "file_text example_two ?p")
    case (Some s)
    have "?p \<noteq> record_path example_registry ''8''" using n by (simp add: record_path_def)
    with example_two_files [OF Some] have "s = [] \<or> ?p = record_path example_registry ''7''" by blast
    moreover have "file_text example_two (record_path example_registry ''7'') = Some (record_text example_record)" by code_simp
    ultimately have "s = [] \<or> s = record_text example_record" using Some by auto
    moreover have "decode_record [] = None" by code_simp
    moreover have "decode_record (record_text example_record) = Some (on_disk example_record)"
      by (rule decode_record_text) code_simp
    moreover have "foreign example_host example_two (\<lambda>_. False) ''/tmp/embedded-tikv-7''" by code_simp
    moreover have "rec_DataPath (on_disk example_record) = ''/tmp/embedded-tikv-7''" by code_simp
    moreover have "apart (own_files example_registry ''8'') ''/tmp/embedded-tikv-7''"
    proof -
      have "\<not> under ''/tmp/embedded-tikv-7'' (record_path example_registry ''8'')"
        "\<not> under ''/tmp/embedded-tikv-7'' (lock_path example_registry ''8'')"
        "parent ''/tmp/embedded-tikv-7'' \<noteq> record_path example_registry ''8''"
        "parent ''/tmp/embedded-tikv-7'' \<noteq> lock_path example_registry ''8''" by code_simp+
      then show ?thesis by (auto simp: apart_def own_files_def)
    qed
    ultimately show ?thesis using Some by (auto simp: record_safe_def foreign_not_mistaken)
  qed (simp add: record_safe_def)
qed

theorem CleanOrphans_reclaims_witness:
  "is_alive example_two 102 \<and>
    (case CleanOrphans example_host DefaultConfig example_two of
      (Inl e, w') \<Rightarrow> False
    | (Inr n, w') \<Rightarrow> 1 \<le> n \<and> \<not> exists_at w' ''/tmp/embedded-tikv-8'' \<and> \<not> is_alive w' 102)"
proof
  show "is_alive example_two 102" by code_simp
  let ?reg = "registry_path example_host DefaultConfig"
  have parts: "procfs_seen example_host example_two" "distinct (map proc_pid (procs example_two))"
    "case lookup example_two (lock_path example_registry ''8'') of Some (Regular j _ _) \<Rightarrow> locks example_two j = None | _ \<Rightarrow> False"
    "file_text example_two (record_path example_registry ''8'') = Some (record_text orphan_record)"
    "foreign example_host example_two (\<lambda>_. False) (rec_DataPath orphan_record)"
    "leaf (rec_DataPath orphan_record) \<noteq> ''.''" "abs_dir example_registry" "is_dir example_two example_registry"
    "CHR ''/'' \<notin> set ''8''"
    by code_simp+
  then have r: "reclaimable example_host example_registry ''8'' orphan_record example_two"
    using decode_orphan by (simp add: reclaimable_def)
  have "ordinary example_host example_two 102"
    "fst (processIsServer example_host 102 ''/b/pd-server'' (rec_DataPath orphan_record) example_two)"
    by code_simp+
  then have "102 \<in> servers_of example_host orphan_record example_two"
    by (simp add: servers_of_def) (simp add: orphan_record_def)
  moreover have quiet: "io_fault example_host k q = None" for k q by (simp add: example_host_def)
  moreover have "rec_OwnsDataPath orphan_record" "rec_DataPath orphan_record = ''/tmp/embedded-tikv-8''"
    by (simp_all add: orphan_record_def)
  ultimately show "case CleanOrphans example_host DefaultConfig example_two of
      (Inl e, w') \<Rightarrow> False
    | (Inr n, w') \<Rightarrow> 1 \<le> n \<and> \<not> exists_at w' ''/tmp/embedded-tikv-8'' \<and> \<not> is_alive w' 102"
    using CleanOrphans_reclaims [OF quiet, where cfg = DefaultConfig and i = "''8''" and r = orphan_record
        and w = example_two, unfolded example_registry_eq] r parts(7-9) example_two_others
    by (auto split: prod.splits sum.splits)
qed

end
