(* ===== verification/Attempts.thy ===== *)
theory Attempts
  imports Cluster
begin

text \<open>
  The retries of \<open>start\<close> in \<^verbatim>\<open>embedded_tikv.go\<close>, against a declarative account: \<open>conflicts\<close> is a row of
  attempts that each failed on a port and were each torn down before the next.
\<close>

inductive conflicts :: "host \<Rightarrow> env \<Rightarrow> nat \<Rightarrow> go_error \<Rightarrow> Cluster \<times> world \<Rightarrow> go_error \<Rightarrow> Cluster \<times> world \<Rightarrow> bool"
  for h v where
  conflicts_none: "conflicts h v 0 e s e s"
| conflicts_more: "startOnce h v s = (Inl e1, s1) \<Longrightarrow> isPortConflict e1 \<Longrightarrow> teardown h s1 = (r1, s2) \<Longrightarrow>
    conflicts h v k e1 s2 e' t \<Longrightarrow> conflicts h v (Suc k) e s e' t"

inductive_simps conflicts_0 [simp]: "conflicts h v 0 e s e' t"
inductive_simps conflicts_Suc: "conflicts h v (Suc k) e s e' t"

text \<open>One more attempt at the front of the row.\<close>

lemma conflicts_first:
  assumes "startOnce h v s = (Inl e1, s1)" "teardown h s1 = (r1, s2)"
  shows "conflicts h v (Suc k) e s e' t \<longleftrightarrow> isPortConflict e1 \<and> conflicts h v k e1 s2 e' t"
  using assms by (cases s1; cases s2) (auto simp: conflicts_Suc)

definition succeeds :: "host \<Rightarrow> env \<Rightarrow> Cluster \<times> world \<Rightarrow> Cluster \<times> world \<Rightarrow> bool" where
  "succeeds h v s t \<longleftrightarrow> (\<exists>c w. startOnce h v s = (Inr (), (c, w)) \<and> t = (c\<lparr>cl_started := True\<rparr>, w))"

definition gives_up :: "host \<Rightarrow> env \<Rightarrow> Cluster \<times> world \<Rightarrow> go_error \<Rightarrow> Cluster \<times> world \<Rightarrow> bool" where
  "gives_up h v s e t \<longleftrightarrow>
    (\<exists>s1 r1. startOnce h v s = (Inl e, s1) \<and> teardown h s1 = (r1, t) \<and> \<not> isPortConflict e)"

lemma ex_less_Suc: "(\<exists>k<Suc n. P k) \<longleftrightarrow> P 0 \<or> (\<exists>k<n. P (Suc k))"
  using less_Suc_eq_0_disj by auto

text \<open>
  C36: the retries are bounded and selective. The loop of \<open>start\<close> ends in a success after fewer than \<open>n\<close> lost races for a
  port; or with the error of the first attempt that failed on anything else, unchanged; or, after exactly
  \<open>n\<close> lost races, with the last of their errors. Every failed attempt has been torn down before the next
  begins, and before an error is returned.
\<close>

theorem attempts_spec:
  "attempts h v n e s = (r, t) \<longleftrightarrow>
    (case r of
      Inr _ \<Rightarrow> (\<exists>k<n. \<exists>e' s'. conflicts h v k e s e' s' \<and> succeeds h v s' t)
    | Inl err \<Rightarrow>
        (\<exists>k<n. \<exists>e' s'. conflicts h v k e s e' s' \<and> gives_up h v s' err t) \<or>
        (\<exists>e'. conflicts h v n e s e' t \<and> err = did_not_start e'))"
proof (induction n arbitrary: e s)
  case 0
  then show ?case by (auto split: sum.split)
next
  case (Suc n)
  obtain r1 c1 w1 where 1: "startOnce h v s = (r1, (c1, w1))" by (metis prod.exhaust)
  obtain r2 s2 where 2: "teardown h (c1, w1) = (r2, s2)" by (metis prod.exhaust)
  show ?case
  proof (cases r1)
    case (Inl e1)
    note first = conflicts_first [OF 1 [unfolded Inl] 2]
    have front: "\<not> succeeds h v s t" "gives_up h v s err t \<longleftrightarrow> err = e1 \<and> t = s2 \<and> \<not> isPortConflict e1" for err
      using 1 2 Inl by (auto simp: succeeds_def gives_up_def)
    show ?thesis
      using 1 2 Inl Suc.IH [of e1 s2]
      by (cases "isPortConflict e1") (auto simp: ex_less_Suc first front simp del: split_paired_Ex split_paired_All split: sum.split)
  next
    case (Inr u)
    have none: "\<not> conflicts h v (Suc k) e s e' t'" for k e' t' using 1 Inr by (simp add: conflicts_Suc)
    have front: "succeeds h v s t \<longleftrightarrow> t = (c1\<lparr>cl_started := True\<rparr>, w1)" "\<not> gives_up h v s err t" for err
      using 1 Inr by (auto simp: succeeds_def gives_up_def)
    show ?thesis using 1 Inr by (auto simp: ex_less_Suc none front simp del: split_paired_Ex split_paired_All split: sum.split)
  qed
qed

end
