(* ===== verification/Parallel_Stop.thy ===== *)
theory Parallel_Stop
  imports Examples
begin

text \<open>
  The goroutines of \<open>teardown\<close> in \<^verbatim>\<open>embedded_tikv.go\<close>, each in \<^verbatim>\<open>process.stop\<close> of \<^verbatim>\<open>process.go\<close>, call by call and in
  any order. \<open>Cluster.stop_all\<close> moves them in lockstep; here it is shown to be one of these runs, and what
  every run has in common: its results, its duration, and that it ends.
\<close>

subsection \<open>One goroutine\<close>

text \<open>
  Where a goroutine is in \<open>stop\<close>: before the first \<open>exited\<close>, before a signal, before the \<open>exited\<close> that follows a
  refused signal, in a \<open>select\<close> until a deadline, at a return with its deferred \<open>standDown\<close> still to come, before
  the assignment of \<open>firstErr\<close>, and through.
\<close>

datatype stage =
    Checking
  | Signalling signal
  | Refused signal errno
  | Waiting signal int
  | Returning "go_error option"
  | Reporting "go_error option"
  | Through "go_error option"

fun refused_error :: "signal \<Rightarrow> string \<Rightarrow> errno \<Rightarrow> go_error" where
  "refused_error SIGTERM name e = signal_error name e"
| "refused_error SIGKILL name e = kill_error name e"

fun after_timeout :: "signal \<Rightarrow> process \<Rightarrow> stage" where
  "after_timeout SIGTERM p = Signalling SIGKILL"
| "after_timeout SIGKILL p = Returning (Some (survived_error (p_name p)))"

text \<open>A \<open>select\<close> both of whose cases are ready takes either.\<close>

inductive goes :: "host \<Rightarrow> int \<Rightarrow> process \<Rightarrow> stage \<Rightarrow> world \<Rightarrow> stage \<Rightarrow> world \<Rightarrow> bool" for h timeout p where
  goes_gone: "exited p w \<Longrightarrow> goes h timeout p Checking w (Returning None) w"
| goes_there: "\<not> exited p w \<Longrightarrow> goes h timeout p Checking w (Signalling SIGTERM) w"
| goes_signalled: "signalGroup h (p_pid p) sig w = (Inr u, w') \<Longrightarrow>
    goes h timeout p (Signalling sig) w (Waiting sig (now w + timeout)) w'"
| goes_refused: "signalGroup h (p_pid p) sig w = (Inl e, w') \<Longrightarrow> goes h timeout p (Signalling sig) w (Refused sig e) w'"
| goes_late: "exited p w \<Longrightarrow> goes h timeout p (Refused sig e) w (Waiting sig (now w + timeout)) w"
| goes_failed: "\<not> exited p w \<Longrightarrow>
    goes h timeout p (Refused sig e) w (Returning (Some (refused_error sig (p_name p) e))) w"
| goes_done: "exited p w \<Longrightarrow> goes h timeout p (Waiting sig d) w (Returning None) w"
| goes_timeout: "d \<le> now w \<Longrightarrow> goes h timeout p (Waiting sig d) w (after_timeout sig p) w"
| goes_stood_down: "goes h timeout p (Returning r) w (Reporting r) (standDown p w)"

subsection \<open>All of them, and the clock\<close>

type_synonym stopping = "(process \<Rightarrow> stage) \<times> go_error list \<times> world"

text \<open>
  The errors are those reported so far; the first is what \<open>firstErr\<close> has. Time passes while somebody waits, but
  not beyond a deadline that is waited for, and not while a goroutine is about to call the kernel.
\<close>

definition waiting :: "stage \<Rightarrow> bool" where
  "waiting s \<longleftrightarrow> (case s of Waiting _ _ \<Rightarrow> True | _ \<Rightarrow> False)"

lemma waiting_iff: "waiting s \<longleftrightarrow> (\<exists>sig d. s = Waiting sig d)"
  by (cases s) (simp_all add: waiting_def)

fun may_pass :: "int \<Rightarrow> stage \<Rightarrow> bool" where
  "may_pass t (Waiting _ d) = (t \<le> d)"
| "may_pass t (Returning _) = True"
| "may_pass t (Reporting _) = True"
| "may_pass t (Through _) = True"
| "may_pass t _ = False"

inductive turns :: "host \<Rightarrow> int \<Rightarrow> process list \<Rightarrow> stopping \<Rightarrow> stopping \<Rightarrow> bool" for h timeout ps where
  turns_goes: "p \<in> set ps \<Longrightarrow> goes h timeout p (ss p) w s' w' \<Longrightarrow> turns h timeout ps (ss, es, w) (ss(p := s'), es, w')"
| turns_report: "p \<in> set ps \<Longrightarrow> ss p = Reporting r \<Longrightarrow>
    turns h timeout ps (ss, es, w) (ss(p := Through r), es @ (case r of None \<Rightarrow> [] | Some e \<Rightarrow> [e]), w)"
| turns_clock: "\<exists>p \<in> set ps. waiting (ss p) \<Longrightarrow> \<forall>p \<in> set ps. may_pass t (ss p) \<Longrightarrow> now w \<le> t \<Longrightarrow> advance t w \<noteq> w \<Longrightarrow>
    turns h timeout ps (ss, es, w) (ss, es, advance t w)"

abbreviation runs_to :: "host \<Rightarrow> int \<Rightarrow> process list \<Rightarrow> stopping \<Rightarrow> stopping \<Rightarrow> bool" where
  "runs_to h timeout ps \<equiv> (turns h timeout ps)\<^sup>*\<^sup>*"

definition setting_out :: "world \<Rightarrow> stopping" where
  "setting_out w = (\<lambda>_. Checking, [], w)"

subsection \<open>What every run has in common\<close>

lemma goes_world:
  assumes "goes h timeout p s w s' w'"
  shows "ending w w' \<and> now w' = now w \<and> (pipes w' = pipes w \<or> w' = standDown p w)"
  using assms
proof (cases rule: goes.cases)
  case (goes_signalled sig u)
  then show ?thesis
    using ending_signalGroup [of w h "p_pid p" sig] signalGroup_now [of h "p_pid p" sig w] signalGroup_world [of h "p_pid p" sig w]
    by auto
next
  case (goes_refused sig e)
  then show ?thesis
    using ending_signalGroup [of w h "p_pid p" sig] signalGroup_now [of h "p_pid p" sig w] signalGroup_world [of h "p_pid p" sig w]
    by auto
qed (auto simp: ending.frame_refl ending_standDown)

text \<open>By when a goroutine leaves its stage, if it set out at \<open>t0\<close> and waits for \<open>m\<close> at most.\<close>

fun latest :: "int \<Rightarrow> int \<Rightarrow> stage \<Rightarrow> int" where
  "latest t0 m Checking = t0"
| "latest t0 m (Signalling SIGTERM) = t0"
| "latest t0 m (Refused SIGTERM _) = t0"
| "latest t0 m (Waiting SIGTERM _) = t0 + m"
| "latest t0 m (Signalling SIGKILL) = t0 + m"
| "latest t0 m (Refused SIGKILL _) = t0 + m"
| "latest t0 m _ = t0 + 2 * m"

text \<open>What is so of a goroutine in a stage.\<close>

definition stage_ok :: "int \<Rightarrow> int \<Rightarrow> process \<Rightarrow> stage \<Rightarrow> world \<Rightarrow> bool" where
  "stage_ok t0 m p s w \<longleftrightarrow>
    now w \<le> latest t0 m s \<and>
    (case s of
      Waiting _ d \<Rightarrow> d \<le> latest t0 m s
    | Returning r \<Rightarrow> r = None \<longrightarrow> exited p w
    | Reporting r \<Rightarrow> (r = None \<longrightarrow> exited p w) \<and> stood_down p w
    | Through r \<Rightarrow> (r = None \<longrightarrow> exited p w) \<and> stood_down p w
    | _ \<Rightarrow> True)"

lemma stage_ok_goes:
  assumes "goes h timeout p s w s' w'" "stage_ok t0 (max 0 timeout) p s w"
  shows "stage_ok t0 (max 0 timeout) p s' w'"
  using assms(1)
proof (cases rule: goes.cases)
  case (goes_signalled sig u)
  then have "now w' = now w" using goes_world [OF assms(1)] by simp
  with goes_signalled assms(2) show ?thesis by (cases sig) (auto simp: stage_ok_def)
next
  case (goes_refused sig e)
  then have "now w' = now w" using goes_world [OF assms(1)] by simp
  with goes_refused assms(2) show ?thesis by (cases sig) (auto simp: stage_ok_def)
next
  case (goes_late sig e)
  with assms(2) show ?thesis by (cases sig) (auto simp: stage_ok_def)
next
  case (goes_failed sig e)
  with assms(2) show ?thesis by (cases sig) (auto simp: stage_ok_def)
next
  case (goes_done sig d)
  with assms(2) show ?thesis by (cases sig) (auto simp: stage_ok_def)
next
  case (goes_timeout d sig)
  with assms(2) show ?thesis by (cases sig) (auto simp: stage_ok_def)
next
  case (goes_stood_down r)
  with assms(2) exited_ending [OF ending_standDown [of w p]] stood_down_standDown [of p w] goes_world [OF assms(1)]
  show ?thesis by (auto simp: stage_ok_def)
qed (use assms(2) in \<open>auto simp: stage_ok_def\<close>)

text \<open>A stage is not disturbed by what the others do.\<close>

lemma stage_ok_other:
  assumes "stage_ok t0 m p s w" "ending w w'" "now w' \<le> latest t0 m s" "stood_down p w \<Longrightarrow> stood_down p w'"
  shows "stage_ok t0 m p s w'"
  using assms exited_ending [OF assms(2), of p] by (auto simp: stage_ok_def split: stage.splits)

lemma goes_stood_down_other:
  assumes "goes h timeout p s w s' w'" "stood_down q w"
  shows "stood_down q w'"
proof (cases "w' = standDown p w")
  case True
  with assms(2) stood_down_keeps show ?thesis by simp
next
  case False
  with goes_world [OF assms(1)] have "pipes w' = pipes w" by blast
  with assms(2) show ?thesis by (simp add: stood_down_def split: option.splits)
qed

lemma after_timeout_not_through [simp]: "after_timeout sig p \<noteq> Through r" "Through r \<noteq> after_timeout sig p"
  by (cases sig; simp)+

lemma goes_not_through:
  assumes "goes h timeout p s w s' w'"
  shows "s \<noteq> Through r" "s' \<noteq> Through r"
  using assms by (auto elim!: goes.cases)

definition run_ok :: "int \<Rightarrow> world \<Rightarrow> process list \<Rightarrow> stopping \<Rightarrow> bool" where
  "run_ok m w0 ps c \<longleftrightarrow>
    (case c of (ss, es, w) \<Rightarrow>
      ending w0 w \<and> now w0 \<le> now w \<and> now w \<le> now w0 + 2 * m \<and> (\<forall>p \<in> set ps. stage_ok (now w0) m p (ss p) w) \<and>
      (\<forall>e. e \<in> set es \<longleftrightarrow> (\<exists>p \<in> set ps. ss p = Through (Some e))))"

lemma may_pass_latest:
  "may_pass t s \<Longrightarrow> stage_ok t0 m p s w \<Longrightarrow> t \<le> t0 + 2 * m \<Longrightarrow> t \<le> latest t0 m s"
  by (cases s) (auto simp: stage_ok_def)

lemma ex_stage_upd:
  assumes "p \<in> S" "ss p \<noteq> x"
  shows "(\<exists>q \<in> S. (ss(p := y)) q = x) \<longleftrightarrow> y = x \<or> (\<exists>q \<in> S. ss q = x)"
proof
  assume "\<exists>q \<in> S. (ss(p := y)) q = x"
  then show "y = x \<or> (\<exists>q \<in> S. ss q = x)" by (auto split: if_splits)
next
  assume "y = x \<or> (\<exists>q \<in> S. ss q = x)"
  with assms show "\<exists>q \<in> S. (ss(p := y)) q = x" by (metis fun_upd_apply)
qed

lemma run_ok_turns:
  assumes "turns h timeout ps c c'" "run_ok (max 0 timeout) w0 ps c"
  shows "run_ok (max 0 timeout) w0 ps c'"
  using assms(1)
proof (cases rule: turns.cases)
  case (turns_goes p ss w s' w' es)
  note g = goes_world [OF turns_goes(4)]
  have "stage_ok (now w0) (max 0 timeout) q ((ss(p := s')) q) w'" if q: "q \<in> set ps" for q
  proof (cases "q = p")
    case True
    with stage_ok_goes [OF turns_goes(4)] assms(2) turns_goes q show ?thesis by (auto simp: run_ok_def)
  next
    case False
    have "stage_ok (now w0) (max 0 timeout) q (ss q) w" using assms(2) turns_goes q by (simp add: run_ok_def)
    then have "stage_ok (now w0) (max 0 timeout) q (ss q) w'"
      by (rule stage_ok_other) (use g goes_stood_down_other [OF turns_goes(4)] \<open>stage_ok _ _ q (ss q) w\<close> in \<open>auto simp: stage_ok_def\<close>)
    with False show ?thesis by simp
  qed
  moreover have "s' \<noteq> Through r" "ss p \<noteq> Through r" for r
    using goes_not_through [OF turns_goes(4)] by simp_all
  then have "(\<exists>q \<in> set ps. (ss(p := s')) q = Through (Some e)) \<longleftrightarrow> (\<exists>q \<in> set ps. ss q = Through (Some e))" for e
    by (metis fun_upd_apply)
  ultimately show ?thesis
    using assms(2) turns_goes(1,2) g ending.frame_trans [of w0 w w'] by (simp add: run_ok_def)
next
  case (turns_report p ss r es w)
  have "stage_ok (now w0) (max 0 timeout) q ((ss(p := Through r)) q) w" if "q \<in> set ps" for q
    using assms(2) turns_report that by (cases "q = p") (auto simp: run_ok_def stage_ok_def)
  moreover have "(\<exists>q \<in> set ps. (ss(p := Through r)) q = Through (Some e)) \<longleftrightarrow>
      r = Some e \<or> (\<exists>q \<in> set ps. ss q = Through (Some e))" for e
    using ex_stage_upd [OF turns_report(3), of ss "Through (Some e)" "Through r"] turns_report(4) by simp
  ultimately show ?thesis using assms(2) turns_report(1,2) by (auto simp: run_ok_def split: option.splits)
next
  case (turns_clock ss t w es)
  have ok: "stage_ok (now w0) (max 0 timeout) q (ss q) w" if "q \<in> set ps" for q
    using assms(2) turns_clock(1) that by (simp add: run_ok_def)
  from turns_clock(3) obtain p sig d where p: "p \<in> set ps" "ss p = Waiting sig d"
    using waiting_iff by blast
  then have t: "t \<le> now w0 + 2 * max 0 timeout"
    using ok [OF p(1)] turns_clock(4) by (cases sig) (fastforce simp: stage_ok_def)+
  have "stage_ok (now w0) (max 0 timeout) q (ss q) (advance t w)" if q: "q \<in> set ps" for q
  proof (rule stage_ok_other [OF ok [OF q] ending_advance])
    show "now (advance t w) \<le> latest (now w0) (max 0 timeout) (ss q)"
      using may_pass_latest [OF _ ok [OF q] t] turns_clock(4,5) q by simp
    show "stood_down q w \<Longrightarrow> stood_down q (advance t w)" by (simp add: stood_down_def advance_def split: option.splits)
  qed
  moreover have "ending w0 (advance t w)"
    using ending.frame_trans [OF _ ending_advance] assms(2) turns_clock(1) by (simp add: run_ok_def)
  ultimately show ?thesis using assms(2) turns_clock(1,2,5) t by (simp add: run_ok_def)
qed

lemma run_ok_runs:
  assumes "runs_to h timeout ps (setting_out w) c"
  shows "run_ok (max 0 timeout) w ps c"
  using assms
proof (induction rule: rtranclp_induct)
  case base
  show ?case by (simp add: run_ok_def setting_out_def stage_ok_def ending.frame_refl)
next
  case (step c c')
  then show ?case using run_ok_turns by blast
qed

subsection \<open>Every run ends\<close>

fun calls_left :: "stage \<Rightarrow> nat" where
  "calls_left Checking = 9"
| "calls_left (Signalling SIGTERM) = 8"
| "calls_left (Refused SIGTERM _) = 7"
| "calls_left (Waiting SIGTERM _) = 6"
| "calls_left (Signalling SIGKILL) = 5"
| "calls_left (Refused SIGKILL _) = 4"
| "calls_left (Waiting SIGKILL _) = 3"
| "calls_left (Returning _) = 2"
| "calls_left (Reporting _) = 1"
| "calls_left (Through _) = 0"

definition survivors :: "world \<Rightarrow> nat" where
  "survivors w = length (filter alive (procs w))"

definition potential :: "int \<Rightarrow> process list \<Rightarrow> stopping \<Rightarrow> nat" where
  "potential bound ps c =
    (case c of (ss, es, w) \<Rightarrow> (\<Sum>p \<in> set ps. calls_left (ss p)) + survivors w + nat (bound - now w))"

lemma calls_left_goes:
  assumes "goes h timeout p s w s' w'"
  shows "calls_left s' < calls_left s"
  using assms
proof (cases rule: goes.cases)
  case (goes_signalled sig u)
  then show ?thesis by (cases sig) simp_all
next
  case (goes_refused sig e)
  then show ?thesis by (cases sig) simp_all
next
  case (goes_late sig e)
  then show ?thesis by (cases sig) simp_all
next
  case (goes_failed sig e)
  then show ?thesis by (cases sig) simp_all
next
  case (goes_done sig d)
  then show ?thesis by (cases sig) simp_all
next
  case (goes_timeout d sig)
  then show ?thesis by (cases sig) simp_all
qed simp_all

lemma sum_stage_upd:
  assumes "p \<in> set ps" "calls_left s' < calls_left (ss p)"
  shows "(\<Sum>q \<in> set ps. calls_left ((ss(p := s')) q)) < (\<Sum>q \<in> set ps. calls_left (ss q))"
  by (rule sum_strict_mono_ex1) (use assms in auto)

lemma survivors_ending:
  assumes "ending w w'"
  shows "survivors w' \<le> survivors w"
proof -
  have "list_all2 same_identity (procs w) (procs w')" using assms by (simp add: ending_def steady_def)
  then show ?thesis
    unfolding survivors_def by (induction rule: list_all2_induct) (auto simp: same_identity_def)
qed

lemma survivors_expire:
  assumes "map (expire t) qs \<noteq> qs"
  shows "length (filter alive (map (expire t) qs)) < length (filter alive qs)"
  using assms
proof (induction qs)
  case (Cons q qs)
  have le: "length (filter alive (map (expire t) rs)) \<le> length (filter alive rs)" for rs
    by (induction rs) (auto simp: expire_def split: option.split)
  have "alive (expire t q) \<Longrightarrow> alive q" "expire t q \<noteq> q \<Longrightarrow> alive q \<and> \<not> alive (expire t q)"
    by (cases q; auto simp: expire_def split: option.splits if_splits)+
  with Cons le [of qs] show ?case by (cases "expire t q = q") (auto simp: le_imp_less_Suc)
qed simp

lemma potential_turns:
  assumes "turns h timeout ps c c'" "run_ok (max 0 timeout) w0 ps c"
  shows "potential (now w0 + 2 * max 0 timeout) ps c' < potential (now w0 + 2 * max 0 timeout) ps c"
  using assms(1)
proof (cases rule: turns.cases)
  case (turns_goes p ss w s' w' es)
  with sum_stage_upd [of p ps s' ss] calls_left_goes [OF turns_goes(4)] goes_world [OF turns_goes(4)]
    survivors_ending [of w w']
  show ?thesis by (simp add: potential_def)
next
  case (turns_report p ss r es w)
  with sum_stage_upd [of p ps "Through r" ss] show ?thesis by (simp add: potential_def)
next
  case (turns_clock ss t w es)
  have bound: "now (advance t w) \<le> now w0 + 2 * max 0 timeout"
    using run_ok_turns [OF assms] turns_clock(2) by (simp add: run_ok_def)
  have le: "survivors (advance t w) \<le> survivors w" using survivors_ending [OF ending_advance] .
  show ?thesis
  proof (cases "t = now w")
    case True
    then have "advance t w = w\<lparr>procs := map (expire t) (procs w)\<rparr>" by (simp add: advance_def)
    with turns_clock(6) have "map (expire t) (procs w) \<noteq> procs w" by auto
    from survivors_expire [OF this] have "survivors (advance t w) < survivors w"
      using True by (simp add: survivors_def advance_def)
    with True turns_clock(1,2) show ?thesis by (simp add: potential_def)
  next
    case False
    with le bound turns_clock(1,2,5) show ?thesis by (simp add: potential_def)
  qed
qed

text \<open>While somebody is not through, something can happen.\<close>

lemma goes_on:
  assumes "\<not> waiting s" "\<not> (\<exists>r. s = Reporting r)" "\<not> (\<exists>r. s = Through r)"
  obtains s' w' where "goes h timeout p s w s' w'"
proof (cases s)
  case Checking
  then show thesis using that goes_gone goes_there by (cases "exited p w") blast+
next
  case (Signalling sig)
  obtain r w' where "signalGroup h (p_pid p) sig w = (r, w')" by fastforce
  then show thesis using that goes_signalled goes_refused Signalling by (cases r) blast+
next
  case (Refused sig e)
  then show thesis using that goes_late goes_failed by (cases "exited p w") blast+
next
  case (Returning r)
  then show thesis using that goes_stood_down by blast
qed (use assms in \<open>auto simp: waiting_iff\<close>)

lemma turns_on:
  assumes "p \<in> set ps" "\<not> (\<exists>r. ss p = Through r)"
  shows "\<exists>c'. turns h timeout ps (ss, es, w) c'"
proof (cases "\<exists>p \<in> set ps. \<not> waiting (ss p) \<and> \<not> (\<exists>r. ss p = Through r)")
  case True
  then obtain q where q: "q \<in> set ps" "\<not> waiting (ss q)" "\<not> (\<exists>r. ss q = Through r)" by blast
  show ?thesis
  proof (cases "\<exists>r. ss q = Reporting r")
    case True
    with turns_report [OF q(1)] show ?thesis by blast
  next
    case False
    from goes_on [OF q(2) False q(3)] turns_goes [OF q(1)] show ?thesis by metis
  qed
next
  case False
  then have all: "\<And>q. q \<in> set ps \<Longrightarrow> waiting (ss q) \<or> (\<exists>r. ss q = Through r)" by blast
  let ?ds = "{d. \<exists>q \<in> set ps. \<exists>sig. ss q = Waiting sig d}"
  have "?ds = (\<lambda>q. case ss q of Waiting sig d \<Rightarrow> d) ` {q \<in> set ps. waiting (ss q)}"
    by (force simp: waiting_iff)
  then have fin: "finite ?ds" by simp
  obtain sig0 d0 where "ss p = Waiting sig0 d0" using all [OF assms(1)] assms(2) waiting_iff by blast
  with assms(1) have ne: "?ds \<noteq> {}" by blast
  obtain m where m: "m \<in> ?ds" "\<And>d. d \<in> ?ds \<Longrightarrow> m \<le> d" using Min_in [OF fin ne] Min_le [OF fin] by blast
  then have le: "m \<le> d" if "q \<in> set ps" "ss q = Waiting sig d" for q sig d using that by blast
  from m(1) obtain q sig where q: "q \<in> set ps" "ss q = Waiting sig m" by blast
  show ?thesis
  proof (cases "m \<le> now w")
    case True
    then have "goes h timeout q (ss q) w (after_timeout sig q) w" unfolding q(2) by (rule goes_timeout)
    with turns_goes [OF q(1)] show ?thesis by blast
  next
    case later: False
    have "may_pass m (ss q')" if "q' \<in> set ps" for q'
      using all [OF that] le [OF that] by (auto simp: waiting_iff)
    moreover have "now (advance m w) \<noteq> now w" using later by simp
    then have "advance m w \<noteq> w" by metis
    moreover have "waiting (ss q)" using q(2) waiting_iff by blast
    ultimately have "turns h timeout ps (ss, es, w) (ss, es, advance m w)"
      using q(1) later by (intro turns_clock) auto
    then show ?thesis by blast
  qed
qed

subsection \<open>The lockstep of \<open>stop_all\<close> is a run\<close>

text \<open>Steps of some goroutines that leave the world alone, one after the other.\<close>

lemma run_block:
  assumes "distinct qs" "set qs \<subseteq> set ps" "\<And>q. q \<in> set qs \<Longrightarrow> goes h timeout q (ss q) w (f q) w"
  shows "runs_to h timeout ps (ss, es, w) (override_on ss f (set qs), es, w)"
  using assms
proof (induction qs arbitrary: ss)
  case Nil
  then show ?case by simp
next
  case (Cons q qs)
  have "turns h timeout ps (ss, es, w) (ss(q := f q), es, w)"
    using Cons.prems by (intro turns_goes) simp_all
  moreover have "runs_to h timeout ps (ss(q := f q), es, w) (override_on (ss(q := f q)) f (set qs), es, w)"
    by (rule Cons.IH) (use Cons.prems in auto)
  moreover have "override_on (ss(q := f q)) f (set qs) = override_on ss f (set (q # qs))"
    by (auto simp: override_on_def fun_eq_iff)
  ultimately show ?case using converse_rtranclp_into_rtranclp by metis
qed

text \<open>The row of signals, in which each goroutine makes its call, and looks at \<open>exited\<close> when it is refused.\<close>

lemma run_signal:
  assumes "stop_signal h sig (refused_error sig) q w = (r, w')" "q \<in> set ps" "ss q = Signalling sig"
  shows "runs_to h timeout ps (ss, es, w)
    (ss(q := (case r of None \<Rightarrow> Waiting sig (now w + timeout) | Some e \<Rightarrow> Returning (Some e))), es, w')"
proof -
  obtain s w1 where s: "signalGroup h (p_pid q) sig w = (s, w1)" by fastforce
  have now: "now w1 = now w" using signalGroup_now [of h "p_pid q" sig w] s by simp
  show ?thesis
  proof (cases s)
    case (Inr u)
    have "turns h timeout ps (ss, es, w) (ss(q := Waiting sig (now w + timeout)), es, w1)"
      using assms(2) by (rule turns_goes) (use s Inr assms(3) in \<open>simp add: goes_signalled\<close>)
    with assms(1) s Inr show ?thesis by (auto simp: stop_signal_def)
  next
    case (Inl e)
    let ?ss = "ss(q := Refused sig e)"
    have 1: "turns h timeout ps (ss, es, w) (?ss, es, w1)"
      using assms(2) by (rule turns_goes) (use s Inl assms(3) in \<open>simp add: goes_refused\<close>)
    have 2: "turns h timeout ps (?ss, es, w1)
        (?ss(q := (if exited q w1 then Waiting sig (now w1 + timeout) else Returning (Some (refused_error sig (p_name q) e)))), es, w1)"
      using assms(2) by (rule turns_goes) (simp add: goes_late goes_failed)
    have "runs_to h timeout ps (ss, es, w)
        (ss(q := (if exited q w1 then Waiting sig (now w + timeout) else Returning (Some (refused_error sig (p_name q) e)))), es, w1)"
      using rtranclp.rtrancl_into_rtrancl [OF r_into_rtranclp [of "turns h timeout ps", OF 1] 2] by (simp only: now fun_upd_upd)
    with assms(1) s Inl show ?thesis by (auto simp: stop_signal_def split: if_splits)
  qed
qed

lemma run_signals:
  assumes "stop_signals h sig (refused_error sig) qs w = ((rs, es'), w')" "distinct qs" "set qs \<subseteq> set ps"
    and "\<And>q. q \<in> set qs \<Longrightarrow> ss q = Signalling sig"
  shows "\<exists>e. runs_to h timeout ps (ss, es, w)
      (override_on ss (\<lambda>q. if q \<in> set rs then Waiting sig (now w + timeout) else Returning (Some (e q))) (set qs), es, w') \<and>
    es' = map e (filter (\<lambda>q. q \<notin> set rs) qs) \<and> set rs \<subseteq> set qs \<and> distinct rs \<and> now w' = now w"
  using assms
proof (induction qs arbitrary: ss w rs es' w')
  case Nil
  then show ?case by simp
next
  case (Cons q qs)
  obtain r w1 where 1: "stop_signal h sig (refused_error sig) q w = (r, w1)" by fastforce
  obtain rs1 es1 w2 where 2: "stop_signals h sig (refused_error sig) qs w1 = ((rs1, es1), w2)" by (metis prod.exhaust)
  define s where "s = (case r of None \<Rightarrow> Waiting sig (now w + timeout) | Some e \<Rightarrow> Returning (Some e))"
  have first: "runs_to h timeout ps (ss, es, w) (ss(q := s), es, w1)"
    unfolding s_def by (rule run_signal [OF 1]) (use Cons.prems in simp_all)
  have now: "now w1 = now w"
    using 1 signalGroup_now [of h "p_pid q" sig w] by (auto simp: stop_signal_def split: prod.splits sum.splits)
  have out: "rs = (if r = None then q # rs1 else rs1)" "es' = (case r of None \<Rightarrow> es1 | Some e \<Rightarrow> e # es1)" "w' = w2"
    using Cons.prems(1) 1 2 by (auto split: option.splits)
  have q: "q \<notin> set qs" "distinct qs" using Cons.prems(2) by simp_all
  have stage: "(ss(q := s)) p = Signalling sig" if "p \<in> set qs" for p using Cons.prems(4) [of p] that q(1) by auto
  have sub: "set qs \<subseteq> set ps" using Cons.prems(3) by simp
  obtain e where
    rest: "runs_to h timeout ps (ss(q := s), es, w1)
      (override_on (ss(q := s)) (\<lambda>q. if q \<in> set rs1 then Waiting sig (now w + timeout) else Returning (Some (e q))) (set qs), es, w2)"
    and e: "es1 = map e (filter (\<lambda>q. q \<notin> set rs1) qs)" "set rs1 \<subseteq> set qs" "distinct rs1" "now w2 = now w"
    using Cons.IH [where ss = "ss(q := s)", OF 2 q(2) sub stage] unfolding now by blast
  have q': "q \<notin> set rs1" using e(2) q(1) by blast
  let ?e = "e(q := the r)"
  let ?f = "\<lambda>p. if p \<in> set rs then Waiting sig (now w + timeout) else Returning (Some (?e p))"
  have "override_on (ss(q := s)) (\<lambda>q. if q \<in> set rs1 then Waiting sig (now w + timeout) else Returning (Some (e q))) (set qs) =
      override_on ss ?f (set (q # qs))"
    using q(1) q' by (cases r) (auto simp: override_on_def fun_eq_iff out(1) s_def)
  with first rest have "runs_to h timeout ps (ss, es, w) (override_on ss ?f (set (q # qs)), es, w')"
    by (simp add: out(3))
  moreover have "map e (filter (\<lambda>p. p \<notin> set rs1) qs) = map ?e (filter (\<lambda>p. p \<notin> set rs1) qs)"
    using q(1) by (intro map_cong refl) auto
  then have "es' = map ?e (filter (\<lambda>p. p \<notin> set rs) (q # qs))"
    using q(1) q' e(1) by (cases r) (auto simp: out(1,2) intro!: arg_cong [of _ _ "map _"] filter_cong)
  moreover have "set rs \<subseteq> set (q # qs) \<and> distinct rs" using e(2,3) q' by (auto simp: out(1))
  ultimately show ?case using e(4) out(3) by blast
qed

text \<open>The wait: the clock moves on once, and those who have not exited by then have waited to the end.\<close>

lemma wait_all_late:
  assumes "wait_all qs t w = (rs, w')" "rs \<noteq> []" "0 \<le> t"
  shows "now w + t \<le> now w'"
proof (rule ccontr)
  let ?hs = "filter (\<lambda>q. list_ex (\<lambda>p. waited_for p q) qs) (procs w)"
  assume early: "\<not> now w + t \<le> now w'"
  have w': "w' = (if ?hs = [] then w
      else case last_exit ?hs of Some e \<Rightarrow> advance (min e (now w + t)) w | None \<Rightarrow> advance (now w + t) w)"
    and rs: "rs = filter (\<lambda>p. \<not> exited p w') qs"
    using assms(1) by (auto simp: wait_all_def Let_def)
  have gone: "exited p w'" if p: "p \<in> set qs" for p
  proof (cases "?hs = []")
    case True
    with p w' show ?thesis by (auto simp: exited_iff filter_empty_conv list_ex_iff)
  next
    case False
    then obtain e where e: "last_exit ?hs = Some e" "e < now w + t" and adv: "w' = advance e w"
      using early w' by (auto split: option.splits if_splits simp: min_def)
    show ?thesis
      unfolding exited_iff
    proof
      fix q' assume "q' \<in> set (procs w')"
      then obtain q where q: "q \<in> set (procs w)" "q' = expire (max (now w) e) q" by (auto simp: adv advance_def)
      show "\<not> waited_for p q'"
      proof
        assume a: "waited_for p q'"
        then have "waited_for p q" unfolding q(2) by (rule waited_for_expire)
        with p q(1) have "q \<in> set ?hs" by (auto simp: list_ex_iff)
        from last_exit_all [OF e(1) this] have "\<not> alive q'"
          by (auto simp: q(2) expire_def max.coboundedI2)
        with a show False by (simp add: waited_for_def)
      qed
    qed
  qed
  with rs assms(2) show False by (simp add: filter_empty_conv)
qed

lemma run_wait:
  assumes "wait_all qs timeout w = (rs, w')" "0 \<le> timeout" "distinct qs" "set qs \<subseteq> set ps"
    and "\<And>q. q \<in> set qs \<Longrightarrow> ss q = Waiting sig (now w + timeout)"
    and "\<And>p. p \<in> set ps \<Longrightarrow> p \<notin> set qs \<Longrightarrow> \<exists>r. ss p = Returning r"
  shows "runs_to h timeout ps (ss, es, w)
      (override_on ss (\<lambda>q. if q \<in> set rs then after_timeout sig q else Returning None) (set qs), es, w')"
proof -
  let ?hs = "filter (\<lambda>q. list_ex (\<lambda>p. waited_for p q) qs) (procs w)"
  have w': "w' = (if ?hs = [] then w
      else case last_exit ?hs of Some e \<Rightarrow> advance (min e (now w + timeout)) w | None \<Rightarrow> advance (now w + timeout) w)"
    and rs: "rs = filter (\<lambda>p. \<not> exited p w') qs"
    using assms(1) by (auto simp: wait_all_def Let_def)
  have clock: "runs_to h timeout ps (ss, es, w) (ss, es, w')"
  proof (cases "w' = w")
    case False
    then have "?hs \<noteq> []" using w' by auto
    then obtain q0 where q0: "q0 \<in> set qs" by (auto simp: filter_empty_conv list_ex_iff)
    obtain t where t: "t \<le> now w + timeout" "w' = advance t w"
      using w' False by (auto split: option.splits if_splits intro: min.cobounded2)
    let ?t = "max (now w) t"
    have adv: "w' = advance ?t w" using t(2) by (simp add: advance_def)
    have "may_pass ?t (ss p)" if "p \<in> set ps" for p
      using assms(2) assms(5) [of p] assms(6) [OF that] t(1) by (cases "p \<in> set qs") auto
    moreover have "waiting (ss q0)" "q0 \<in> set ps" using assms(4,5) q0 by (auto simp: waiting_iff)
    ultimately have "turns h timeout ps (ss, es, w) (ss, es, advance ?t w)"
      using adv False by (intro turns_clock) auto
    with adv show ?thesis by simp
  qed simp
  have "runs_to h timeout ps (ss, es, w')
      (override_on ss (\<lambda>q. if q \<in> set rs then after_timeout sig q else Returning None) (set qs), es, w')"
  proof (rule run_block [OF assms(3,4)])
    fix q assume q: "q \<in> set qs"
    show "goes h timeout q (ss q) w' (if q \<in> set rs then after_timeout sig q else Returning None) w'"
    proof (cases "q \<in> set rs")
      case True
      then have "rs \<noteq> []" by auto
      from wait_all_late [OF assms(1) this assms(2)] True show ?thesis
        using assms(5) [OF q] by (simp add: goes_timeout)
    next
      case False
      with rs q have "exited q w'" by simp
      with False assms(5) [OF q] show ?thesis by (simp add: goes_done)
    qed
  qed
  with clock show ?thesis by simp
qed

text \<open>A round: a signal to each, and a wait for all. \<open>us\<close> are those who are there still.\<close>

lemma run_round:
  assumes "stop_signals h sig (refused_error sig) qs w = ((rs, es'), w1)" "wait_all rs timeout w1 = (us, w2)"
    and "0 \<le> timeout" "distinct qs" "set qs \<subseteq> set ps" "\<And>q. q \<in> set qs \<Longrightarrow> ss q = Signalling sig"
    and "\<And>p. p \<in> set ps \<Longrightarrow> p \<notin> set qs \<Longrightarrow> \<exists>r. ss p = Returning r"
  obtains e ss' where "runs_to h timeout ps (ss, es, w) (ss', es, w2)" "es' = map e (filter (\<lambda>q. q \<notin> set rs) qs)"
    "set us \<subseteq> set rs" "set rs \<subseteq> set qs" "distinct us"
    "\<And>p. ss' p = (if p \<in> set us then after_timeout sig p else if p \<in> set rs then Returning None
      else if p \<in> set qs then Returning (Some (e p)) else ss p)"
proof -
  obtain e where 1: "runs_to h timeout ps (ss, es, w)
      (override_on ss (\<lambda>q. if q \<in> set rs then Waiting sig (now w + timeout) else Returning (Some (e q))) (set qs), es, w1)"
    and e: "es' = map e (filter (\<lambda>q. q \<notin> set rs) qs)" "set rs \<subseteq> set qs" "distinct rs" "now w1 = now w"
    using run_signals [where ss = ss, OF assms(1,4-6)] by blast
  let ?ss = "override_on ss (\<lambda>q. if q \<in> set rs then Waiting sig (now w + timeout) else Returning (Some (e q))) (set qs)"
  have us: "us = filter (\<lambda>p. \<not> exited p w2) rs" using wait_all_rest [of rs timeout w1] assms(2) by simp
  have "runs_to h timeout ps (?ss, es, w1)
      (override_on ?ss (\<lambda>q. if q \<in> set us then after_timeout sig q else Returning None) (set rs), es, w2)"
    by (rule run_wait [OF assms(2,3) e(3)]) (use e(2,4) assms(5,7) in \<open>auto simp: override_on_def\<close>)
  with 1 have "runs_to h timeout ps (ss, es, w)
      (override_on ?ss (\<lambda>q. if q \<in> set us then after_timeout sig q else Returning None) (set rs), es, w2)"
    by (rule rtranclp_trans)
  then show thesis
    by (rule that) (use e us in \<open>auto simp: override_on_def\<close>)
qed

text \<open>The ends of all the goroutines, in one order for the watchdogs and another for the errors.\<close>

lemma run_stand_down:
  assumes "distinct qs" "set qs \<subseteq> set ps" "\<And>q. q \<in> set qs \<Longrightarrow> ss q = Returning (r q)"
  shows "runs_to h timeout ps (ss, es, w) (override_on ss (\<lambda>q. Reporting (r q)) (set qs), es, fold standDown qs w)"
  using assms
proof (induction qs arbitrary: ss w)
  case Nil
  then show ?case by simp
next
  case (Cons q qs)
  let ?ss = "ss(q := Reporting (r q))"
  have "turns h timeout ps (ss, es, w) (?ss, es, standDown q w)"
    using Cons.prems by (intro turns_goes) (simp_all add: goes_stood_down)
  moreover have "runs_to h timeout ps (?ss, es, standDown q w)
      (override_on ?ss (\<lambda>q. Reporting (r q)) (set qs), es, fold standDown qs (standDown q w))"
    by (rule Cons.IH) (use Cons.prems in auto)
  moreover have "override_on ?ss (\<lambda>q. Reporting (r q)) (set qs) = override_on ss (\<lambda>q. Reporting (r q)) (set (q # qs))"
    by (auto simp: override_on_def fun_eq_iff)
  ultimately show ?case by (simp add: converse_rtranclp_into_rtranclp)
qed

lemma run_report:
  assumes "distinct qs" "set qs \<subseteq> set ps" "\<And>q. q \<in> set qs \<Longrightarrow> ss q = Reporting (r q)"
  shows "runs_to h timeout ps (ss, es, w) (override_on ss (\<lambda>q. Through (r q)) (set qs), es @ List.map_filter r qs, w)"
  using assms
proof (induction qs arbitrary: ss es)
  case Nil
  then show ?case by (simp add: List.map_filter_simps)
next
  case (Cons q qs)
  let ?ss = "ss(q := Through (r q))" and ?es = "es @ (case r q of None \<Rightarrow> [] | Some e \<Rightarrow> [e])"
  have "turns h timeout ps (ss, es, w) (?ss, ?es, w)"
    using Cons.prems by (intro turns_report) simp_all
  moreover have "runs_to h timeout ps (?ss, ?es, w)
      (override_on ?ss (\<lambda>q. Through (r q)) (set qs), ?es @ List.map_filter r qs, w)"
    by (rule Cons.IH) (use Cons.prems in auto)
  moreover have "override_on ?ss (\<lambda>q. Through (r q)) (set qs) = override_on ss (\<lambda>q. Through (r q)) (set (q # qs))"
    by (auto simp: override_on_def fun_eq_iff)
  moreover have "?es @ List.map_filter r qs = es @ List.map_filter r (q # qs)"
    by (simp add: List.map_filter_simps split: option.split)
  ultimately show ?case by (simp add: converse_rtranclp_into_rtranclp)
qed

lemma run_finish:
  assumes "distinct ps" "\<And>q. q \<in> set ps \<Longrightarrow> ss q = Returning (r q)" "distinct qs" "set qs = set ps"
  shows "\<exists>ss'. runs_to h timeout ps (ss, es, w) (ss', es @ List.map_filter r qs, fold standDown ps w) \<and>
    (\<forall>q \<in> set ps. ss' q = Through (r q))"
proof -
  let ?ss = "override_on ss (\<lambda>q. Reporting (r q)) (set ps)"
  have 1: "runs_to h timeout ps (ss, es, w) (?ss, es, fold standDown ps w)"
    using assms(1,2) by (intro run_stand_down) simp_all
  have 2: "runs_to h timeout ps (?ss, es, fold standDown ps w)
      (override_on ?ss (\<lambda>q. Through (r q)) (set qs), es @ List.map_filter r qs, fold standDown ps w)"
    using assms(3,4) by (intro run_report) simp_all
  from rtranclp_trans [OF 1 2] show ?thesis using assms(4) by auto
qed

text \<open>The whole of \<open>stop_all\<close>.\<close>

lemma map_filter_Some: "(\<And>q. q \<in> set qs \<Longrightarrow> r q = Some (e q)) \<Longrightarrow> List.map_filter r qs = map e qs"
  by (induction qs) (simp_all add: List.map_filter_simps)

lemma map_filter_None: "(\<And>q. q \<in> set qs \<Longrightarrow> r q = None) \<Longrightarrow> List.map_filter r qs = []"
  by (induction qs) (simp_all add: List.map_filter_simps)

lemma stop_all_run:
  assumes "stop_all h ps timeout w = (es, w')" "distinct ps" "0 \<le> timeout"
  shows "\<exists>ss. runs_to h timeout ps (setting_out w) (ss, es, w') \<and> (\<forall>p \<in> set ps. \<exists>r. ss p = Through r)"
  using assms(1)
proof (rule stop_all_stages)
  fix ps1 es1 w1 ps2 w2 ps3 es2 w3 ps4 w4
  let ?live = "filter (\<lambda>p. \<not> exited p w) ps"
  assume 1: "stop_signals h SIGTERM signal_error ?live w = ((ps1, es1), w1)"
    and 2: "wait_all ps1 timeout w1 = (ps2, w2)"
    and 3: "stop_signals h SIGKILL kill_error ps2 w2 = ((ps3, es2), w3)"
    and 4: "wait_all ps3 timeout w3 = (ps4, w4)"
    and out: "es = es1 @ es2 @ map (\<lambda>p. survived_error (p_name p)) ps4" "w' = fold standDown ps w4"
  have err: "signal_error = refused_error SIGTERM" "kill_error = refused_error SIGKILL" by (simp_all add: fun_eq_iff)
  define ss0 where "ss0 = override_on (\<lambda>_. Checking) (\<lambda>p. if exited p w then Returning None else Signalling SIGTERM) (set ps)"
  have r0: "runs_to h timeout ps (setting_out w) (ss0, [], w)"
    unfolding ss0_def setting_out_def using assms(2) by (intro run_block) (simp_all add: goes_gone goes_there)
  obtain e1 ss1 where r1: "runs_to h timeout ps (ss0, [], w) (ss1, [], w2)"
    and e1: "es1 = map e1 (filter (\<lambda>q. q \<notin> set ps1) ?live)" "set ps2 \<subseteq> set ps1" "set ps1 \<subseteq> set ?live" "distinct ps2"
      "\<And>p. ss1 p = (if p \<in> set ps2 then after_timeout SIGTERM p else if p \<in> set ps1 then Returning None
        else if p \<in> set ?live then Returning (Some (e1 p)) else ss0 p)"
    by (rule run_round [OF 1 [unfolded err] 2 assms(3), of ps ss0]) (use assms(2) in \<open>auto simp: ss0_def override_on_def\<close>)
  obtain e2 ss2 where r2: "runs_to h timeout ps (ss1, [], w2) (ss2, [], w4)"
    and e2: "es2 = map e2 (filter (\<lambda>q. q \<notin> set ps3) ps2)" "set ps4 \<subseteq> set ps3" "set ps3 \<subseteq> set ps2" "distinct ps4"
      "\<And>p. ss2 p = (if p \<in> set ps4 then after_timeout SIGKILL p else if p \<in> set ps3 then Returning None
        else if p \<in> set ps2 then Returning (Some (e2 p)) else ss1 p)"
    by (rule run_round [OF 3 [unfolded err] 4 assms(3), of ps ss1])
      (use e1(2-5) in \<open>auto simp: ss0_def override_on_def\<close>)
  define r where "r p = (if p \<in> set ps4 then Some (survived_error (p_name p)) else if p \<in> set ps3 then None
    else if p \<in> set ps2 then Some (e2 p) else if p \<in> set ps1 then None
    else if p \<in> set ?live then Some (e1 p) else None)" for p
  let ?fail1 = "filter (\<lambda>q. q \<notin> set ps1) ?live" and ?fail2 = "filter (\<lambda>q. q \<notin> set ps3) ps2"
  let ?order = "?fail1 @ ?fail2 @ ps4 @ filter (\<lambda>p. r p = None) ps"
  have ss2: "ss2 p = Returning (r p)" if "p \<in> set ps" for p
    using that e1(2) by (auto simp: e2(5) e1(5) r_def ss0_def override_on_def)
  have order: "distinct ?order" "set ?order = set ps"
    using assms(2) e1(2-4) e2(2-4) by (auto simp: r_def split: if_splits)
  have "List.map_filter r ?order = es1 @ es2 @ map (\<lambda>p. survived_error (p_name p)) ps4"
  proof -
    have "List.map_filter r ?fail1 = map e1 ?fail1" using e1(2,3) e2(2,3) by (intro map_filter_Some) (auto simp: r_def)
    moreover have "List.map_filter r ?fail2 = map e2 ?fail2" using e2(2,3) by (intro map_filter_Some) (auto simp: r_def)
    moreover have "List.map_filter r ps4 = map (\<lambda>p. survived_error (p_name p)) ps4" by (intro map_filter_Some) (simp add: r_def)
    moreover have "List.map_filter r (filter (\<lambda>p. r p = None) ps) = []" by (intro map_filter_None) simp
    ultimately show ?thesis by (simp add: e1(1) e2(1) List.map_filter_def)
  qed
  then have es: "[] @ List.map_filter r ?order = es" using out(1) by simp
  obtain ss where fin: "runs_to h timeout ps (ss2, [], w4) (ss, [] @ List.map_filter r ?order, fold standDown ps w4)"
    and ss: "\<forall>q \<in> set ps. ss q = Through (r q)"
    using run_finish [where ss = ss2 and h = h and timeout = timeout and es = "[]" and w = w4, OF assms(2) ss2 order] by blast
  have "runs_to h timeout ps (setting_out w) (ss, es, w')"
    using rtranclp_trans [OF r0 rtranclp_trans [OF r1 rtranclp_trans [OF r2 fin]]] unfolding es out(2) .
  with ss show ?thesis by blast
qed

subsection \<open>Properties\<close>

text \<open>
  C14: the stores are stopped in parallel. At any moment of any interleaving of the goroutines, no file, lock or pipe of
  others has been touched, and no more than twice the timeout has passed, however many stores there are.
  A goroutine that is through has told its watchdog that the shutdown is deliberate; if it reported no error
  its server has exited, and \<open>firstErr\<close> is chosen among the errors of the others.
\<close>

theorem stopping_correct:
  assumes "runs_to h timeout ps (setting_out w) (ss, es, w')"
  shows "ending w w' \<and> now w' \<le> now w + 2 * max 0 timeout \<and>
    (\<forall>p \<in> set ps. case ss p of
        Through r \<Rightarrow> stood_down p w' \<and> (case r of None \<Rightarrow> exited p w' \<and> \<not> is_alive w' (p_pid p) | Some e \<Rightarrow> e \<in> set es)
      | _ \<Rightarrow> True) \<and>
    (\<forall>e \<in> set es. \<exists>p \<in> set ps. ss p = Through (Some e))"
proof -
  have ok: "run_ok (max 0 timeout) w ps (ss, es, w')" by (rule run_ok_runs [OF assms])
  have "stood_down p w' \<and> (case r of None \<Rightarrow> exited p w' \<and> \<not> is_alive w' (p_pid p) | Some e \<Rightarrow> e \<in> set es)"
    if "p \<in> set ps" "ss p = Through r" for p r
  proof -
    have "stage_ok (now w) (max 0 timeout) p (Through r) w'" using ok that by (auto simp: run_ok_def)
    moreover have "e \<in> set es" if "r = Some e" for e
      using ok \<open>p \<in> set ps\<close> \<open>ss p = Through r\<close> that by (auto simp: run_ok_def)
    ultimately show ?thesis using exited_not_alive by (simp add: stage_ok_def split: option.split)
  qed
  with ok show ?thesis by (simp add: run_ok_def split: stage.split)
qed

text \<open>
  C22: stopping always comes to an end. No run goes on for ever, whatever the scheduler does; and as long as a
  goroutine is not through, there is something that can happen, so that \<open>stopping.Wait()\<close> returns.
\<close>

theorem stopping_ends:
  assumes "runs_to h timeout ps (setting_out w) (ss, es, w')"
  shows "(\<nexists>f. f 0 = (ss, es, w') \<and> (\<forall>i. turns h timeout ps (f i) (f (Suc i)))) \<and>
    ((\<exists>c. turns h timeout ps (ss, es, w') c) \<or> (\<forall>p \<in> set ps. \<exists>r. ss p = Through r))"
proof
  let ?pot = "potential (now w + 2 * max 0 timeout) ps"
  show "\<nexists>f. f 0 = (ss, es, w') \<and> (\<forall>i. turns h timeout ps (f i) (f (Suc i)))"
  proof
    assume "\<exists>f. f 0 = (ss, es, w') \<and> (\<forall>i. turns h timeout ps (f i) (f (Suc i)))"
    then obtain f where f: "f 0 = (ss, es, w')" "\<And>i. turns h timeout ps (f i) (f (Suc i))" by blast
    have "runs_to h timeout ps (setting_out w) (f i)" for i
      by (induction i) (use f assms in \<open>auto intro: rtranclp.rtrancl_into_rtrancl\<close>)
    then have "?pot (f (Suc i)) < ?pot (f i)" for i using potential_turns [OF f(2)] run_ok_runs by blast
    then have "?pot (f i) + i \<le> ?pot (f 0)" for i
    proof (induction i)
      case (Suc i)
      from Suc.prems [of i] Suc.IH [OF Suc.prems] show ?case by simp
    qed simp
    from this [of "Suc (?pot (f 0))"] show False by simp
  qed
  show "(\<exists>c. turns h timeout ps (ss, es, w') c) \<or> (\<forall>p \<in> set ps. \<exists>r. ss p = Through r)"
    using turns_on by blast
qed

text \<open>
  C40: \<open>stop_all\<close>, by which the model of \<open>teardown\<close> stops the stores, is one of the runs of the goroutines, with the
  same errors in the same order and the same world at the end, and a complete one: nothing can happen any more.
\<close>

theorem stop_all_is_run:
  assumes "stop_all h ps timeout w = (es, w')" "distinct ps" "0 \<le> timeout"
  shows "\<exists>ss. runs_to h timeout ps (setting_out w) (ss, es, w') \<and> (\<forall>p \<in> set ps. \<exists>r. ss p = Through r) \<and>
    (\<nexists>c. turns h timeout ps (ss, es, w') c)"
proof -
  from stop_all_run [OF assms] obtain ss where run: "runs_to h timeout ps (setting_out w) (ss, es, w')"
    and ss: "\<And>p. p \<in> set ps \<Longrightarrow> \<exists>r. ss p = Through r" by blast
  have "\<not> turns h timeout ps (ss, es, w') c" for c
  proof
    assume "turns h timeout ps (ss, es, w') c"
    then show False
    proof (cases rule: turns.cases)
      case (turns_goes p s1 w1)
      with ss [of p] goes_not_through(1) show ?thesis by fastforce
    qed (use ss in \<open>auto simp: waiting_iff, fastforce+\<close>)
  qed
  with run ss show ?thesis by blast
qed

text \<open>A server that cannot be killed, and one that has gone already.\<close>

definition gone_process :: process where
  "gone_process = \<lparr>p_name = ''tikv-0'', p_pid = 300, p_logPath = ''/tmp/kv.log'', p_watchdog = None, p_tee = None\<rparr>"

definition two_stopped :: "go_error list \<times> world" where
  "two_stopped = stop_all stuck_host [stuck_process, gone_process] 5 example_two"

lemma two_stopped_eq:
  "stop_all stuck_host [stuck_process, gone_process] 5 example_two = ([survived_error ''pd-0''], snd two_stopped)"
  "distinct [stuck_process, gone_process]"
proof -
  have "fst two_stopped = [survived_error ''pd-0'']" by code_simp
  then show "stop_all stuck_host [stuck_process, gone_process] 5 example_two = ([survived_error ''pd-0''], snd two_stopped)"
    by (simp add: two_stopped_def [symmetric] prod_eq_iff)
qed code_simp

theorem stop_all_is_run_witness:
  "\<exists>ss. runs_to stuck_host 5 [stuck_process, gone_process] (setting_out example_two) (ss, [survived_error ''pd-0''], snd two_stopped)"
  using stop_all_is_run [OF two_stopped_eq] by auto

theorem stopping_correct_witness:
  "now (snd two_stopped) \<le> now example_two + 10 \<and> ending example_two (snd two_stopped)"
  using stop_all_run [OF two_stopped_eq] stopping_correct
    [where h = stuck_host and timeout = 5 and ps = "[stuck_process, gone_process]" and w = example_two and w' = "snd two_stopped"]
  by fastforce

theorem stopping_ends_witness:
  "\<nexists>f. f 0 = setting_out example_two \<and>
    (\<forall>i. turns stuck_host 5 [stuck_process, gone_process] (f i) (f (Suc i)))"
  using stopping_ends [of stuck_host 5 "[stuck_process, gone_process]" example_two "\<lambda>_. Checking" "[]" example_two]
  by (simp add: setting_out_def)

end
