(* ===== verification/Spec2Isabelle.thy ===== *)
theory Spec2Isabelle
  imports Data_Directories Ports Toml_Reference Binaries Wiring Reclaim Attempts Parallel_Stop
begin

text \<open>
  \<^bold>\<open>embedded-tikv\<close>: a Go library that runs a real TiKV cluster from a test. One PD server and some TiKV servers
  are started as child processes, on ports of their own, against a data directory of their own, with binaries
  that are downloaded once; they are torn down at the end, and swept up by a later run when the program that
  started them died.

  \<^bold>\<open>The parts and their theories.\<close> Every definition has the name of the Go function, method or type it translates
  (with a suffix where the name is taken), in the order of the source file.

  \<^item> \<open>Prelude\<close>: errors as texts, actions on a state, and the locale \<open>frame\<close>: a reflexive and transitive relation that
    an action keeps. It is interpreted for every "nothing but ... changes" of the development.
  \<^item> \<open>Go_Strings\<close>, \<open>Json\<close>, \<open>Host\<close>, \<open>Kernel\<close>: what the program uses of Go's standard library and of the operating
    system. \<open>world\<close> is what changes (file tree with inodes, locks, processes with groups, pipes, clock, counters, the
    package variables of the program), \<open>host\<close> what does not: environment, which calls fail (\<open>io_fault\<close>), the
    random names, the kernel's choice of ports, and the behaviour of the servers. All theorems are for all hosts.
  \<^item> \<open>Lock\<close> (\<^verbatim>\<open>lock.go\<close>), \<open>Proc_Info\<close> (\<^verbatim>\<open>signal.go\<close>, \<^verbatim>\<open>proc_attr.go\<close>, \<^verbatim>\<open>procinfo.go\<close>), \<open>Ports\<close> (\<^verbatim>\<open>ports.go\<close>),
    \<open>Config\<close> (\<^verbatim>\<open>config.go\<close>), \<open>Toml\<close> (\<^verbatim>\<open>toml.go\<close>): the small components. \<open>Toml_Reference\<close>: nested tables as
    shared memory. The locale \<open>liveness_lock\<close> of \<open>Lock\<close> is what the registry relies on.
  \<^item> \<open>Registry\<close> (\<^verbatim>\<open>registry.go\<close>): the records of running clusters, and \<open>CleanOrphans\<close> with its three passes.
    \<open>Registry_Records\<close>: the record on disk. \<open>Sweep_Safety\<close> and \<open>Data_Directories\<close>: a sweep spares the living.
    \<open>Recovery\<close> and \<open>Reclaim\<close>: it takes the dead. \<open>Interleaving\<close> and \<open>Exclusion\<close>: the owner of a cluster and any
    number of sweepers, system call by system call in any order.
  \<^item> \<open>Binaries\<close> (\<^verbatim>\<open>binaries.go\<close>): supplied directories, the cache, the mirror and its manifests, verified downloads.
  \<^item> \<open>Watchdog\<close> (\<^verbatim>\<open>watchdog.go\<close>): the shell that cleans up when the program dies, its script as a state machine.
    \<open>Process\<close> (\<^verbatim>\<open>process.go\<close>): one supervised server. \<open>Servers\<close> (\<^verbatim>\<open>pd.go\<close>, \<^verbatim>\<open>tikv.go\<close>): command lines, settings,
    readiness.
  \<^item> \<open>Cluster\<close> (\<^verbatim>\<open>embedded_tikv.go\<close>): the handle, \<open>Start\<close>, \<open>Stop\<close> and everything between. \<open>Lifecycle\<close>: the handle through
    any sequence of calls. \<open>Attempts\<close>: the retries. \<open>Teardown\<close>: stopping. \<open>Parallel_Stop\<close>: the
    goroutines that stop the stores, call by call in any order. \<open>Leftovers\<close>: no server is left behind.
    \<open>Wiring\<close>: the ports, names, directories and command lines of a started cluster. \<open>Examples\<close>: evaluated runs.

  \<^bold>\<open>How they interact.\<close> \<open>start\<close> sweeps (\<open>CleanOrphans\<close>), resolves the binaries, and makes up to \<open>startAttempts\<close> attempts.
  An attempt claims a record and its lock (\<open>openRecord\<close>), makes the data directory named after the record, reserves ports,
  starts PD and then the stores, each with a watchdog that owns the data directory and the record, and polls
  their HTTP interfaces until all stores are up. Each server is entered in the record on disk as soon as it
  runs. \<open>teardown\<close> stops the servers, stands the watchdogs down, removes the data directory if it is the library's
  own, and closes the record, or abandons it when a server may have survived.

  \<^bold>\<open>What the theorems show.\<close>

  \<^item> Safety between clusters: a sweep touches no file, process or lock of a cluster whose lock is held
    (\<open>CleanOrphans_spares_live\<close>, with what it takes of the layout, the command lines and the other records), because
    default data directories cannot be confused (\<open>cmdlineReferences_exact\<close>) and the
    lock is exclusive in every interleaving (\<open>lock_exclusive\<close>, \<open>settled_stays\<close>). Both need the lock file to be examined
    without error: a failed \<open>os.Stat\<close> of it is read as a missing lock.
  \<^item> Recovery: what a cluster started is on record and recognised from there (\<open>servers_recognised\<close>, for a data
    directory written as a clean absolute path and where command lines can be seen, in \<open>/proc\<close> or by \<^verbatim>\<open>ps\<close>), and a sweep
    reclaims a dead cluster entirely (\<open>CleanOrphans_reclaims\<close>).
  \<^item> The life of a handle: \<open>handle_invariant\<close>, the refinement \<open>life_refined\<close> of a two-state machine, the retry loop
    \<open>attempts_spec\<close>, \<open>teardown_correct\<close>, the bounds of \<open>stop_correct\<close> and, for every interleaving,
    of \<open>stopping_correct\<close> and \<open>stopping_ends\<close>, and \<open>no_server_left\<close>: neither
    a failed start nor a teardown leaves a server running. A started cluster is wired as it should be (\<open>started_wired\<close>).
  \<^item> The watchdog: it acts only when the program died, in an order that never strands a running server, and to the
    end (\<open>watchdog_stands_down\<close>, \<open>watchdog_order\<close>, \<open>watchdog_cleans\<close>, \<open>stop_then_watchdog\<close>).
  \<^item> The components: what \<open>openRecord\<close>, \<open>save\<close>, \<open>startProcess\<close>, \<open>freePorts\<close>, \<open>nestConfig\<close>, \<open>waitPDReady\<close>, \<open>waitStoresUp\<close>,
    \<open>download\<close>, \<open>resolveBinaries\<close> and \<open>recentVersions\<close> do on every path.
  \<^item> Where the code falls short of its documentation: \<open>lock_race\<close> (a lock file removed between its creation and its
    lock), \<open>crash_seen_iff\<close> (with a logger a crash is not noticed while the watchdog holds the pipe),
    \<open>watchdog_cleans\<close> (the record goes even if the data directory could not be removed),
    \<open>nestConfig_drops_nested\<close> (a nested table loses a colliding key), \<open>callers_table_written\<close> (a nested table of the
    caller's is written to; \<open>nestConfig_by_reference\<close> says when the expansion by value is right all the same).

  \<^bold>\<open>Bounds and fuel.\<close> Nothing is cut off for the model's sake. The limits are the code's: 10000 tries of
  \<open>os.CreateTemp\<close>, 100 of \<open>freePort\<close>, \<open>startAttempts = 3\<close>, \<open>logTailBytes\<close>, and the deadlines of the polling loops, on which
  their termination measure rests. \<open>alone\<close> runs a sweeper for 8 calls, after which it has finished;
  one that reclaims a record needs a call more for each server on it.

  \<^bold>\<open>Not modelled.\<close> The third-party TOML encoder, SHA-256, gzip and tar are parameters (\<open>env\<close>, \<open>codecs\<close>), and so are the
  answers of the HTTP servers; nothing is assumed of them. A server's output is written when it starts, since no
  claim depends on when it comes. An HTTP request takes no time of its own. \<open>teardown\<close> stops the stores in one of the
  interleavings of \<open>Parallel_Stop\<close> (\<open>stop_all_is_run\<close>). A configuration whose encoding fails leaves an empty file, where the encoder may have written a part.
  The servers' settings are taken by value, as if no nested table were shared between two configurations. Go's
  \<open>int\<close> is unbounded where the code counts servers and ports (\<open>2 + 2 * n\<close>), and wraps nowhere below the sizes a
  machine can start. In \<open>Interleaving\<close> a search of the process table is one step,
  and so are the removal of a directory and the writing of a record.

  Faults and processes are simplified as follows. A call that fails does so for its path throughout (\<open>io_fault\<close> is a function of the
  operation and the path): one that fails once and then succeeds is not covered. \<open>os.RemoveAll\<close> and \<^verbatim>\<open>rm -rf\<close> remove the whole tree or,
  when they fail, nothing. The working directory of a server (\<open>cmd.Dir\<close>) is left out: paths are taken as absolute, and a
  relative data directory, cache directory or binary, which the server and its watchdog would look for below that directory, is
  outside the model. The copies of pipe ends that the program closes at once (the read end given to the watchdog) and
  closed log files have no counterpart. \<open>exited\<close> reads the process table, where the code reads a channel that a goroutine closes
  a moment after the exit. The steps of \<open>watchdog_step\<close> are those of a watchdog that is alive: one that was killed with its
  group takes no more. A nil map as a nested table of a configuration, on which the code panics, is no value of \<open>any\<close>.
\<close>

end
